(* ===== verification/Xv6_Prelude.thy ===== *)
theory Xv6_Prelude
  imports Main "HOL-Library.Word"
begin

text \<open>
  Shared vocabulary of the xv6 development: the machine types of
  \<^verbatim>\<open>kernel/types.h\<close>, the result type in which every kernel operation answers
  (a value, a panic, or the point at which the calling thread goes to sleep), the
  little-endian encoding of integers, overwriting a slice of a list, and the byte-addressed
  physical memory with its 64-bit loads and stores.

  The collections \<open>res_simps\<close>, \<open>mem_simps\<close> and \<open>pgsimps\<close> hold the facts that the
  component proofs hand to the simplifier.
\<close>

unbundle bit_operations_syntax

named_theorems res_simps \<open>rewriting of result values\<close>
named_theorems mem_simps \<open>loads, stores and copies on physical memory\<close>
named_theorems pgsimps \<open>page arithmetic\<close>

section \<open>Machine types\<close>

type_synonym byte = "8 word"
type_synonym uint64 = "64 word"
type_synonym uint32 = "32 word"

section \<open>Results\<close>

text \<open>
  \<open>Panic msg\<close> is a call of \<^verbatim>\<open>panic(msg)\<close>, which stops the machine; \<open>Sleep ch\<close> is
  the call of \<^verbatim>\<open>sleep()\<close> on channel \<open>ch\<close> that an operation makes when it has to
  wait, so that it does not return on its own.
\<close>

datatype 'a res = Ok 'a | Panic string | Sleep string

definition rbind :: "'a res \<Rightarrow> ('a \<Rightarrow> 'b res) \<Rightarrow> 'b res" where
  "rbind r f = (case r of Ok x \<Rightarrow> f x | Panic m \<Rightarrow> Panic m | Sleep c \<Rightarrow> Sleep c)"

lemma rbind_simps [simp, res_simps]:
  "rbind (Ok x) f = f x"
  "rbind (Panic m) f = Panic m"
  "rbind (Sleep c) f = Sleep c"
  by (simp_all add: rbind_def)

lemma rbind_Ok_iff: "rbind r f = Ok y \<longleftrightarrow> (\<exists>x. r = Ok x \<and> f x = Ok y)"
  by (cases r) auto

lemma rbind_OkE [elim!]:
  assumes "rbind r f = Ok y"
  obtains x where "r = Ok x" "f x = Ok y"
  using assms by (auto simp: rbind_Ok_iff)

lemma rbind_cong [fundef_cong]:
  "r = r' \<Longrightarrow> (\<And>x. r' = Ok x \<Longrightarrow> f x = f' x) \<Longrightarrow> rbind r f = rbind r' f'"
  by (cases r') auto

definition is_Ok :: "'a res \<Rightarrow> bool" where
  "is_Ok r = (case r of Ok _ \<Rightarrow> True | _ \<Rightarrow> False)"

lemma is_Ok_simps [simp, res_simps]:
  "is_Ok (Ok x)" "\<not> is_Ok (Panic m)" "\<not> is_Ok (Sleep c)"
  by (simp_all add: is_Ok_def)

lemma is_OkE:
  assumes "is_Ok r"
  obtains x where "r = Ok x"
  using assms by (cases r) auto

section \<open>Little-endian integers\<close>

fun le_bytes :: "nat \<Rightarrow> nat \<Rightarrow> byte list" where
  "le_bytes 0 v = []"
| "le_bytes (Suc n) v = of_nat (v mod 256) # le_bytes n (v div 256)"

fun le_val :: "byte list \<Rightarrow> nat" where
  "le_val [] = 0"
| "le_val (b # bs) = unat b + 256 * le_val bs"

lemma unat_byte: "unat (b :: byte) < 256"
  using unsigned_less [of b, where 'a = nat] by simp

lemma unat_uint64: "unat (v :: uint64) < 2 ^ 64"
  using unsigned_less [of v, where 'a = nat] by simp

lemma length_le_bytes [simp]: "length (le_bytes n v) = n"
  by (induction n arbitrary: v) auto

lemma le_val_le_bytes: "le_val (le_bytes n v) = v mod 256 ^ n"
proof (induction n arbitrary: v)
  case 0
  then show ?case by simp
next
  case (Suc n)
  have "unat (of_nat (v mod 256) :: byte) = v mod 256"
    by (simp add: unat_of_nat)
  with Suc show ?case
    by (simp add: mod_mult2_eq mult.commute)
qed

lemma le_val_bound: "le_val bs < 256 ^ length bs"
proof (induction bs)
  case (Cons b bs)
  have "unat b < 256" by (rule unat_byte)
  with Cons show ?case by simp
qed simp

lemma le_bytes_le_val: "le_bytes (length bs) (le_val bs) = bs"
proof (induction bs)
  case (Cons b bs)
  have "unat b < 256" by (rule unat_byte)
  with Cons show ?case by simp
qed simp

lemma le_val_inj: "length xs = length ys \<Longrightarrow> le_val xs = le_val ys \<Longrightarrow> xs = ys"
  by (metis le_bytes_le_val)

section \<open>Overwriting a slice of a list\<close>

text \<open>\<open>splice off bs xs\<close> stores \<open>bs\<close> at offset \<open>off\<close> of the array \<open>xs\<close>;
  \<open>slice off n xs\<close> reads \<open>n\<close> elements there.\<close>

definition splice :: "nat \<Rightarrow> 'a list \<Rightarrow> 'a list \<Rightarrow> 'a list" where
  "splice off bs xs = take off xs @ bs @ drop (off + length bs) xs"

definition slice :: "nat \<Rightarrow> nat \<Rightarrow> 'a list \<Rightarrow> 'a list" where
  "slice off n xs = take n (drop off xs)"

lemma length_splice [simp]:
  "off + length bs \<le> length xs \<Longrightarrow> length (splice off bs xs) = length xs"
  by (simp add: splice_def)

lemma length_slice [simp]: "off + n \<le> length xs \<Longrightarrow> length (slice off n xs) = n"
  by (simp add: slice_def)

lemma slice_splice_same:
  "off + length bs \<le> length xs \<Longrightarrow> n = length bs \<Longrightarrow> slice off n (splice off bs xs) = bs"
  by (simp add: slice_def splice_def)

lemma nth_splice:
  assumes "off + length bs \<le> length xs" "i < length xs"
  shows "splice off bs xs ! i =
    (if off \<le> i \<and> i < off + length bs then bs ! (i - off) else xs ! i)"
  using assms by (auto simp: splice_def nth_append)

lemma nth_slice: "off + n \<le> length xs \<Longrightarrow> i < n \<Longrightarrow> slice off n xs ! i = xs ! (off + i)"
  by (simp add: slice_def)

lemma slice_splice_other:
  assumes "off + length bs \<le> length xs" "o' + n \<le> length xs"
    and "o' + n \<le> off \<or> off + length bs \<le> o'"
  shows "slice o' n (splice off bs xs) = slice o' n xs"
  by (rule nth_equalityI) (use assms in \<open>auto simp: nth_slice nth_splice\<close>)

lemma splice_slice_id: "off + n \<le> length xs \<Longrightarrow> splice off (slice off n xs) xs = xs"
  by (rule nth_equalityI) (auto simp: nth_splice nth_slice)

section \<open>Physical memory\<close>

text \<open>
  RAM as the kernel sees it through its direct map: every address holds a byte.
  \<open>mload n a m\<close> are the \<open>n\<close> bytes from address \<open>a\<close> on, \<open>mstore a bs m\<close> stores
  the bytes \<open>bs\<close> there; addresses wrap around at 64 bits.
\<close>

type_synonym memory = "uint64 \<Rightarrow> byte"

definition mload :: "nat \<Rightarrow> uint64 \<Rightarrow> memory \<Rightarrow> byte list" where
  "mload n a m = map (\<lambda>i. m (a + of_nat i)) [0..<n]"

definition mstore :: "uint64 \<Rightarrow> byte list \<Rightarrow> memory \<Rightarrow> memory" where
  "mstore a bs m = (\<lambda>x. if unat (x - a) < length bs then bs ! unat (x - a) else m x)"

definition load64 :: "memory \<Rightarrow> uint64 \<Rightarrow> uint64" where
  "load64 m a = of_nat (le_val (mload 8 a m))"

definition store64 :: "uint64 \<Rightarrow> uint64 \<Rightarrow> memory \<Rightarrow> memory" where
  "store64 a v m = mstore a (le_bytes 8 (unat v)) m"

lemma length_mload [simp]: "length (mload n a m) = n"
  by (simp add: mload_def)

lemma nth_mload [simp]: "i < n \<Longrightarrow> mload n a m ! i = m (a + of_nat i)"
  by (simp add: mload_def)

lemma mstore_Nil [simp, mem_simps]: "mstore a [] m = m"
  by (simp add: mstore_def)

lemma mstore_in:
  "unat (x - a) < length bs \<Longrightarrow> mstore a bs m x = bs ! unat (x - a)"
  by (simp add: mstore_def)

lemma mstore_out [mem_simps]:
  "length bs \<le> unat (x - a) \<Longrightarrow> mstore a bs m x = m x"
  by (simp add: mstore_def)

lemma mload_mstore_same:
  assumes "length bs \<le> 2 ^ 64" "n = length bs"
  shows "mload n a (mstore a bs m) = bs"
proof (rule nth_equalityI)
  show "length (mload n a (mstore a bs m)) = length bs" using assms by simp
  fix i assume "i < length (mload n a (mstore a bs m))"
  then have i: "i < length bs" using assms by simp
  then have "unat (of_nat i :: uint64) = i"
    using assms by (simp add: unat_of_nat)
  with i show "mload n a (mstore a bs m) ! i = bs ! i"
    using assms by (simp add: mstore_def)
qed

lemma eq_plus_of_nat_iff:
  assumes "n < 2 ^ 64"
  shows "(x :: uint64) = a + of_nat n \<longleftrightarrow> unat (x - a) = n"
proof -
  have "x = a + of_nat n \<longleftrightarrow> x - a = of_nat n"
    by (metis add_diff_cancel_left' diff_add_cancel add.commute)
  also have "\<dots> \<longleftrightarrow> unat (x - a) = unat (of_nat n :: uint64)"
    by (rule word_unat_eq_iff)
  also have "unat (of_nat n :: uint64) = n"
    using assms by (simp add: unat_of_nat)
  finally show ?thesis .
qed

text \<open>Two ranges are apart when no byte of one is a byte of the other.\<close>

definition apart :: "uint64 \<Rightarrow> nat \<Rightarrow> uint64 \<Rightarrow> nat \<Rightarrow> bool" where
  "apart a n b k \<longleftrightarrow> (\<forall>i<n. k \<le> unat (a + of_nat i - b))"

lemma mload_mstore_apart:
  "apart a n b (length bs) \<Longrightarrow> mload n a (mstore b bs m) = mload n a m"
  by (auto simp: mload_def mstore_def apart_def not_less [symmetric])

lemma le_val_mload8 [simp]: "le_val (mload 8 a m) < 2 ^ 64"
  using le_val_bound [of "mload 8 a m"] by simp

lemma load64_store64_same [simp, mem_simps]: "load64 (store64 a v m) a = v"
proof -
  have "unat v < 2 ^ 64" by (rule unat_uint64)
  then show ?thesis
    by (simp add: load64_def store64_def mload_mstore_same le_val_le_bytes)
qed

lemma load64_mstore_apart:
  "apart b 8 a (length bs) \<Longrightarrow> load64 (mstore a bs m) b = load64 m b"
  by (simp add: load64_def mload_mstore_apart)

lemma load64_store64_apart:
  "apart b 8 a 8 \<Longrightarrow> load64 (store64 a v m) b = load64 m b"
  by (simp add: store64_def load64_mstore_apart)

end
