(* ===== verification/CString.thy ===== *)
theory CString
  imports Xv6_Prelude
begin

text \<open>
  \<^verbatim>\<open>kernel/string.c\<close>. The block operations (\<open>memset\<close>, \<open>memcmp\<close>, \<open>memmove\<close>)
  work on physical memory, byte by byte in the order of the C loops; they are shown equal to
  one store of a whole byte list (\<open>mstore\<close>), which is what the rest of the development
  rewrites them to. The string operations work on the array a \<^verbatim>\<open>char *\<close> points into,
  given as the list of its bytes from the pointer to the end of the object; running off that
  list is \<open>None\<close>.
\<close>

section \<open>Blocks of memory\<close>

function memset_loop :: "uint64 \<Rightarrow> byte \<Rightarrow> nat \<Rightarrow> nat \<Rightarrow> memory \<Rightarrow> memory" where
  "memset_loop dst c i n m =
     (if i < n then memset_loop dst c (Suc i) n (m(dst + of_nat i := c)) else m)"
  by pat_completeness auto
termination
  by (relation "measure (\<lambda>(dst, c, i, n, m). n - i)") auto

declare memset_loop.simps [simp del]

definition memset :: "uint64 \<Rightarrow> byte \<Rightarrow> nat \<Rightarrow> memory \<Rightarrow> memory" where
  "memset dst c n m = memset_loop dst c 0 n m"

fun memcmp :: "memory \<Rightarrow> uint64 \<Rightarrow> uint64 \<Rightarrow> nat \<Rightarrow> int" where
  "memcmp m s1 s2 0 = 0"
| "memcmp m s1 s2 (Suc n) =
     (if m s1 \<noteq> m s2 then uint (m s1) - uint (m s2) else memcmp m (s1 + 1) (s2 + 1) n)"

text \<open>The two loops of \<^verbatim>\<open>memmove\<close>: upwards from the start, downwards from the end.\<close>

fun copy_up :: "uint64 \<Rightarrow> uint64 \<Rightarrow> nat \<Rightarrow> memory \<Rightarrow> memory" where
  "copy_up d s 0 m = m"
| "copy_up d s (Suc n) m = copy_up (d + 1) (s + 1) n (m(d := m s))"

fun copy_down :: "uint64 \<Rightarrow> uint64 \<Rightarrow> nat \<Rightarrow> memory \<Rightarrow> memory" where
  "copy_down d s 0 m = m"
| "copy_down d s (Suc n) m = copy_down (d - 1) (s - 1) n (m(d - 1 := m (s - 1)))"

definition memmove :: "uint64 \<Rightarrow> uint64 \<Rightarrow> nat \<Rightarrow> memory \<Rightarrow> memory" where
  "memmove dst src n m =
     (if n = 0 then m
      else if src < dst \<and> src + of_nat n > dst
      then copy_down (dst + of_nat n) (src + of_nat n) n m
      else copy_up dst src n m)"

definition memcpy :: "uint64 \<Rightarrow> uint64 \<Rightarrow> nat \<Rightarrow> memory \<Rightarrow> memory" where
  "memcpy dst src n m = memmove dst src n m"

section \<open>Strings\<close>

fun strncmp :: "byte list \<Rightarrow> byte list \<Rightarrow> nat \<Rightarrow> int option" where
  "strncmp p q 0 = Some 0"
| "strncmp (a # p) (b # q) (Suc n) =
     (if a \<noteq> 0 \<and> a = b then strncmp p q n else Some (uint a - uint b))"
| "strncmp p q (Suc n) = None"

fun zero_fill :: "byte list \<Rightarrow> nat \<Rightarrow> byte list option" where
  "zero_fill s 0 = Some s"
| "zero_fill (x # s) (Suc n) = map_option ((#) 0) (zero_fill s n)"
| "zero_fill [] (Suc n) = None"

fun strncpy :: "byte list \<Rightarrow> byte list \<Rightarrow> nat \<Rightarrow> byte list option" where
  "strncpy s t 0 = Some s"
| "strncpy (x # s) (c # t) (Suc n) =
     map_option ((#) c) (if c \<noteq> 0 then strncpy s t n else zero_fill s n)"
| "strncpy s t (Suc n) = None"

text \<open>
  \<open>safe_copy s t n\<close> is the loop of \<^verbatim>\<open>safestrcpy\<close> entered with \<open>n\<close> before the
  decrement in \<^verbatim>\<open>--n > 0\<close>, followed by the final \<^verbatim>\<open>*s = 0\<close>.
\<close>

fun safe_copy :: "byte list \<Rightarrow> byte list \<Rightarrow> nat \<Rightarrow> byte list option" where
  "safe_copy (x # s) t (Suc 0) = Some (0 # s)"
| "safe_copy (x # s) (c # t) (Suc (Suc n)) =
     map_option ((#) c)
       (if c \<noteq> 0 then safe_copy s t (Suc n)
        else (case s of [] \<Rightarrow> None | _ # s' \<Rightarrow> Some (0 # s')))"
| "safe_copy s t n = None"

definition safestrcpy :: "byte list \<Rightarrow> byte list \<Rightarrow> int \<Rightarrow> byte list option" where
  "safestrcpy s t n = (if n \<le> 0 then Some s else safe_copy s t (nat n))"

fun strlen :: "byte list \<Rightarrow> nat option" where
  "strlen [] = None"
| "strlen (c # s) = (if c = 0 then Some 0 else map_option Suc (strlen s))"

text \<open>The contents of a NUL-terminated string.\<close>

definition cstr :: "byte list \<Rightarrow> byte list" where
  "cstr s = takeWhile (\<lambda>c. c \<noteq> 0) s"

lemma cstr_simps [simp]:
  "cstr [] = []" "cstr (c # s) = (if c = 0 then [] else c # cstr s)"
  by (simp_all add: cstr_def)

lemma length_cstr: "0 \<in> set s \<Longrightarrow> length (cstr s) < length s"
  by (induction s) auto

section \<open>Block operations are single stores\<close>

lemma memset_loop_eq:
  assumes "n \<le> 2 ^ 64"
  shows "memset_loop dst c i n m x =
    (if i \<le> unat (x - dst) \<and> unat (x - dst) < n then c else m x)"
  using assms
proof (induction dst c i n m rule: memset_loop.induct)
  case (1 dst c i n m)
  show ?case
  proof (cases "i < n")
    case True
    then have "x = dst + of_nat i \<longleftrightarrow> unat (x - dst) = i"
      using "1.prems" by (intro eq_plus_of_nat_iff) simp
    with "1.IH" [OF True "1.prems"] True show ?thesis
      by (subst memset_loop.simps) (auto simp del: fun_upd_apply simp: fun_upd_other fun_upd_same)
  next
    case False
    then show ?thesis by (auto simp: memset_loop.simps [of dst c i n m])
  qed
qed

lemma memset_eq [mem_simps]:
  "n \<le> 2 ^ 64 \<Longrightarrow> memset dst c n m = mstore dst (replicate n c) m"
  by (rule ext) (simp add: memset_def memset_loop_eq mstore_def)

lemma unat_minus_Suc:
  "unat (x - (d + 1) :: uint64) = (if x = d then 2 ^ 64 - 1 else unat (x - d) - 1)"
proof -
  have eq: "x - (d + 1) = (x - d) - 1" by simp
  have "unat (x - d - 1) = unat (x - d) - 1" if "x \<noteq> d"
    using that by (intro unat_minus_one) simp
  then show ?thesis
    unfolding eq by (simp add: unsigned_minus_1_eq_mask mask_eq_exp_minus_1)
qed

lemma copy_up_eq:
  assumes "n < 2 ^ 64" "d = s \<or> n \<le> unat (d - s)"
  shows "copy_up d s n m x = (if unat (x - d) < n then m (s + (x - d)) else m x)"
  using assms
proof (induction n arbitrary: d s m)
  case (Suc n)
  have pre: "d + 1 = s + 1 \<or> n \<le> unat (d + 1 - (s + 1))"
    using Suc.prems by auto
  have eq: "s + 1 + (x - (d + 1)) = s + (x - d)" by simp
  have IH: "copy_up (d + 1) (s + 1) n m' x =
    (if unat (x - (d + 1)) < n then m' (s + (x - d)) else m' x)" for m'
    using Suc.IH [OF _ pre, of m'] Suc.prems unfolding eq by simp
  show ?case
  proof (cases "x = d")
    case True
    with Suc.prems show ?thesis
      unfolding copy_up.simps IH by (simp add: unat_minus_Suc)
  next
    case False
    then have pos: "0 < unat (x - d)" by (simp add: unat_gt_0)
    have src: "s + (x - d) \<noteq> d" if "unat (x - d) \<le> n"
    proof
      assume "s + (x - d) = d"
      then have "x - d = d - s" by (metis add_diff_cancel_left')
      with Suc.prems False that show False by auto
    qed
    from False pos src show ?thesis
      unfolding copy_up.simps IH by (auto simp: unat_minus_Suc)
  qed
qed simp

lemma copy_down_eq:
  assumes "n < 2 ^ 64" "d = s \<or> n \<le> unat (s - d)"
  shows "copy_down (d + of_nat n) (s + of_nat n) n m x =
    (if unat (x - d) < n then m (s + (x - d)) else m x)"
  using assms
proof (induction n arbitrary: m)
  case (Suc n)
  have IH: "copy_down (d + of_nat n) (s + of_nat n) n m' x =
    (if unat (x - d) < n then m' (s + (x - d)) else m' x)" for m'
    using Suc by auto
  have eq: "d + of_nat (Suc n) - 1 = d + of_nat n" "s + of_nat (Suc n) - 1 = s + of_nat n"
    by simp_all
  have last: "x = d + of_nat n \<longleftrightarrow> unat (x - d) = n"
    using Suc.prems by (intro eq_plus_of_nat_iff) simp
  have src: "s + (x - d) \<noteq> d + of_nat n" if "unat (x - d) < n"
  proof
    assume "s + (x - d) = d + of_nat n"
    then have "s = d + of_nat n - (x - d)" by (metis add_diff_cancel_right')
    then have "s - d = of_nat n - (x - d)" by simp
    moreover have "x - d \<le> of_nat n" "unat (of_nat n :: uint64) = n"
      using that Suc.prems by (simp_all add: word_le_nat_alt unat_of_nat)
    ultimately have "unat (s - d) = n - unat (x - d)" by (metis unat_sub)
    with Suc.prems that show False by auto
  qed
  show ?case
    using src last by (auto simp: IH eq less_Suc_eq)
qed simp

text \<open>
  C39. \<open>memmove\<close> copies correctly whether or not the two ranges overlap: afterwards the
  destination holds what the source range held before the call, and no other byte of memory
  has changed. The ranges must not reach the end of the address space.
\<close>

theorem memmove_correct:
  assumes "unat src + n < 2 ^ 64" "unat dst + n < 2 ^ 64"
  shows "memmove dst src n m = mstore dst (mload n src m) m"
proof -
  have n: "n < 2 ^ 64" using assms by simp
  have sn: "unat (src + of_nat n) = unat src + n"
    using assms n by (simp add: unat_word_ariths unat_of_nat)
  have val: "mstore dst (mload n src m) m x =
    (if unat (x - dst) < n then m (src + (x - dst)) else m x)" for x
    by (simp add: mstore_def)
  show ?thesis
  proof (cases "src < dst \<and> src + of_nat n > dst")
    case True
    then have "n \<le> unat (src - dst)"
      using assms sn by (simp add: unat_sub_if' word_less_nat_alt)
    with True n show ?thesis
      by (auto simp: memmove_def fun_eq_iff val copy_down_eq)
  next
    case False
    then have "dst = src \<or> n \<le> unat (dst - src)"
      using assms sn by (auto simp: unat_sub_if' word_less_nat_alt word_unat_eq_iff)
    with False n show ?thesis
      by (auto simp: memmove_def fun_eq_iff val copy_up_eq)
  qed
qed

theorem memmove_correct_witness:
  "memmove 101 100 3 (\<lambda>a. ucast a) =
     mstore 101 (mload 3 100 (\<lambda>a. ucast a)) (\<lambda>a. ucast a)"
  by (rule memmove_correct) simp_all

section \<open>String operations\<close>

text \<open>\<open>readable n s\<close>: a scan of at most \<open>n\<close> bytes that stops at a NUL stays in the array.\<close>

definition readable :: "nat \<Rightarrow> byte list \<Rightarrow> bool" where
  "readable n s \<longleftrightarrow> 0 \<in> set s \<or> n \<le> length s"

lemma readable_Cons [simp]:
  "readable (Suc n) (c # s) \<longleftrightarrow> c = 0 \<or> readable n s"
  "\<not> readable (Suc n) []" "readable 0 s"
  by (auto simp: readable_def)

text \<open>
  \<open>strncmp\<close> decides equality of the first \<open>n\<close> characters of two strings: on arrays that
  hold a NUL or at least \<open>n\<close> bytes it stays in bounds, and it returns 0 exactly when the two
  strings, cut at \<open>n\<close>, are the same.
\<close>

lemma strncmp_zero_iff:
  assumes "readable n p" "readable n q"
  shows "(\<exists>d. strncmp p q n = Some d) \<and>
    (strncmp p q n = Some 0 \<longleftrightarrow> take n (cstr p) = take n (cstr q))"
  using assms
proof (induction p q n rule: strncmp.induct)
  case (2 a p b q n)
  have "uint a = uint b \<longleftrightarrow> a = b" by (simp add: word_uint_eq_iff)
  with 2 show ?case by auto
qed auto

lemma zero_fill_eq: "n \<le> length s \<Longrightarrow> zero_fill s n = Some (replicate n 0 @ drop n s)"
  by (induction s n rule: zero_fill.induct) auto

lemma strncmp_zeroes: "strncmp (0 # t) (0 # r) (Suc n) = Some 0"
  by simp

text \<open>
  \<open>strncpy\<close> into a field of \<open>n\<close> bytes writes exactly those bytes, and \<open>strncmp\<close> over
  \<open>n\<close> bytes then finds the copy equal to the original, also when the name fills the field and
  no NUL is stored; this is how directory entries are written and looked up.
\<close>

lemma strncpy_strncmp:
  assumes "n \<le> length s" "readable n t"
  shows "\<exists>r. strncpy s t n = Some r \<and> length r = length s \<and> drop n r = drop n s \<and>
    strncmp t r n = Some 0 \<and> cstr (take n r) = take n (cstr t)"
  using assms
proof (induction s t n rule: strncpy.induct)
  case (2 x s c t n)
  show ?case
  proof (cases "c = 0")
    case True
    with 2 show ?thesis by (simp add: zero_fill_eq)
  next
    case False
    with 2 obtain r where "strncpy s t n = Some r" "length r = length s" "drop n r = drop n s"
      "strncmp t r n = Some 0" "cstr (take n r) = take n (cstr t)" by auto
    with False show ?thesis by auto
  qed
qed auto

text \<open>
  \<open>safestrcpy\<close> always leaves a NUL-terminated string within its \<open>n\<close> bytes: the result
  holds the source cut at \<open>n - 1\<close> characters, and no byte outside the array is written.
\<close>

lemma safestrcpy_terminates:
  assumes "0 < n" "n \<le> length s" "readable (n - 1) t"
  shows "\<exists>r. safestrcpy s t (int n) = Some r \<and> length r = length s \<and>
    0 \<in> set (take n r) \<and> cstr r = take (n - 1) (cstr t)"
proof -
  have "\<exists>r. safe_copy s t n = Some r \<and> length r = length s \<and>
    0 \<in> set (take n r) \<and> cstr r = take (n - 1) (cstr t)"
    using assms
  proof (induction s t n rule: safe_copy.induct)
    case (2 x s c t n)
    show ?case
    proof (cases "c = 0")
      case True
      with 2 show ?thesis by (cases s) auto
    next
      case False
      with 2 obtain r where "safe_copy s t (Suc n) = Some r" "length r = length s"
        "0 \<in> set (take (Suc n) r)" "cstr r = take n (cstr t)" by auto
      with False show ?thesis by auto
    qed
  qed auto
  with assms(1) show ?thesis by (simp add: safestrcpy_def)
qed

end
