(* ===== verification/Riscv.thy ===== *)
theory Riscv
  imports CString
begin

text \<open>
  The page arithmetic of \<^verbatim>\<open>kernel/riscv.h\<close> and the address map of
  \<^verbatim>\<open>kernel/memlayout.h\<close>: page rounding, page-table entries, the three Sv39 indices of a
  virtual address, and the constants of the physical and virtual layout. The lemmas relate
  the bit-level macros to arithmetic on the numbers the words stand for.
\<close>

section \<open>Constants\<close>

abbreviation (input) PGSIZE :: uint64 where "PGSIZE \<equiv> 4096"
abbreviation (input) MAXVA :: uint64 where "MAXVA \<equiv> 0x4000000000"
abbreviation (input) KERNBASE :: uint64 where "KERNBASE \<equiv> 0x80000000"
abbreviation (input) PHYSTOP :: uint64 where "PHYSTOP \<equiv> 0x88000000"
abbreviation (input) TRAMPOLINE :: uint64 where "TRAMPOLINE \<equiv> MAXVA - PGSIZE"
abbreviation (input) TRAPFRAME :: uint64 where "TRAPFRAME \<equiv> TRAMPOLINE - PGSIZE"

abbreviation (input) PTE_V :: uint64 where "PTE_V \<equiv> 1"
abbreviation (input) PTE_R :: uint64 where "PTE_R \<equiv> 2"
abbreviation (input) PTE_W :: uint64 where "PTE_W \<equiv> 4"
abbreviation (input) PTE_X :: uint64 where "PTE_X \<equiv> 8"
abbreviation (input) PTE_U :: uint64 where "PTE_U \<equiv> 16"

section \<open>Macros\<close>

definition PGROUNDUP :: "uint64 \<Rightarrow> uint64" where
  "PGROUNDUP sz = (sz + PGSIZE - 1) AND NOT (PGSIZE - 1)"

definition PGROUNDDOWN :: "uint64 \<Rightarrow> uint64" where
  "PGROUNDDOWN a = a AND NOT (PGSIZE - 1)"

definition PA2PTE :: "uint64 \<Rightarrow> uint64" where
  "PA2PTE pa = push_bit 10 (drop_bit 12 pa)"

definition PTE2PA :: "uint64 \<Rightarrow> uint64" where
  "PTE2PA pte = push_bit 12 (drop_bit 10 pte)"

definition PTE_FLAGS :: "uint64 \<Rightarrow> uint64" where
  "PTE_FLAGS pte = pte AND 0x3FF"

definition PX :: "nat \<Rightarrow> uint64 \<Rightarrow> uint64" where
  "PX level va = drop_bit (12 + 9 * level) va AND 0x1FF"

definition KSTACK :: "nat \<Rightarrow> uint64" where
  "KSTACK p = TRAMPOLINE - (of_nat p + 1) * 2 * PGSIZE"

section \<open>Page rounding\<close>

lemma and_not_mask_eq: "x AND NOT (mask n) = push_bit n (drop_bit n (x :: uint64))"
  by (rule bit_eqI) (auto simp: bit_simps not_le)

lemma PGROUNDDOWN_eq: "PGROUNDDOWN a = a - a mod 4096"
proof -
  have m: "(4095 :: uint64) = mask 12" by (simp add: mask_eq_exp_minus_1)
  have "push_bit 12 (drop_bit 12 a) + take_bit 12 a = a" by (rule bits_ident)
  then have "push_bit 12 (drop_bit 12 a) = a - take_bit 12 a"
    by (metis add_diff_cancel_right')
  then show ?thesis
    unfolding PGROUNDDOWN_def by (simp add: m and_not_mask_eq take_bit_eq_mod)
qed

lemma unat_mod4096 [pgsimps]: "unat (a mod 4096 :: uint64) = unat a mod 4096"
  by (simp add: unat_mod_distrib)

lemma unat_PGROUNDDOWN [pgsimps]: "unat (PGROUNDDOWN a) = unat a - unat a mod 4096"
proof -
  have "a mod 4096 \<le> a" by (simp add: word_le_nat_alt unat_mod_distrib)
  then show ?thesis by (simp add: PGROUNDDOWN_eq unat_sub unat_mod_distrib)
qed

definition page_aligned :: "uint64 \<Rightarrow> bool" where
  "page_aligned a \<longleftrightarrow> a mod PGSIZE = 0"

lemma page_aligned_unat: "page_aligned a \<longleftrightarrow> unat a mod 4096 = 0"
  by (simp add: page_aligned_def word_unat_eq_iff unat_mod_distrib)

lemma page_aligned_PGROUNDDOWN [simp]: "page_aligned (PGROUNDDOWN a)"
  by (simp add: page_aligned_unat unat_PGROUNDDOWN minus_mod_eq_mult_div [symmetric])

lemma PGROUNDDOWN_aligned [simp]: "page_aligned a \<Longrightarrow> PGROUNDDOWN a = a"
  by (simp add: page_aligned_def PGROUNDDOWN_eq)

lemma PGROUNDUP_eq: "PGROUNDUP sz = PGROUNDDOWN (sz + 4095)"
  by (simp add: PGROUNDUP_def PGROUNDDOWN_def add.commute)

lemma page_aligned_PGROUNDUP [simp]: "page_aligned (PGROUNDUP a)"
  by (simp add: PGROUNDUP_eq)

lemma unat_PGROUNDUP:
  assumes "unat sz + 4095 < 2 ^ 64"
  shows "unat (PGROUNDUP sz) = (unat sz + 4095) div 4096 * 4096"
proof -
  have "unat (sz + 4095) = unat sz + 4095"
    using assms by (simp add: unat_word_ariths)
  then show ?thesis
    by (simp add: PGROUNDUP_eq unat_PGROUNDDOWN minus_mod_eq_div_mult)
qed

text \<open>An aligned page contains exactly the addresses that round down to it.\<close>

definition in_page :: "uint64 \<Rightarrow> uint64 \<Rightarrow> bool" where
  "in_page p x \<longleftrightarrow> unat (x - p) < 4096"

lemma in_page_iff:
  assumes "page_aligned p"
  shows "in_page p x \<longleftrightarrow> PGROUNDDOWN x = p"
proof
  assume "in_page p x"
  then have lt: "unat (x - p) < 4096" by (simp add: in_page_def)
  have p: "unat p mod 4096 = 0" using assms by (simp add: page_aligned_unat)
  then obtain k where k: "unat p = 4096 * k" by (auto simp: mod_eq_0_iff_dvd)
  have "4096 * k < 4096 * 4503599627370496" using unat_uint64 [of p] k by simp
  then have "unat p + unat (x - p) < 2 ^ 64" using k lt by simp
  then have "unat (p + (x - p)) = unat p + unat (x - p)"
    by (subst unat_word_ariths) simp
  then have "unat (PGROUNDDOWN x) = unat p"
    using lt k by (simp add: unat_PGROUNDDOWN)
  then show "PGROUNDDOWN x = p" by (simp add: word_unat_eq_iff)
next
  assume "PGROUNDDOWN x = p"
  then show "in_page p x"
    by (auto simp: in_page_def PGROUNDDOWN_eq unat_mod_distrib)
qed

end
