(* ===== verification/Kalloc.thy ===== *)
theory Kalloc
  imports Riscv
begin

text \<open>
  \<^verbatim>\<open>kernel/kalloc.c\<close>: the physical page allocator. The free list is threaded through the
  free pages themselves (\<^verbatim>\<open>struct run\<close> in the first eight bytes of a page), so the
  state is memory and the list head; \<open>kend\<close> is the linker symbol \<^verbatim>\<open>end\<close>, the first
  address after the kernel. The record is the root of the kernel state: the later components
  extend it. The sections between \<^verbatim>\<open>acquire(&kmem.lock)\<close> and
  \<^verbatim>\<open>release(&kmem.lock)\<close> are atomic steps.

  The contract of the allocator is the locale \<open>page_allocator\<close>: allocation pops, freeing
  pushes, the pages are valid and distinct, and memory changes only inside the page that is
  handed over. Its interpretation \<open>ka\<close> on \<open>kalloc\<close> and \<open>kfree\<close> is what the page-table
  code rests on.
\<close>

record kmem =
  mem :: memory
  freelist :: uint64
  kend :: uint64

definition kfree :: "uint64 \<Rightarrow> 'a kmem_scheme \<Rightarrow> 'a kmem_scheme res" where
  "kfree pa s =
     (if pa mod PGSIZE \<noteq> 0 \<or> pa < kend s \<or> pa \<ge> PHYSTOP then Panic ''kfree''
      else let m = memset pa 1 4096 (mem s)
           in Ok (s\<lparr>mem := store64 pa (freelist s) m, freelist := pa\<rparr>))"

definition kalloc :: "'a kmem_scheme \<Rightarrow> uint64 \<times> 'a kmem_scheme" where
  "kalloc s =
     (let r = freelist s;
          s1 = (if r \<noteq> 0 then s\<lparr>freelist := load64 (mem s) r\<rparr> else s);
          s2 = (if r \<noteq> 0 then s1\<lparr>mem := memset r 5 4096 (mem s1)\<rparr> else s1)
      in (r, s2))"

lemma kfree_bound: "kfree p s = Ok s' \<Longrightarrow> p < PHYSTOP \<and> p mod PGSIZE = 0 \<and> kend s \<le> p"
  by (auto simp: kfree_def Let_def not_less not_le split: if_splits)

function freerange_loop :: "uint64 \<Rightarrow> uint64 \<Rightarrow> 'a kmem_scheme \<Rightarrow> 'a kmem_scheme res" where
  "freerange_loop p pa_end s =
     (if p + PGSIZE \<le> pa_end
      then rbind (kfree p s) (\<lambda>s. freerange_loop (p + PGSIZE) pa_end s)
      else Ok s)"
  by pat_completeness auto
termination
proof (relation "measure (\<lambda>(p, e, s). unat (PHYSTOP - p))")
  fix p pa_end :: uint64 and s s' :: "'a kmem_scheme"
  assume "kfree p s = Ok s'"
  then have p: "p < PHYSTOP" "p mod PGSIZE = 0" by (simp_all add: kfree_bound)
  obtain k where k: "unat p = 4096 * k"
    using p by (auto simp: word_unat_eq_iff unat_mod_distrib mod_eq_0_iff_dvd)
  have "4096 * k < 4096 * 557056" using p k by (simp add: word_less_nat_alt)
  then have "unat p + 4096 \<le> unat (PHYSTOP :: uint64)" using k by simp
  moreover from this have "unat (p + PGSIZE) = unat p + 4096"
    by (subst unat_word_ariths) simp
  ultimately have "unat (PHYSTOP - (p + PGSIZE)) < unat (PHYSTOP - p)"
    by (simp add: unat_sub_if')
  then show "((p + PGSIZE, pa_end, s'), p, pa_end, s)
      \<in> measure (\<lambda>(p, e, s). unat (PHYSTOP - p))"
    by simp
qed simp

declare freerange_loop.simps [simp del]

definition freerange :: "uint64 \<Rightarrow> uint64 \<Rightarrow> 'a kmem_scheme \<Rightarrow> 'a kmem_scheme res" where
  "freerange pa_start pa_end s = freerange_loop (PGROUNDUP pa_start) pa_end s"

definition kinit :: "'a kmem_scheme \<Rightarrow> 'a kmem_scheme res" where
  "kinit s = freerange (kend s) PHYSTOP s"

section \<open>The free list in memory\<close>

fun free_pages :: "memory \<Rightarrow> uint64 \<Rightarrow> uint64 list \<Rightarrow> bool" where
  "free_pages m r [] \<longleftrightarrow> r = 0"
| "free_pages m r (p # ps) \<longleftrightarrow> r = p \<and> p \<noteq> 0 \<and> free_pages m (load64 m p) ps"

definition valid_page :: "'a kmem_scheme \<Rightarrow> uint64 \<Rightarrow> bool" where
  "valid_page s p \<longleftrightarrow> page_aligned p \<and> kend s \<le> p \<and> p < PHYSTOP"

definition kmem_inv :: "'a kmem_scheme \<Rightarrow> uint64 list \<Rightarrow> bool" where
  "kmem_inv s ps \<longleftrightarrow> KERNBASE \<le> kend s \<and> free_pages (mem s) (freelist s) ps \<and>
     distinct ps \<and> (\<forall>p\<in>set ps. valid_page s p)"

lemma load64_cong:
  assumes "\<And>i. i < 8 \<Longrightarrow> m (a + of_nat i) = m' (a + of_nat i)"
  shows "load64 m a = load64 m' a"
proof -
  have "mload 8 a m = mload 8 a m'"
    unfolding mload_def by (rule map_cong) (use assms in auto)
  then show ?thesis by (simp add: load64_def)
qed

lemma in_page_offset: "i < 4096 \<Longrightarrow> in_page p (p + of_nat i)"
  by (simp add: in_page_def unat_of_nat)

lemma in_page_unique: "page_aligned p \<Longrightarrow> page_aligned q \<Longrightarrow> in_page p x \<Longrightarrow> in_page q x \<Longrightarrow> p = q"
  by (auto simp: in_page_iff)

lemma not_in_page: "PGROUNDDOWN x \<in> A \<Longrightarrow> p \<notin> A \<Longrightarrow> page_aligned p \<Longrightarrow> \<not> in_page p x"
  by (auto simp: in_page_iff)

lemma load64_page_cong:
  assumes "\<And>x. in_page p x \<Longrightarrow> m x = m' x"
  shows "load64 m p = load64 m' p"
  by (rule load64_cong, rule assms) (simp add: in_page_offset)

lemma mstore_off_page:
  assumes "\<not> in_page q x" "off + length bs \<le> 4096"
  shows "mstore (q + of_nat off) bs m x = m x"
proof -
  have "length bs \<le> unat (x - (q + of_nat off))"
  proof (rule ccontr)
    assume "\<not> ?thesis"
    then have lt: "unat (x - (q + of_nat off)) < length bs" by simp
    define y where "y = x - (q + of_nat off)"
    have "x - q = y + of_nat off" by (simp add: y_def)
    then have "unat (x - q) = (unat (x - (q + of_nat off)) + off) mod 2 ^ 64"
      using assms(2) unfolding y_def [symmetric] by (simp add: unat_word_ariths unat_of_nat)
    also have "\<dots> \<le> unat (x - (q + of_nat off)) + off" by (rule mod_less_eq_dividend)
    finally show False using lt assms by (simp add: in_page_def)
  qed
  then show ?thesis by (simp add: mem_simps)
qed

lemma mstore_page [mem_simps]:
  "\<not> in_page q x \<Longrightarrow> length bs \<le> 4096 \<Longrightarrow> mstore q bs m x = m x"
  using mstore_off_page [of q x 0 bs m] by simp

lemma free_pages_cong:
  assumes "\<And>p x. p \<in> set ps \<Longrightarrow> in_page p x \<Longrightarrow> m x = m' x"
  shows "free_pages m r ps \<longleftrightarrow> free_pages m' r ps"
  using assms
proof (induction ps arbitrary: r)
  case (Cons p ps)
  have "load64 m p = load64 m' p"
    by (rule load64_page_cong) (use Cons.prems in auto)
  moreover have "free_pages m r' ps = free_pages m' r' ps" for r'
    by (rule Cons.IH) (use Cons.prems in auto)
  ultimately show ?case by simp
qed simp

text \<open>Changing memory inside pages that are not free keeps the free list.\<close>

lemma kmem_inv_frame:
  assumes "kmem_inv s ps" "freelist s' = freelist s" "kend s' = kend s"
    and "\<And>x. PGROUNDDOWN x \<in> set ps \<Longrightarrow> mem s' x = mem s x"
  shows "kmem_inv s' ps"
proof -
  have "free_pages (mem s') (freelist s) ps \<longleftrightarrow> free_pages (mem s) (freelist s) ps"
    by (rule free_pages_cong)
      (use assms in \<open>auto simp: kmem_inv_def valid_page_def in_page_iff\<close>)
  with assms show ?thesis by (simp add: kmem_inv_def valid_page_def)
qed

section \<open>The allocator's contract\<close>

text \<open>\<open>inv s ps\<close>: the free pages are \<open>ps\<close>, the next one to be handed out first.\<close>

locale page_allocator =
  fixes alloc :: "'s \<Rightarrow> uint64 \<times> 's"
    and free :: "uint64 \<Rightarrow> 's \<Rightarrow> 's res"
    and memof :: "'s \<Rightarrow> memory"
    and valid :: "'s \<Rightarrow> uint64 \<Rightarrow> bool"
    and inv :: "'s \<Rightarrow> uint64 list \<Rightarrow> bool"
  assumes inv_distinct: "inv s ps \<Longrightarrow> distinct ps"
    and inv_valid: "inv s ps \<Longrightarrow> p \<in> set ps \<Longrightarrow> valid s p"
    and valid_pos: "inv s ps \<Longrightarrow> valid s p \<Longrightarrow> p \<noteq> 0 \<and> page_aligned p"
    and alloc_empty: "inv s [] \<Longrightarrow> alloc s = (0, s)"
    and alloc_Cons: "inv s (p # ps) \<Longrightarrow> \<exists>s'. alloc s = (p, s') \<and> inv s' ps"
    and alloc_valid: "alloc s = (p, s') \<Longrightarrow> valid s' q = valid s q"
    and alloc_frame: "alloc s = (p, s') \<Longrightarrow> \<not> in_page p x \<Longrightarrow> memof s' x = memof s x"
    and free_ok: "inv s ps \<Longrightarrow> valid s p \<Longrightarrow> p \<notin> set ps \<Longrightarrow> \<exists>s'. free p s = Ok s' \<and> inv s' (p # ps)"
    and free_bad: "inv s ps \<Longrightarrow> \<not> valid s p \<Longrightarrow> \<exists>msg. free p s = Panic msg"
    and free_valid: "free p s = Ok s' \<Longrightarrow> valid s' q = valid s q"
    and free_frame: "free p s = Ok s' \<Longrightarrow> \<not> in_page p x \<Longrightarrow> memof s' x = memof s x"
begin

lemma alloc_cases:
  assumes "inv s ps" "alloc s = (p, s')"
  obtains "ps = []" "p = 0" "s' = s"
    | qs where "ps = p # qs" "p \<noteq> 0" "valid s p" "page_aligned p" "inv s' qs"
proof (cases ps)
  case Nil
  with assms alloc_empty that(1) show ?thesis by auto
next
  case (Cons q qs)
  with assms alloc_Cons have "inv s' qs" "p = q" by fastforce+
  with Cons assms inv_valid valid_pos that(2) show ?thesis by fastforce
qed

lemma free_alloc:
  assumes "inv s ps" "valid s p" "p \<notin> set ps"
  shows "\<exists>s1 s2. free p s = Ok s1 \<and> alloc s1 = (p, s2) \<and> inv s2 ps"
  using free_ok [OF assms] alloc_Cons by blast

end

lemma kalloc_frame:
  "kalloc s = (p, s') \<Longrightarrow> \<not> in_page p x \<Longrightarrow> mem s' x = mem s x"
  by (auto simp: kalloc_def Let_def mem_simps split: if_splits)

lemma kfree_frame:
  "kfree p s = Ok s' \<Longrightarrow> \<not> in_page p x \<Longrightarrow> mem s' x = mem s x"
  by (auto simp: kfree_def Let_def mem_simps store64_def split: if_splits)

lemma kalloc_kend [simp]: "kend (snd (kalloc s)) = kend s"
  by (simp add: kalloc_def Let_def)

lemma kfree_kend: "kfree p s = Ok s' \<Longrightarrow> kend s' = kend s"
  by (auto simp: kfree_def Let_def split: if_splits)

lemma kalloc_Cons:
  assumes "kmem_inv s (p # ps)"
  shows "\<exists>s'. kalloc s = (p, s') \<and> kmem_inv s' ps"
proof -
  from assms have r: "freelist s = p" "p \<noteq> 0" and fp: "free_pages (mem s) (load64 (mem s) p) ps"
    and d: "p \<notin> set ps" "distinct ps" and v: "\<forall>q\<in>set (p # ps). valid_page s q"
    by (auto simp: kmem_inv_def)
  let ?s1 = "s\<lparr>freelist := load64 (mem s) p\<rparr>"
  let ?s' = "?s1\<lparr>mem := memset p 5 4096 (mem s)\<rparr>"
  have "kmem_inv ?s1 ps"
    using assms fp d v by (auto simp: kmem_inv_def valid_page_def)
  then have "kmem_inv ?s' ps"
    by (rule kmem_inv_frame) (use v d in \<open>auto simp: mem_simps valid_page_def not_in_page\<close>)
  moreover have "kalloc s = (p, ?s')" using r by (simp add: kalloc_def Let_def)
  ultimately show ?thesis by blast
qed

lemma kfree_push:
  assumes "kmem_inv s ps" "valid_page s p" "p \<notin> set ps"
  shows "\<exists>s'. kfree p s = Ok s' \<and> kmem_inv s' (p # ps)"
proof -
  let ?s' = "s\<lparr>mem := store64 p (freelist s) (memset p 1 4096 (mem s)), freelist := p\<rparr>"
  have "kfree p s = Ok ?s'"
    using assms by (simp add: kfree_def Let_def valid_page_def page_aligned_def not_less not_le)
  moreover have "kmem_inv (?s'\<lparr>freelist := freelist s\<rparr>) ps"
    using assms(1) by (rule kmem_inv_frame)
      (use assms in \<open>auto simp: mem_simps store64_def valid_page_def not_in_page\<close>)
  then have "kmem_inv ?s' (p # ps)"
    using assms by (auto simp: kmem_inv_def valid_page_def word_le_nat_alt)
  ultimately show ?thesis by blast
qed

interpretation ka: page_allocator kalloc kfree mem valid_page kmem_inv
proof (unfold_locales, goal_cases)
  case (1 s ps) then show ?case by (simp add: kmem_inv_def)
next
  case (2 s ps p) then show ?case by (simp add: kmem_inv_def)
next
  case (3 s ps p) then show ?case by (auto simp: kmem_inv_def valid_page_def)
next
  case (4 s) then show ?case by (simp add: kmem_inv_def kalloc_def)
next
  case (5 s p ps) then show ?case by (rule kalloc_Cons)
next
  case (6 s p s' q) then show ?case by (metis kalloc_kend snd_conv valid_page_def)
next
  case (7 s p s' x) then show ?case by (rule kalloc_frame)
next
  case (8 s ps p) then show ?case by (rule kfree_push)
next
  case (9 s ps p)
  then show ?case by (auto simp: kfree_def valid_page_def page_aligned_def not_less not_le)
next
  case (10 p s s' q) then show ?case by (simp add: valid_page_def kfree_kend)
next
  case (11 p s s' x) then show ?case by (rule kfree_frame)
qed

section \<open>Properties\<close>

primrec kalloc_n :: "nat \<Rightarrow> 'a kmem_scheme \<Rightarrow> uint64 list \<times> 'a kmem_scheme" where
  "kalloc_n 0 s = ([], s)"
| "kalloc_n (Suc n) s =
     (let (p, s1) = kalloc s; (qs, s2) = kalloc_n n s1 in (p # qs, s2))"

text \<open>
  C37. The allocator never hands out a page twice: as long as pages are free, successive
  \<open>kalloc\<close> calls return pairwise distinct, page-aligned, non-null pages between the end of
  the kernel and \<open>PHYSTOP\<close>, and none of them is still on the free list afterwards.
\<close>

theorem kalloc_n_distinct:
  assumes "kmem_inv s ps" "n \<le> length ps"
  shows "\<exists>s'. kalloc_n n s = (take n ps, s') \<and> kmem_inv s' (drop n ps) \<and>
    distinct (take n ps) \<and> set (take n ps) \<inter> set (drop n ps) = {} \<and>
    (\<forall>p\<in>set (take n ps). p \<noteq> 0 \<and> valid_page s p)"
proof -
  have "\<exists>s'. kalloc_n n s = (take n ps, s') \<and> kmem_inv s' (drop n ps)"
    using assms
  proof (induction n arbitrary: s ps)
    case (Suc n)
    then obtain p qs where ps: "ps = p # qs" by (cases ps) auto
    with Suc.prems ka.alloc_Cons obtain s1 where s1: "kalloc s = (p, s1)" "kmem_inv s1 qs"
      by blast
    with Suc.IH [of s1 qs] Suc.prems ps show ?case by auto
  qed simp
  moreover have "\<forall>p\<in>set (take n ps). p \<noteq> 0 \<and> valid_page s p"
    using ka.inv_valid [OF assms(1)] ka.valid_pos [OF assms(1)] in_set_takeD [of _ n ps] by blast
  moreover have "distinct ps" using assms(1) by (rule ka.inv_distinct)
  ultimately show ?thesis
    by (simp add: set_take_disj_set_drop_if_distinct)
qed

lemma freerange_loop_pages:
  assumes "unat p + 4096 * n = unat (PHYSTOP :: uint64)" "kmem_inv s ps"
    and "\<And>q. q \<in> set ps \<Longrightarrow> q < p" "kend s \<le> p" "page_aligned p"
  shows "\<exists>s'. freerange_loop p PHYSTOP s = Ok s' \<and>
    kmem_inv s' (rev (map (\<lambda>i. p + 4096 * of_nat i) [0..<n]) @ ps)"
  using assms
proof (induction n arbitrary: p s ps)
  case 0
  then have "p = PHYSTOP" by (simp add: word_unat_eq_iff)
  with 0 show ?case by (simp add: freerange_loop.simps)
next
  case (Suc n)
  have pn: "unat (p + 4096) = unat p + 4096"
    using Suc.prems(1) by (simp add: unat_word_ariths)
  have lt: "p < PHYSTOP" "p + PGSIZE \<le> PHYSTOP"
    using Suc.prems(1) pn by (simp_all add: word_less_nat_alt word_le_nat_alt)
  have v: "valid_page s p" using lt Suc.prems by (simp add: valid_page_def)
  have "p \<notin> set ps" using Suc.prems(3) by blast
  then obtain s1 where s1: "kfree p s = Ok s1" "kmem_inv s1 (p # ps)"
    using ka.free_ok [OF Suc.prems(2) v] by blast
  have "\<exists>s'. freerange_loop (p + 4096) PHYSTOP s1 = Ok s' \<and>
    kmem_inv s' (rev (map (\<lambda>i. p + 4096 + 4096 * of_nat i) [0..<n]) @ p # ps)"
  proof (rule Suc.IH [OF _ s1(2)])
    show "unat (p + 4096) + 4096 * n = unat (PHYSTOP :: uint64)" using Suc.prems(1) pn by simp
    show "q < p + 4096" if "q \<in> set (p # ps)" for q
      using that Suc.prems(3) pn by (fastforce simp: word_less_nat_alt)
    show "kend s1 \<le> p + 4096"
      using Suc.prems(4) pn kfree_kend [OF s1(1)] by (simp add: word_le_nat_alt)
    show "page_aligned (p + 4096)"
      using Suc.prems(5) pn by (simp add: page_aligned_unat)
  qed
  moreover have "rev (map (\<lambda>i. p + 4096 * of_nat i) [0..<Suc n]) =
      rev (map (\<lambda>i. p + 4096 + 4096 * of_nat i) [0..<n]) @ [p]"
    by (simp add: upt_conv_Cons map_Suc_upt [symmetric] algebra_simps del: upt_Suc)
  ultimately show ?case
    using s1 lt by (simp add: freerange_loop.simps [of p] del: upt_Suc)
qed

text \<open>
  C38. \<open>kinit\<close> succeeds and builds the allocator's invariant: the free list then holds
  exactly the whole pages between the end of the kernel and \<open>PHYSTOP\<close>, each once.
\<close>

theorem kinit_establishes_inv:
  assumes "freelist s = 0" "KERNBASE \<le> kend s" "kend s < PHYSTOP"
  defines "p \<equiv> PGROUNDUP (kend s)"
  shows "\<exists>s'. kinit s = Ok s' \<and>
    kmem_inv s' (rev (map (\<lambda>i. p + 4096 * of_nat i) [0..<(unat PHYSTOP - unat p) div 4096]))"
proof -
  have k: "unat (kend s) < 2281701376" using assms(3) by (simp add: word_less_nat_alt)
  then have up: "unat p = (unat (kend s) + 4095) div 4096 * 4096"
    unfolding p_def by (intro unat_PGROUNDUP) simp
  define q where "q = (unat (kend s) + 4095) div 4096"
  have "(unat (kend s) + 4095) div 4096 \<le> (2281701375 + 4095) div 4096"
    using k by (intro div_le_mono) simp
  then have q: "q \<le> 557056" by (simp add: q_def)
  have "unat (PHYSTOP :: uint64) - unat p = 4096 * (557056 - q)"
    using q up by (simp add: q_def [symmetric])
  then have n: "unat p + 4096 * ((unat (PHYSTOP :: uint64) - unat p) div 4096)
      = unat (PHYSTOP :: uint64)"
    using q up by (simp add: q_def [symmetric])
  have "unat (kend s) + 4095 = q * 4096 + (unat (kend s) + 4095) mod 4096"
    by (simp add: q_def)
  moreover have "(unat (kend s) + 4095) mod 4096 < 4096" by simp
  ultimately have "unat (kend s) \<le> q * 4096" by linarith
  then have le: "kend s \<le> p" using up by (simp add: q_def word_le_nat_alt)
  have "kmem_inv s []" using assms by (simp add: kmem_inv_def)
  from freerange_loop_pages [OF n this _ le] show ?thesis
    by (simp add: kinit_def freerange_def p_def)
qed

text \<open>
  Freeing is the inverse of allocating: a valid page that is not free can be freed
  without a panic, and the next \<open>kalloc\<close> returns exactly that page, leaving the free list as
  it was before.
\<close>

lemma kfree_kalloc_roundtrip:
  assumes "kmem_inv s ps" "valid_page s p" "p \<notin> set ps"
  shows "\<exists>s1 s2. kfree p s = Ok s1 \<and> kalloc s1 = (p, s2) \<and> kmem_inv s2 ps"
  using assms by (rule ka.free_alloc)

section \<open>Concrete instances\<close>

text \<open>A machine whose kernel ends two pages below \<open>PHYSTOP\<close>, before and after \<open>kinit\<close>
  has put its last page on the free list.\<close>

definition demo_boot :: kmem where
  "demo_boot = \<lparr>mem = (\<lambda>_. 0), freelist = 0, kend = 0x87FFE000\<rparr>"

definition demo_kmem :: kmem where
  "demo_kmem = \<lparr>mem = (\<lambda>_. 0), freelist = 0x87FFF000, kend = 0x87FFE000\<rparr>"

lemma load64_zero [simp]: "load64 (\<lambda>_. 0) a = 0"
  by (simp add: load64_def mload_def upt_rec)

lemma demo_kmem_inv: "kmem_inv demo_kmem [0x87FFF000]"
  by (simp add: kmem_inv_def demo_kmem_def valid_page_def page_aligned_def)

theorem kalloc_n_distinct_witness:
  "kmem_inv demo_kmem [0x87FFF000] \<and> (\<exists>s'. kalloc_n 1 demo_kmem = ([0x87FFF000], s'))"
  using kalloc_n_distinct [OF demo_kmem_inv, of 1] demo_kmem_inv by auto

theorem kinit_establishes_inv_witness:
  "\<exists>s'. kinit demo_boot = Ok s' \<and> kmem_inv s' [0x87FFF000, 0x87FFE000]"
  using kinit_establishes_inv [of demo_boot]
  by (simp add: demo_boot_def PGROUNDUP_eq PGROUNDDOWN_eq upt_rec)

end
