(* ===== verification/Vm.thy ===== *)
theory Vm
  imports Kalloc
begin

text \<open>
  \<^verbatim>\<open>kernel/vm.c\<close>: Sv39 page tables in physical memory. A page table is the address of
  its root page; a page-table page holds 512 64-bit entries. The definitions follow the C
  functions; a returned null pointer is \<open>None\<close> (or the address 0 where the C code tests a
  \<^verbatim>\<open>uint64\<close>), and an \<^verbatim>\<open>int\<close> error code is an \<open>int\<close>.
\<close>

section \<open>Walking and mapping\<close>

text \<open>\<open>walk_from level\<close> is the loop of \<^verbatim>\<open>walk\<close> entered with that \<^verbatim>\<open>level\<close>.\<close>

fun walk_from :: "nat \<Rightarrow> uint64 \<Rightarrow> uint64 \<Rightarrow> bool \<Rightarrow> 'a kmem_scheme
    \<Rightarrow> uint64 option \<times> 'a kmem_scheme" where
  "walk_from 0 pagetable va alloc s = (Some (pagetable + 8 * PX 0 va), s)"
| "walk_from (Suc level) pagetable va alloc s =
     (let pte = pagetable + 8 * PX (Suc level) va; e = load64 (mem s) pte in
      if e AND PTE_V \<noteq> 0 then walk_from level (PTE2PA e) va alloc s
      else if \<not> alloc then (None, s)
      else let (p, s1) = kalloc s in
        if p = 0 then (None, s1)
        else let s2 = s1\<lparr>mem := memset p 0 4096 (mem s1)\<rparr>;
                 s3 = s2\<lparr>mem := store64 pte (PA2PTE p OR PTE_V) (mem s2)\<rparr>
             in walk_from level p va alloc s3)"

definition walk :: "uint64 \<Rightarrow> uint64 \<Rightarrow> bool \<Rightarrow> 'a kmem_scheme
    \<Rightarrow> (uint64 option \<times> 'a kmem_scheme) res" where
  "walk pagetable va alloc s =
     (if va \<ge> MAXVA then Panic ''walk'' else Ok (walk_from 2 pagetable va alloc s))"

definition walkaddr :: "uint64 \<Rightarrow> uint64 \<Rightarrow> 'a kmem_scheme \<Rightarrow> uint64" where
  "walkaddr pagetable va s =
     (if va \<ge> MAXVA then 0
      else case walk pagetable va False s of
        Ok (Some pte, _) \<Rightarrow>
          (let e = load64 (mem s) pte in
           if e AND PTE_V = 0 then 0
           else if e AND PTE_U = 0 then 0
           else PTE2PA e)
      | _ \<Rightarrow> 0)"

lemma walk_Ok_bound: "walk pt va al s = Ok r \<Longrightarrow> unat va < unat (MAXVA :: uint64)"
  by (auto simp: walk_def not_le word_less_nat_alt split: if_splits)

lemma unat_next_page: "unat a < unat (MAXVA :: uint64) \<Longrightarrow> unat (a + PGSIZE) = unat a + 4096"
  by (simp add: unat_word_ariths)

function mappages_loop :: "uint64 \<Rightarrow> uint64 \<Rightarrow> uint64 \<Rightarrow> uint64 \<Rightarrow> uint64 \<Rightarrow> 'a kmem_scheme
    \<Rightarrow> (int \<times> 'a kmem_scheme) res" where
  "mappages_loop pagetable a final pa perm s =
     rbind (walk pagetable a True s) (\<lambda>(r, s1).
       case r of
         None \<Rightarrow> Ok (-1, s1)
       | Some pte \<Rightarrow>
           if load64 (mem s1) pte AND PTE_V \<noteq> 0 then Panic ''mappages: remap''
           else let s2 = s1\<lparr>mem := store64 pte (PA2PTE pa OR perm OR PTE_V) (mem s1)\<rparr> in
             if a = final then Ok (0, s2)
             else mappages_loop pagetable (a + PGSIZE) final (pa + PGSIZE) perm s2)"
  by pat_completeness auto
termination
  by (relation "measure (\<lambda>(pt, a, l, pa, perm, s). unat (MAXVA :: uint64) - unat a)")
    (auto dest!: walk_Ok_bound simp: unat_next_page)

declare mappages_loop.simps [simp del]

definition mappages :: "uint64 \<Rightarrow> uint64 \<Rightarrow> uint64 \<Rightarrow> uint64 \<Rightarrow> uint64 \<Rightarrow> 'a kmem_scheme
    \<Rightarrow> (int \<times> 'a kmem_scheme) res" where
  "mappages pagetable va sz pa perm s =
     (if sz = 0 then Panic ''mappages: size''
      else mappages_loop pagetable (PGROUNDDOWN va) (PGROUNDDOWN (va + sz - 1)) pa perm s)"

definition kvmmap :: "uint64 \<Rightarrow> uint64 \<Rightarrow> uint64 \<Rightarrow> uint64 \<Rightarrow> uint64 \<Rightarrow> 'a kmem_scheme
    \<Rightarrow> 'a kmem_scheme res" where
  "kvmmap kpgtbl va pa sz perm s =
     rbind (mappages kpgtbl va sz pa perm s) (\<lambda>(r, s1).
       if r \<noteq> 0 then Panic ''kvmmap'' else Ok s1)"

function uvmunmap_loop :: "uint64 \<Rightarrow> uint64 \<Rightarrow> uint64 \<Rightarrow> bool \<Rightarrow> 'a kmem_scheme
    \<Rightarrow> 'a kmem_scheme res" where
  "uvmunmap_loop pagetable a stop do_free s =
     (if a < stop then
        rbind (walk pagetable a False s) (\<lambda>(r, s1).
          case r of
            None \<Rightarrow> Panic ''uvmunmap: walk''
          | Some pte \<Rightarrow>
              let e = load64 (mem s1) pte in
              if e AND PTE_V = 0 then Panic ''uvmunmap: not mapped''
              else if PTE_FLAGS e = PTE_V then Panic ''uvmunmap: not a leaf''
              else rbind (if do_free then kfree (PTE2PA e) s1 else Ok s1) (\<lambda>s2.
                uvmunmap_loop pagetable (a + PGSIZE) stop do_free
                  (s2\<lparr>mem := store64 pte 0 (mem s2)\<rparr>)))
      else Ok s)"
  by pat_completeness auto
termination
  by (relation "measure (\<lambda>(pt, a, l, d, s). unat (MAXVA :: uint64) - unat a)")
    (auto dest!: walk_Ok_bound simp: unat_next_page)

declare uvmunmap_loop.simps [simp del]

definition uvmunmap :: "uint64 \<Rightarrow> uint64 \<Rightarrow> uint64 \<Rightarrow> bool \<Rightarrow> 'a kmem_scheme
    \<Rightarrow> 'a kmem_scheme res" where
  "uvmunmap pagetable va npages do_free s =
     (if va mod PGSIZE \<noteq> 0 then Panic ''uvmunmap: not aligned''
      else uvmunmap_loop pagetable va (va + npages * PGSIZE) do_free s)"

section \<open>User address spaces\<close>

definition uvmcreate :: "'a kmem_scheme \<Rightarrow> uint64 \<times> 'a kmem_scheme" where
  "uvmcreate s =
     (let (pagetable, s1) = kalloc s in
      if pagetable = 0 then (0, s1)
      else (pagetable, s1\<lparr>mem := memset pagetable 0 4096 (mem s1)\<rparr>))"

definition uvminit :: "uint64 \<Rightarrow> byte list \<Rightarrow> 'a kmem_scheme \<Rightarrow> 'a kmem_scheme res" where
  "uvminit pagetable src s =
     (if length src \<ge> 4096 then Panic ''inituvm: more than a page''
      else let (p, s1) = kalloc s; s2 = s1\<lparr>mem := memset p 0 4096 (mem s1)\<rparr> in
        rbind (mappages pagetable 0 PGSIZE p (PTE_W OR PTE_R OR PTE_X OR PTE_U) s2) (\<lambda>(_, s3).
          Ok (s3\<lparr>mem := mstore p src (mem s3)\<rparr>)))"

definition uvmdealloc :: "uint64 \<Rightarrow> uint64 \<Rightarrow> uint64 \<Rightarrow> 'a kmem_scheme
    \<Rightarrow> (uint64 \<times> 'a kmem_scheme) res" where
  "uvmdealloc pagetable oldsz newsz s =
     (if newsz \<ge> oldsz then Ok (oldsz, s)
      else if PGROUNDUP newsz < PGROUNDUP oldsz
      then let npages = scast (ucast ((PGROUNDUP oldsz - PGROUNDUP newsz) div PGSIZE) :: uint32)
           in rbind (uvmunmap pagetable (PGROUNDUP newsz) npages True s) (\<lambda>s1. Ok (newsz, s1))
      else Ok (newsz, s))"

lemma mappages_Ok_bound:
  assumes "mappages pt a sz pa perm s = Ok r"
  shows "unat a < unat (MAXVA :: uint64) + 4096"
proof -
  from assms have "unat (PGROUNDDOWN a) < unat (MAXVA :: uint64)"
    by (auto simp: mappages_def mappages_loop.simps [of pt "PGROUNDDOWN a"]
             split: if_splits dest: walk_Ok_bound)
  moreover have "unat a mod 4096 < 4096" by simp
  ultimately show ?thesis unfolding unat_PGROUNDDOWN by linarith
qed

function uvmalloc_loop :: "uint64 \<Rightarrow> uint64 \<Rightarrow> uint64 \<Rightarrow> uint64 \<Rightarrow> 'a kmem_scheme
    \<Rightarrow> (uint64 \<times> 'a kmem_scheme) res" where
  "uvmalloc_loop pagetable a oldsz newsz s =
     (if a < newsz then
        let (p, s1) = kalloc s in
        if p = 0 then
          rbind (uvmdealloc pagetable a oldsz s1) (\<lambda>(_, s2). Ok (0, s2))
        else let s2 = s1\<lparr>mem := memset p 0 4096 (mem s1)\<rparr> in
          rbind (mappages pagetable a PGSIZE p (PTE_W OR PTE_X OR PTE_R OR PTE_U) s2) (\<lambda>(r, s3).
            if r \<noteq> 0 then
              rbind (kfree p s3) (\<lambda>s4.
                rbind (uvmdealloc pagetable a oldsz s4) (\<lambda>(_, s5). Ok (0, s5)))
            else uvmalloc_loop pagetable (a + PGSIZE) oldsz newsz s3)
      else Ok (newsz, s))"
  by pat_completeness auto
termination
proof (relation "measure (\<lambda>(pt, a, oldsz, n, s). unat (MAXVA :: uint64) + 4096 - unat a)", simp,
    goal_cases)
  case (1 pagetable a oldsz newsz s x p s1 s2 x' r s3)
  then have b: "unat a < unat (MAXVA :: uint64) + 4096" by (blast dest: mappages_Ok_bound)
  then have "unat (a + PGSIZE) = unat a + 4096" by (simp add: unat_word_ariths)
  with b show ?case by simp
qed

declare uvmalloc_loop.simps [simp del]

definition uvmalloc :: "uint64 \<Rightarrow> uint64 \<Rightarrow> uint64 \<Rightarrow> 'a kmem_scheme
    \<Rightarrow> (uint64 \<times> 'a kmem_scheme) res" where
  "uvmalloc pagetable oldsz newsz s =
     (if newsz < oldsz then Ok (oldsz, s)
      else uvmalloc_loop pagetable (PGROUNDUP oldsz) (PGROUNDUP oldsz) newsz s)"

text \<open>
  \<open>freewalk\<close> recurses along the entries. The C recursion is bounded only by the kernel stack,
  whose guard page turns an overflow into a panic; \<open>depth\<close> counts the frames that fit.
\<close>

fun rfold :: "('x \<Rightarrow> 's \<Rightarrow> 's res) \<Rightarrow> 'x list \<Rightarrow> 's \<Rightarrow> 's res" where
  "rfold f [] s = Ok s"
| "rfold f (x # xs) s = rbind (f x s) (\<lambda>s1. rfold f xs s1)"

primrec freewalk_depth :: "nat \<Rightarrow> uint64 \<Rightarrow> 'a kmem_scheme \<Rightarrow> 'a kmem_scheme res" where
  "freewalk_depth 0 pagetable s = Panic ''kerneltrap''"
| "freewalk_depth (Suc depth) pagetable s =
     rbind (rfold (\<lambda>i s.
         let a = pagetable + 8 * of_nat i; pte = load64 (mem s) a in
         if pte AND PTE_V \<noteq> 0 \<and> pte AND (PTE_R OR PTE_W OR PTE_X) = 0 then
           rbind (freewalk_depth depth (PTE2PA pte) s) (\<lambda>s1.
             Ok (s1\<lparr>mem := store64 a 0 (mem s1)\<rparr>))
         else if pte AND PTE_V \<noteq> 0 then Panic ''freewalk: leaf''
         else Ok s) [0..<512] s)
       (\<lambda>s1. kfree pagetable s1)"

definition freewalk :: "uint64 \<Rightarrow> 'a kmem_scheme \<Rightarrow> 'a kmem_scheme res" where
  "freewalk pagetable s = freewalk_depth 32 pagetable s"

definition uvmfree :: "uint64 \<Rightarrow> uint64 \<Rightarrow> 'a kmem_scheme \<Rightarrow> 'a kmem_scheme res" where
  "uvmfree pagetable sz s =
     rbind (if sz > 0 then uvmunmap pagetable 0 (PGROUNDUP sz div PGSIZE) True s else Ok s)
       (\<lambda>s1. freewalk pagetable s1)"

definition uvmcopy_err :: "uint64 \<Rightarrow> uint64 \<Rightarrow> 'a kmem_scheme \<Rightarrow> (int \<times> 'a kmem_scheme) res" where
  "uvmcopy_err new i s = rbind (uvmunmap new 0 (i div PGSIZE) True s) (\<lambda>s1. Ok (-1, s1))"

function uvmcopy_loop :: "uint64 \<Rightarrow> uint64 \<Rightarrow> uint64 \<Rightarrow> uint64 \<Rightarrow> 'a kmem_scheme
    \<Rightarrow> (int \<times> 'a kmem_scheme) res" where
  "uvmcopy_loop old new i sz s =
     (if i < sz then
        rbind (walk old i False s) (\<lambda>(r, s1).
          case r of
            None \<Rightarrow> Panic ''uvmcopy: pte should exist''
          | Some pte \<Rightarrow>
              let e = load64 (mem s1) pte in
              if e AND PTE_V = 0 then Panic ''uvmcopy: page not present''
              else let pa = PTE2PA e; flags = PTE_FLAGS e; (p, s2) = kalloc s1 in
                if p = 0 then uvmcopy_err new i s2
                else let s3 = s2\<lparr>mem := memmove p pa 4096 (mem s2)\<rparr> in
                  rbind (mappages new i PGSIZE p flags s3) (\<lambda>(r', s4).
                    if r' \<noteq> 0 then rbind (kfree p s4) (\<lambda>s5. uvmcopy_err new i s5)
                    else uvmcopy_loop old new (i + PGSIZE) sz s4))
      else Ok (0, s))"
  by pat_completeness auto
termination
proof (relation "measure (\<lambda>(old, new, i, sz, s). unat (MAXVA :: uint64) - unat i)", simp, goal_cases)
  case (1 old new i)
  then have b: "unat i < unat (MAXVA :: uint64)" by (blast dest: walk_Ok_bound)
  then show ?case by (simp add: unat_next_page)
qed

declare uvmcopy_loop.simps [simp del]

definition uvmcopy :: "uint64 \<Rightarrow> uint64 \<Rightarrow> uint64 \<Rightarrow> 'a kmem_scheme
    \<Rightarrow> (int \<times> 'a kmem_scheme) res" where
  "uvmcopy old new sz s = uvmcopy_loop old new 0 sz s"

definition uvmclear :: "uint64 \<Rightarrow> uint64 \<Rightarrow> 'a kmem_scheme \<Rightarrow> 'a kmem_scheme res" where
  "uvmclear pagetable va s =
     rbind (walk pagetable va False s) (\<lambda>(r, s1).
       case r of
         None \<Rightarrow> Panic ''uvmclear''
       | Some pte \<Rightarrow> Ok (s1\<lparr>mem := store64 pte (load64 (mem s1) pte AND NOT PTE_U) (mem s1)\<rparr>))"

section \<open>Copying between kernel and user space\<close>

text \<open>
  The kernel side of a copy is the list of bytes moved. \<open>copyin\<close> and \<open>copyinstr\<close> return
  the error code together with the bytes that reached the kernel buffer before they returned.
\<close>

definition chunk :: "uint64 \<Rightarrow> nat \<Rightarrow> nat" where
  "chunk va len = min (4096 - unat (va - PGROUNDDOWN va)) len"

lemma page_offset_less: "unat (va - PGROUNDDOWN va) < 4096"
  by (simp add: PGROUNDDOWN_eq unat_mod_distrib)

lemma chunk_pos: "0 < len \<Longrightarrow> 0 < chunk va len"
  using page_offset_less [of va] by (simp add: chunk_def)

lemma chunk_le: "chunk va len \<le> len"
  by (simp add: chunk_def)

function copyout :: "uint64 \<Rightarrow> uint64 \<Rightarrow> byte list \<Rightarrow> 'a kmem_scheme \<Rightarrow> int \<times> 'a kmem_scheme" where
  "copyout pagetable dstva src s =
     (if src = [] then (0, s)
      else let va0 = PGROUNDDOWN dstva; pa0 = walkaddr pagetable va0 s in
        if pa0 = 0 then (-1, s)
        else let n = chunk dstva (length src);
                 s1 = s\<lparr>mem := mstore (pa0 + (dstva - va0)) (take n src) (mem s)\<rparr>
             in copyout pagetable (va0 + PGSIZE) (drop n src) s1)"
  by pat_completeness auto
termination
  by (relation "measure (\<lambda>(pt, va, src, s). length src)") (auto simp: chunk_pos)

declare copyout.simps [simp del]

function copyin :: "uint64 \<Rightarrow> uint64 \<Rightarrow> nat \<Rightarrow> 'a kmem_scheme \<Rightarrow> int \<times> byte list" where
  "copyin pagetable srcva len s =
     (if len = 0 then (0, [])
      else let va0 = PGROUNDDOWN srcva; pa0 = walkaddr pagetable va0 s in
        if pa0 = 0 then (-1, [])
        else let n = chunk srcva len;
                 (r, rest) = copyin pagetable (va0 + PGSIZE) (len - n) s
             in (r, mload n (pa0 + (srcva - va0)) (mem s) @ rest))"
  by pat_completeness auto
termination
  by (relation "measure (\<lambda>(pt, va, len, s). len)") (auto simp: chunk_pos)

declare copyin.simps [simp del]

text \<open>The inner loop of \<^verbatim>\<open>copyinstr\<close>: copy up to and including a NUL.\<close>

fun copystr_page :: "byte list \<Rightarrow> byte list \<times> bool" where
  "copystr_page [] = ([], False)"
| "copystr_page (c # cs) =
     (if c = 0 then ([0], True)
      else let (bs, got_null) = copystr_page cs in (c # bs, got_null))"

function copyinstr :: "uint64 \<Rightarrow> uint64 \<Rightarrow> nat \<Rightarrow> 'a kmem_scheme \<Rightarrow> int \<times> byte list" where
  "copyinstr pagetable srcva mx s =
     (if mx = 0 then (-1, [])
      else let va0 = PGROUNDDOWN srcva; pa0 = walkaddr pagetable va0 s in
        if pa0 = 0 then (-1, [])
        else let n = chunk srcva mx;
                 (bs, got_null) = copystr_page (mload n (pa0 + (srcva - va0)) (mem s))
             in if got_null then (0, bs)
                else let (r, rest) = copyinstr pagetable (va0 + PGSIZE) (mx - n) s
                     in (r, bs @ rest))"
  by pat_completeness auto
termination
  by (relation "measure (\<lambda>(pt, va, mx, s). mx)") (auto simp: chunk_pos)

declare copyinstr.simps [simp del]

section \<open>The kernel page table\<close>

text \<open>\<open>etext\<close> and \<open>trampoline\<close> are linker symbols.\<close>

abbreviation (input) UART0 :: uint64 where "UART0 \<equiv> 0x10000000"
abbreviation (input) VIRTIO0 :: uint64 where "VIRTIO0 \<equiv> 0x10001000"
abbreviation (input) PLIC :: uint64 where "PLIC \<equiv> 0x0c000000"

definition proc_mapstacks :: "uint64 \<Rightarrow> 'a kmem_scheme \<Rightarrow> 'a kmem_scheme res" where
  "proc_mapstacks kpgtbl s =
     rfold (\<lambda>p s. let (pa, s1) = kalloc s in
         if pa = 0 then Panic ''kalloc''
         else kvmmap kpgtbl (KSTACK p) pa PGSIZE (PTE_R OR PTE_W) s1) [0..<64] s"

definition kvmmake :: "uint64 \<Rightarrow> uint64 \<Rightarrow> 'a kmem_scheme \<Rightarrow> (uint64 \<times> 'a kmem_scheme) res" where
  "kvmmake etext trampoline s =
     (let (kpgtbl, s1) = kalloc s; s2 = s1\<lparr>mem := memset kpgtbl 0 4096 (mem s1)\<rparr> in
      rbind (kvmmap kpgtbl UART0 UART0 PGSIZE (PTE_R OR PTE_W) s2) (\<lambda>s3.
      rbind (kvmmap kpgtbl VIRTIO0 VIRTIO0 PGSIZE (PTE_R OR PTE_W) s3) (\<lambda>s4.
      rbind (kvmmap kpgtbl PLIC PLIC 0x400000 (PTE_R OR PTE_W) s4) (\<lambda>s5.
      rbind (kvmmap kpgtbl KERNBASE KERNBASE (etext - KERNBASE) (PTE_R OR PTE_X) s5) (\<lambda>s6.
      rbind (kvmmap kpgtbl etext etext (PHYSTOP - etext) (PTE_R OR PTE_W) s6) (\<lambda>s7.
      rbind (kvmmap kpgtbl TRAMPOLINE trampoline PGSIZE (PTE_R OR PTE_X) s7) (\<lambda>s8.
      rbind (proc_mapstacks kpgtbl s8) (\<lambda>s9. Ok (kpgtbl, s9)))))))))"

end
