(* ===== verification/Page_Table.thy ===== *)
theory Page_Table
  imports Vm
begin

text \<open>
  What the page-table code of \<open>Vm\<close> achieves. A page table is abstracted to the function
  \<open>lookup\<close> from virtual addresses to leaf entries (0 where there is none); \<open>pt_wf\<close> says that
  the page-table pages form a tree of distinct pages that are not free. Walking with
  \<open>alloc\<close> may add pages to the tree and changes no translation; \<open>mappages\<close> and
  \<open>uvmunmap\<close> are point updates of the function.
\<close>

section \<open>Entries\<close>

lemma bit_small:
  assumes "unat f < 2 ^ k" "bit (f :: uint64) n"
  shows "n < k"
proof -
  have "bit (unat f) n" using assms(2) by (simp add: bit_unsigned_iff)
  then have "unat f div 2 ^ n \<noteq> 0" by (auto simp: bit_iff_odd dest: odd_pos)
  then have "2 ^ n \<le> unat f" by (simp add: div_eq_0_iff)
  then have "(2 :: nat) ^ n < 2 ^ k" using assms(1) by (rule le_less_trans)
  then show ?thesis by simp
qed

lemma PTE2PA_PA2PTE:
  assumes "f < 1024"
  shows "PTE2PA (PA2PTE pa OR f) = PGROUNDDOWN pa"
proof -
  have f: "\<not> bit f n" if "10 \<le> n" for n
    using bit_small [of f 10 n] assms that by (auto simp: word_less_nat_alt)
  have m: "(4095 :: uint64) = mask 12" by (simp add: mask_eq_exp_minus_1)
  have "PTE2PA (PA2PTE pa OR f) = push_bit 12 (drop_bit 12 pa)"
    by (rule bit_eqI) (auto simp: PTE2PA_def PA2PTE_def bit_simps f)
  then show ?thesis by (simp add: PGROUNDDOWN_def m and_not_mask_eq)
qed

lemma PTE_FLAGS_PA2PTE:
  assumes "f < 1024"
  shows "PTE_FLAGS (PA2PTE pa OR f) = f"
proof -
  have f: "bit f n \<Longrightarrow> n < 10" for n
    using bit_small [of f 10 n] assms by (auto simp: word_less_nat_alt)
  have m: "(0x3FF :: uint64) = mask 10" by (simp add: mask_eq_exp_minus_1)
  show ?thesis
    by (rule bit_eqI) (auto simp: PTE_FLAGS_def PA2PTE_def m bit_simps dest: f)
qed

lemma and_one_word: "(x :: uint64) AND 1 \<noteq> 0 \<longleftrightarrow> bit x 0"
  by (simp add: and_one_eq bit_0 odd_iff_mod_2_eq_one)

lemma PA2PTE_valid: "(PA2PTE pa OR f OR PTE_V) AND PTE_V \<noteq> 0" "(PA2PTE pa OR PTE_V) AND PTE_V \<noteq> 0"
  by (simp_all add: and_one_word bit_simps)

lemma PX_less: "PX l va < 512"
proof -
  have m: "(0x1FF :: uint64) = mask 9" by (simp add: mask_eq_exp_minus_1)
  have "PX l va = take_bit 9 (drop_bit (12 + 9 * l) va)"
    by (simp add: PX_def m take_bit_eq_mask)
  then have "unat (PX l va) = take_bit 9 (unat (drop_bit (12 + 9 * l) va))"
    by (simp add: unsigned_take_bit_eq)
  then have "unat (PX l va) < 2 ^ 9" by (metis take_bit_nat_less_exp)
  then show ?thesis by (simp add: word_less_nat_alt)
qed

text \<open>Two addresses below \<open>MAXVA\<close> with the same three indices are on the same page.\<close>

lemma PX_eq_page:
  assumes "va < MAXVA" "vb < MAXVA" "PX 2 va = PX 2 vb" "PX 1 va = PX 1 vb" "PX 0 va = PX 0 vb"
  shows "PGROUNDDOWN va = PGROUNDDOWN vb"
proof (rule bit_eqI)
  fix n
  assume "possible_bit TYPE(uint64) n"
  have m: "(4095 :: uint64) = mask 12" "(0x1FF :: uint64) = mask 9"
    by (simp_all add: mask_eq_exp_minus_1)
  have px: "bit va (12 + 9 * l + k) = bit vb (12 + 9 * l + k)"
    if "PX l va = PX l vb" "k < 9" for l k
  proof -
    have "bit (PX l va) k = bit (PX l vb) k" using that(1) by simp
    then show ?thesis using that(2) by (simp add: PX_def m bit_simps)
  qed
  have hi: "\<not> bit va n" "\<not> bit vb n" if "38 \<le> n" for n
    using bit_small [of va 38 n] bit_small [of vb 38 n] assms that by (auto simp: word_less_nat_alt)
  have eq: "bit va n = bit vb n" if "12 \<le> n"
  proof -
    consider "n < 21" | "21 \<le> n" "n < 30" | "30 \<le> n" "n < 39" | "39 \<le> n" by linarith
    then show ?thesis
    proof cases
      case 1
      then show ?thesis using px [of 0 "n - 12"] assms that by simp
    next
      case 2
      then show ?thesis using px [of 1 "n - 21"] assms by simp
    next
      case 3
      then show ?thesis using px [of 2 "n - 30"] assms by simp
    next
      case 4
      then show ?thesis using hi [of n] by simp
    qed
  qed
  show "bit (PGROUNDDOWN va) n = bit (PGROUNDDOWN vb) n"
    using eq by (auto simp: PGROUNDDOWN_def m bit_simps)
qed

lemma PX_PGROUNDDOWN: "PX l (PGROUNDDOWN va) = PX l va"
proof -
  have m: "(4095 :: uint64) = mask 12" by (simp add: mask_eq_exp_minus_1)
  show ?thesis
    by (rule bit_eqI) (auto simp: PX_def PGROUNDDOWN_def m bit_simps dest: bit_imp_le_length)
qed

section \<open>Slots of a page-table page\<close>

lemma unat_slot: "i < 512 \<Longrightarrow> unat (8 * i :: uint64) = 8 * unat i"
  by (simp add: unat_word_ariths word_less_nat_alt)

lemma slot_of_nat: "i < 512 \<Longrightarrow> (8 * i :: uint64) = of_nat (8 * unat i)"
  by simp

lemma slot_in_page:
  assumes "i < 512" "k < 8"
  shows "in_page p (p + 8 * i + of_nat k)"
proof -
  have "p + 8 * i + of_nat k = p + of_nat (8 * unat i + k)"
    by simp
  moreover have "8 * unat i + k < 4096"
    using assms by (simp add: word_less_nat_alt)
  ultimately show ?thesis by (metis in_page_offset)
qed

lemma load64_slot_cong:
  assumes "\<And>x. in_page p x \<Longrightarrow> m x = m' x" "i < 512"
  shows "load64 m (p + 8 * i) = load64 m' (p + 8 * i)"
  by (rule load64_cong, rule assms(1)) (use assms(2) in \<open>rule slot_in_page\<close>)

lemma store64_off_page:
  assumes "\<not> in_page q x" "i < 512"
  shows "store64 (q + 8 * i) v m x = m x"
proof -
  have "8 * unat i + 8 \<le> 4096" using assms(2) by (simp add: word_less_nat_alt)
  then have "mstore (q + of_nat (8 * unat i)) (le_bytes 8 (unat v)) m x = m x"
    using assms(1) by (intro mstore_off_page) auto
  then show ?thesis by (simp add: store64_def)
qed

lemma load64_store64_slot:
  assumes "page_aligned p" "page_aligned q" "i < 512" "j < 512"
  shows "load64 (store64 (p + 8 * i) v m) (q + 8 * j) =
    (if p = q \<and> i = j then v else load64 m (q + 8 * j))"
proof (cases "p = q")
  case False
  have "load64 (store64 (p + 8 * i) v m) (q + 8 * j) = load64 m (q + 8 * j)"
    by (rule load64_slot_cong)
      (use assms False in \<open>auto intro!: store64_off_page dest: in_page_unique\<close>)
  with False show ?thesis by simp
next
  case True
  show ?thesis
  proof (cases "i = j")
    case True
    with \<open>p = q\<close> show ?thesis by simp
  next
    case False
    have u: "unat i < 512" "unat j < 512" using assms by (simp_all add: word_less_nat_alt)
    have "apart (q + 8 * j) 8 (p + 8 * i) 8"
      unfolding apart_def
    proof (intro allI impI)
      fix k :: nat assume k: "k < 8"
      have uk: "unat (8 * j + of_nat k :: uint64) = 8 * unat j + k"
        using u k by (simp add: unat_word_ariths unat_of_nat)
      have "q + 8 * j + of_nat k - (p + 8 * i) = (8 * j + of_nat k) - 8 * i"
        using True by simp
      then show "8 \<le> unat (q + 8 * j + of_nat k - (p + 8 * i))"
        using False u k assms unfolding word_unat_eq_iff [of i]
        by (simp only: unat_sub_if' uk unat_slot) auto
    qed
    then show ?thesis
      using True False by (simp add: load64_store64_apart)
  qed
qed

section \<open>The tree of page-table pages\<close>

text \<open>
  A page-table page is reached from the root by a path of at most two indices; \<open>node\<close> follows
  the valid entries along a path and \<open>lookup\<close> reads the leaf entry of an address, 0 when there
  is no page-table page for it.
\<close>

definition child :: "memory \<Rightarrow> uint64 \<Rightarrow> uint64 \<Rightarrow> uint64 option" where
  "child m p i = (let e = load64 m (p + 8 * i) in if e AND PTE_V \<noteq> 0 then Some (PTE2PA e) else None)"

fun node :: "memory \<Rightarrow> uint64 \<Rightarrow> uint64 list \<Rightarrow> uint64 option" where
  "node m p [] = Some p"
| "node m p (i # is) = (case child m p i of None \<Rightarrow> None | Some q \<Rightarrow> node m q is)"

definition lookup :: "memory \<Rightarrow> uint64 \<Rightarrow> uint64 \<Rightarrow> uint64" where
  "lookup m pt va = (case node m pt [PX 2 va, PX 1 va] of
     None \<Rightarrow> 0 | Some q \<Rightarrow> load64 m (q + 8 * PX 0 va))"

definition tpath :: "uint64 list \<Rightarrow> bool" where
  "tpath path \<longleftrightarrow> length path \<le> 2 \<and> (\<forall>i\<in>set path. i < 512)"

definition ptnodes :: "memory \<Rightarrow> uint64 \<Rightarrow> uint64 set" where
  "ptnodes m pt = {q. \<exists>path. tpath path \<and> node m pt path = Some q}"

text \<open>
  A page table is well formed when its pages are valid and not free, and no page is used at two
  places of the tree.
\<close>

definition pt_wf :: "'a kmem_scheme \<Rightarrow> uint64 list \<Rightarrow> uint64 \<Rightarrow> bool" where
  "pt_wf s ps pt \<longleftrightarrow>
     (\<forall>q\<in>ptnodes (mem s) pt. valid_page s q \<and> q \<notin> set ps) \<and>
     (\<forall>path path' q. tpath path \<and> tpath path' \<and> node (mem s) pt path = Some q \<and>
        node (mem s) pt path' = Some q \<longrightarrow> path = path')"

lemma node_append:
  "node m p (xs @ ys) = (case node m p xs of None \<Rightarrow> None | Some q \<Rightarrow> node m q ys)"
  by (induction xs arbitrary: p) (auto split: option.splits)

lemma node_snoc [simp]:
  "node m p (xs @ [i]) = (case node m p xs of None \<Rightarrow> None | Some q \<Rightarrow> child m q i)"
  by (simp add: node_append option.case_eq_if)

lemma tpath_snoc [simp]: "tpath (xs @ [i]) \<longleftrightarrow> length xs \<le> 1 \<and> tpath xs \<and> i < 512"
  by (auto simp: tpath_def)

lemma tpath_Nil [simp]: "tpath []"
  by (simp add: tpath_def)

lemma tpath_PX: "tpath [PX 2 va, PX 1 va]" "tpath [PX 2 va]"
  by (simp_all add: tpath_def PX_less)

lemma tpath_append: "tpath (xs @ ys) \<Longrightarrow> tpath xs"
  by (auto simp: tpath_def)

lemma ptnodesI: "tpath path \<Longrightarrow> node m pt path = Some q \<Longrightarrow> q \<in> ptnodes m pt"
  by (auto simp: ptnodes_def)

lemma pt_wf_valid:
  assumes "pt_wf s ps pt" "tpath path" "node (mem s) pt path = Some q"
  shows "valid_page s q" "q \<notin> set ps" "page_aligned q"
  using assms by (auto simp: pt_wf_def valid_page_def ptnodes_def)

lemma pt_wf_unique:
  "pt_wf s ps pt \<Longrightarrow> tpath path \<Longrightarrow> tpath path' \<Longrightarrow> node (mem s) pt path = Some q
    \<Longrightarrow> node (mem s) pt path' = Some q \<Longrightarrow> path = path'"
  by (auto simp: pt_wf_def)

lemma child_eqI: "load64 m (p + 8 * i) = load64 m' (p + 8 * i) \<Longrightarrow> child m p i = child m' p i"
  by (simp add: child_def)

text \<open>Changing one slot of one page of the tree leaves the paths alone that do not go through it.\<close>

lemma node_update:
  assumes wf: "pt_wf s ps pt" and P: "tpath P" "node (mem s) pt P = Some q"
    and same: "\<And>r j. r \<in> ptnodes (mem s) pt \<Longrightarrow> j < 512 \<Longrightarrow> (r, j) \<noteq> (q, i)
      \<Longrightarrow> load64 m' (r + 8 * j) = load64 (mem s) (r + 8 * j)"
    and "tpath path" "take (Suc (length P)) path \<noteq> P @ [i]"
  shows "node m' pt path = node (mem s) pt path"
  using assms(5-)
proof (induction path rule: rev_induct)
  case (snoc j path)
  then have t: "tpath path" "j < 512" by simp_all
  have "take (Suc (length P)) path \<noteq> P @ [i]"
  proof
    assume a: "take (Suc (length P)) path = P @ [i]"
    then have "length (take (Suc (length P)) path) = Suc (length P)" by simp
    then have "Suc (length P) \<le> length path" by simp
    with a snoc.prems(2) show False by simp
  qed
  with snoc.IH t have IH: "node m' pt path = node (mem s) pt path" by blast
  show ?case
  proof (cases "node (mem s) pt path")
    case (Some r)
    have "(r, j) \<noteq> (q, i)"
    proof
      assume "(r, j) = (q, i)"
      then have "path = P" using pt_wf_unique [OF wf] t P Some by blast
      with \<open>(r, j) = (q, i)\<close> snoc.prems(2) show False by simp
    qed
    then have "child m' r j = child (mem s) r j"
      using same t ptnodesI [OF t(1) Some] by (intro child_eqI) blast
    with IH Some show ?thesis by simp
  qed (simp add: IH)
qed simp

lemma ptnodes_cong:
  "(\<And>path. tpath path \<Longrightarrow> node m' pt path = node m pt path) \<Longrightarrow> ptnodes m' pt = ptnodes m pt"
  by (auto simp: ptnodes_def)

lemma pt_wf_cong:
  assumes "pt_wf s ps pt" "\<And>path. tpath path \<Longrightarrow> node (mem s') pt path = node (mem s) pt path"
    and "kend s' = kend s" "set ps' \<subseteq> set ps"
  shows "pt_wf s' ps' pt"
proof -
  have "ptnodes (mem s') pt = ptnodes (mem s) pt" by (rule ptnodes_cong) (rule assms(2))
  with assms show ?thesis by (auto simp: pt_wf_def valid_page_def)
qed

lemma page_of_eq_PX:
  assumes "va < MAXVA" "vb < MAXVA"
  shows "PGROUNDDOWN va = PGROUNDDOWN vb \<longleftrightarrow>
    PX 2 va = PX 2 vb \<and> PX 1 va = PX 1 vb \<and> PX 0 va = PX 0 vb"
  using assms PX_eq_page [of va vb] PX_PGROUNDDOWN by metis

text \<open>Storing a leaf entry is a point update of \<open>lookup\<close>.\<close>

lemma leaf_update:
  assumes wf: "pt_wf s ps pt" and va: "va < MAXVA"
    and q: "node (mem s) pt [PX 2 va, PX 1 va] = Some q"
    and s': "mem s' = store64 (q + 8 * PX 0 va) v (mem s)" "kend s' = kend s"
  shows "pt_wf s' ps pt" "ptnodes (mem s') pt = ptnodes (mem s) pt"
    and "vb < MAXVA \<Longrightarrow> lookup (mem s') pt vb =
      (if PGROUNDDOWN vb = PGROUNDDOWN va then v else lookup (mem s) pt vb)"
proof -
  have al: "page_aligned r" if "r \<in> ptnodes (mem s) pt" for r
    using wf that by (auto simp: pt_wf_def valid_page_def)
  have qn: "q \<in> ptnodes (mem s) pt" using tpath_PX q by (blast intro: ptnodesI)
  have slot: "load64 (mem s') (r + 8 * j) =
      (if q = r \<and> PX 0 va = j then v else load64 (mem s) (r + 8 * j))"
    if "r \<in> ptnodes (mem s) pt" "j < 512" for r j
    unfolding s' using that al qn by (simp add: load64_store64_slot PX_less)
  have nd: "node (mem s') pt path = node (mem s) pt path" if "tpath path" for path
  proof (rule node_update [OF wf tpath_PX(1) q _ that])
    show "take (Suc (length [PX 2 va, PX 1 va])) path \<noteq> [PX 2 va, PX 1 va] @ [PX 0 va]"
    proof
      assume "take (Suc (length [PX 2 va, PX 1 va])) path = [PX 2 va, PX 1 va] @ [PX 0 va]"
      from arg_cong [OF this, of length] that show False by (simp add: tpath_def)
    qed
  qed (use slot in auto)
  show "pt_wf s' ps pt" using wf nd s'(2) by (rule pt_wf_cong) simp_all
  show "ptnodes (mem s') pt = ptnodes (mem s) pt" using nd by (rule ptnodes_cong)
  assume vb: "vb < MAXVA"
  show "lookup (mem s') pt vb =
      (if PGROUNDDOWN vb = PGROUNDDOWN va then v else lookup (mem s) pt vb)"
  proof (cases "node (mem s) pt [PX 2 vb, PX 1 vb]")
    case None
    with q page_of_eq_PX [OF vb va] nd [OF tpath_PX(1)] show ?thesis
      by (auto simp: lookup_def simp del: node.simps)
  next
    case (Some r)
    then have rn: "r \<in> ptnodes (mem s) pt" using tpath_PX by (blast intro: ptnodesI)
    have "q = r \<longleftrightarrow> PX 2 vb = PX 2 va \<and> PX 1 vb = PX 1 va"
    proof
      assume "q = r"
      then have "[PX 2 vb, PX 1 vb] = [PX 2 va, PX 1 va]"
        using pt_wf_unique [OF wf tpath_PX(1) tpath_PX(1) Some] q by blast
      then show "PX 2 vb = PX 2 va \<and> PX 1 vb = PX 1 va" by simp
    next
      assume "PX 2 vb = PX 2 va \<and> PX 1 vb = PX 1 va"
      with Some q show "q = r" by (metis option.inject)
    qed
    with Some slot [OF rn PX_less] page_of_eq_PX [OF vb va] nd [OF tpath_PX(1)] show ?thesis
      by (auto simp: lookup_def simp del: node.simps)
  qed
qed

section \<open>Growing the tree\<close>

text \<open>
  What \<^verbatim>\<open>walk\<close> with \<^verbatim>\<open>alloc\<close> may do: take pages from the free list and hang
  them into the tree, so that no translation changes, no page is lost, and memory outside the
  page-table pages is untouched.
\<close>

definition pt_keep :: "uint64 \<Rightarrow> 'a kmem_scheme \<Rightarrow> uint64 list \<Rightarrow> 'a kmem_scheme \<Rightarrow> uint64 list \<Rightarrow> bool" where
  "pt_keep pt s ps s' ps' \<longleftrightarrow>
     kmem_inv s' ps' \<and> pt_wf s' ps' pt \<and> set ps' \<subseteq> set ps \<and> kend s' = kend s \<and>
     ptnodes (mem s) pt \<subseteq> ptnodes (mem s') pt \<and>
     ptnodes (mem s') pt \<union> set ps' = ptnodes (mem s) pt \<union> set ps \<and>
     (\<forall>x. PGROUNDDOWN x \<notin> ptnodes (mem s') pt \<longrightarrow> mem s' x = mem s x)"

definition pt_ext :: "uint64 \<Rightarrow> 'a kmem_scheme \<Rightarrow> uint64 list \<Rightarrow> 'a kmem_scheme \<Rightarrow> uint64 list \<Rightarrow> bool" where
  "pt_ext pt s ps s' ps' \<longleftrightarrow>
     pt_keep pt s ps s' ps' \<and> (\<forall>va. lookup (mem s') pt va = lookup (mem s) pt va)"

lemma pt_keep_refl: "kmem_inv s ps \<Longrightarrow> pt_wf s ps pt \<Longrightarrow> pt_keep pt s ps s ps"
  by (simp add: pt_keep_def)

lemma pt_keep_trans:
  "pt_keep pt s1 ps1 s2 ps2 \<Longrightarrow> pt_keep pt s2 ps2 s3 ps3 \<Longrightarrow> pt_keep pt s1 ps1 s3 ps3"
  unfolding pt_keep_def by (elim conjE, intro conjI) (simp | blast)+

lemma pt_ext_refl: "kmem_inv s ps \<Longrightarrow> pt_wf s ps pt \<Longrightarrow> pt_ext pt s ps s ps"
  by (simp add: pt_ext_def pt_keep_refl)

lemma pt_ext_trans:
  "pt_ext pt s1 ps1 s2 ps2 \<Longrightarrow> pt_ext pt s2 ps2 s3 ps3 \<Longrightarrow> pt_ext pt s1 ps1 s3 ps3"
  unfolding pt_ext_def using pt_keep_trans [of pt s1 ps1 s2 ps2 s3 ps3] by simp

lemma load64_memset_zero:
  "page_aligned p \<Longrightarrow> j < 512 \<Longrightarrow> load64 (memset p 0 4096 m) (p + 8 * j) = 0"
proof -
  assume j: "j < 512"
  have "memset p 0 4096 m (p + 8 * j + of_nat k) = (\<lambda>_. 0) (p + 8 * j + of_nat k)" if "k < 8" for k
    using slot_in_page [OF j that, of p] by (simp add: memset_eq in_page_def mstore_def)
  then have "load64 (memset p 0 4096 m) (p + 8 * j) = load64 (\<lambda>_. 0) (p + 8 * j)"
    by (rule load64_cong)
  then show ?thesis by simp
qed

lemma child_invalid_None [simp]: "load64 m (p + 8 * j) = 0 \<Longrightarrow> child m p j = None"
  by (simp add: child_def)

lemma node_None_append: "node m p xs = None \<Longrightarrow> node m p (xs @ ys) = None"
  by (simp add: node_append)

lemma node_update_through:
  assumes "node m pt (P @ [i]) = Some p" "\<And>j. j < 512 \<Longrightarrow> child m p j = None" "tpath path"
    and "take (Suc (length P)) path = P @ [i]"
  shows "node m pt path = (if path = P @ [i] then Some p else None)"
proof -
  define ys where "ys = drop (Suc (length P)) path"
  have path: "path = (P @ [i]) @ ys"
    unfolding ys_def assms(4) [symmetric] by simp
  then have "\<forall>j\<in>set ys. j < 512" using assms(3) by (auto simp: tpath_def)
  moreover have "node m pt path = node m p ys"
    unfolding path using assms(1) by (simp only: node_append [of m pt "P @ [i]"] option.case)
  ultimately show ?thesis
    using assms(2) path by (cases ys) simp_all
qed

text \<open>Hanging a fresh zeroed page into an empty slot: the step \<^verbatim>\<open>walk\<close> makes when a
  page-table page is missing.\<close>

definition add_child :: "uint64 \<Rightarrow> uint64 \<Rightarrow> uint64 \<Rightarrow> 'a kmem_scheme \<Rightarrow> 'a kmem_scheme" where
  "add_child q i p s =
     s\<lparr>mem := store64 (q + 8 * i) (PA2PTE p OR PTE_V) (memset p 0 4096 (mem s))\<rparr>"

lemma mem_add_child: "mem (add_child q i p s) =
    store64 (q + 8 * i) (PA2PTE p OR PTE_V) (memset p 0 4096 (mem s))"
  by (simp add: add_child_def)

lemma add_child_slots:
  assumes "page_aligned p" "page_aligned q" "page_aligned r" "i < 512" "j < 512" "p \<noteq> q"
    and frame: "\<And>x. \<not> in_page p x \<Longrightarrow> mem s x = m x"
  shows "load64 (mem (add_child q i p s)) (r + 8 * j) =
    (if r = p then 0 else if (r, j) = (q, i) then PA2PTE p OR PTE_V else load64 m (r + 8 * j))"
proof -
  have "load64 (memset p 0 4096 (mem s)) (r + 8 * j) = load64 m (r + 8 * j)" if "r \<noteq> p"
  proof (rule load64_slot_cong [OF _ assms(5)])
    fix x assume "in_page r x"
    with that assms have "\<not> in_page p x" by (blast dest: in_page_unique)
    with frame show "memset p 0 4096 (mem s) x = m x" by (simp add: mem_simps)
  qed
  then show ?thesis
    using assms by (simp add: mem_add_child load64_store64_slot load64_memset_zero)
qed

lemma add_child_node:
  assumes wf: "pt_wf s ps pt" and P: "tpath (P @ [i])" "node (mem s) pt P = Some q"
    and none: "child (mem s) q i = None" and p: "page_aligned p" "p \<in> set ps"
    and frame: "\<forall>x. \<not> in_page p x \<longrightarrow> mem s1 x = mem s x"
  defines "m' \<equiv> mem (add_child q i p s1)"
  shows "node m' pt (P @ [i]) = Some p"
    and "tpath path \<Longrightarrow> path \<noteq> P @ [i] \<Longrightarrow> node m' pt path = node (mem s) pt path"
    and "lookup m' pt va = lookup (mem s) pt va"
proof -
  have P': "tpath P" "i < 512" using P(1) by simp_all
  have nd: "page_aligned r \<and> p \<noteq> r" if "r \<in> ptnodes (mem s) pt" for r
    using wf p that by (auto simp: pt_wf_def valid_page_def)
  have qn: "q \<in> ptnodes (mem s) pt" using P' P by (blast intro: ptnodesI)
  have slot: "load64 m' (r + 8 * j) =
      (if r = p then 0 else if (r, j) = (q, i) then PA2PTE p OR PTE_V else load64 (mem s) (r + 8 * j))"
    if "r = p \<or> r \<in> ptnodes (mem s) pt" "j < 512" for r j
    unfolding m'_def using that nd [of r] nd [OF qn] p P'(2) frame
    by (intro add_child_slots) auto
  have other: "node m' pt path = node (mem s) pt path"
    if "tpath path" "take (Suc (length P)) path \<noteq> P @ [i]" for path
    using that slot nd by (intro node_update [OF wf P'(1) P(2)]) auto
  have "take (Suc (length P)) P \<noteq> P @ [i]" by simp
  then have "node m' pt P = Some q" using other [OF P'(1)] P(2) by simp
  moreover have "child m' q i = Some p"
    using slot [of q i] qn nd [OF qn] P'(2) p(1)
    by (auto simp: child_def PA2PTE_valid PTE2PA_PA2PTE)
  ultimately show new: "node m' pt (P @ [i]) = Some p" by simp
  have through: "node m' pt path = (if path = P @ [i] then Some p else None)"
    if "tpath path" "take (Suc (length P)) path = P @ [i]" for path
    by (rule node_update_through [OF new _ that]) (simp add: slot)
  have through_old: "node (mem s) pt path = None"
    if "take (Suc (length P)) path = P @ [i]" for path
  proof -
    have "node (mem s) pt (P @ [i]) = None" using P(2) none by simp
    then have "node (mem s) pt ((P @ [i]) @ drop (Suc (length P)) path) = None"
      by (rule node_None_append)
    then show ?thesis unfolding that [symmetric] by simp
  qed
  show same: "node m' pt path = node (mem s) pt path" if "tpath path" "path \<noteq> P @ [i]" for path
    using other [OF that(1)] through [OF that(1)] through_old [of path] that(2) by metis
  show "lookup m' pt va = lookup (mem s) pt va"
  proof (cases "[PX 2 va, PX 1 va] = P @ [i]")
    case True
    then have "lookup (mem s) pt va = 0" unfolding lookup_def True using P(2) none by simp
    moreover have "lookup m' pt va = 0"
      unfolding lookup_def True using new slot [of p "PX 0 va"] PX_less by simp
    ultimately show ?thesis by simp
  next
    case False
    have "load64 m' (r + 8 * PX 0 va) = load64 (mem s) (r + 8 * PX 0 va)"
      if "node (mem s) pt [PX 2 va, PX 1 va] = Some r" for r
    proof -
      have "r \<in> ptnodes (mem s) pt" using that tpath_PX by (blast intro: ptnodesI)
      moreover have "r \<noteq> q"
      proof
        assume "r = q"
        then have "P = [PX 2 va, PX 1 va]"
          using pt_wf_unique [OF wf P'(1) tpath_PX(1) P(2)] that by simp
        with P(1) show False by (simp add: tpath_def)
      qed
      ultimately show ?thesis using slot [OF _ PX_less] nd by auto
    qed
    then show ?thesis
      using same [OF tpath_PX(1) False]
      by (auto simp: lookup_def simp del: node.simps split: option.splits)
  qed
qed

lemma add_child_ext:
  assumes inv: "kmem_inv s ps" and wf: "pt_wf s ps pt"
    and P: "tpath (P @ [i])" "node (mem s) pt P = Some q" and none: "child (mem s) q i = None"
    and al: "kalloc s = (p, s1)" "p \<noteq> 0"
  shows "\<exists>qs. ps = p # qs \<and> pt_ext pt s ps (add_child q i p s1) qs"
    and "node (mem (add_child q i p s1)) pt (P @ [i]) = Some p"
proof -
  obtain qs where ps: "ps = p # qs" and v: "valid_page s p" "page_aligned p" and inv1: "kmem_inv s1 qs"
    using ka.alloc_cases [OF inv al(1)] al(2) by metis
  have fr: "\<forall>x. \<not> in_page p x \<longrightarrow> mem s1 x = mem s x" using ka.alloc_frame [OF al(1)] by blast
  have k: "kend s1 = kend s" using kalloc_kend [of s] al(1) by simp
  have "p \<in> set ps" using ps by simp
  note nodes = add_child_node [OF wf P none v(2) this fr]
  let ?s' = "add_child q i p s1"
  have q: "valid_page s q" "q \<notin> set ps" "page_aligned q"
    using pt_wf_valid [OF wf _ P(2)] P(1) by simp_all
  have mem': "mem ?s' x = mem s1 x" if "\<not> in_page p x" "\<not> in_page q x" for x
    using that P(1) by (simp add: mem_add_child store64_off_page mem_simps)
  have d: "p \<notin> set qs" using ka.inv_distinct [OF inv] ps by simp
  have "kmem_inv ?s' qs"
  proof (rule kmem_inv_frame [OF inv1])
    fix x assume "PGROUNDDOWN x \<in> set qs"
    then have "\<not> in_page p x" "\<not> in_page q x" using q v d ps by (auto simp: in_page_iff)
    then show "mem ?s' x = mem s1 x" by (rule mem')
  qed (simp_all add: add_child_def)
  moreover have ptn: "ptnodes (mem ?s') pt = insert p (ptnodes (mem s) pt)"
  proof -
    have "node (mem s) pt (P @ [i]) = None" using P(2) none by simp
    then have old: "path \<noteq> P @ [i]" if "node (mem s) pt path = Some r" for path r
      using that by auto
    show ?thesis
    proof (intro equalityI subsetI)
      fix r assume "r \<in> ptnodes (mem ?s') pt"
      then obtain path where path: "tpath path" "node (mem ?s') pt path = Some r"
        by (auto simp: ptnodes_def)
      show "r \<in> insert p (ptnodes (mem s) pt)"
      proof (cases "path = P @ [i]")
        case True
        with path(2) nodes(1) show ?thesis by (simp del: node_snoc)
      next
        case False
        with nodes(2) path show ?thesis by (auto intro: ptnodesI)
      qed
    next
      fix r assume "r \<in> insert p (ptnodes (mem s) pt)"
      then consider "r = p" | path where "tpath path" "node (mem s) pt path = Some r"
        by (auto simp: ptnodes_def)
      then show "r \<in> ptnodes (mem ?s') pt"
      proof cases
        case 1
        with nodes(1) P(1) show ?thesis by (blast intro: ptnodesI)
      next
        case 2
        with nodes(2) old show ?thesis by (metis ptnodesI)
      qed
    qed
  qed
  have "pt_wf ?s' qs pt"
    unfolding pt_wf_def
  proof (intro conjI ballI allI impI)
    fix r assume "r \<in> ptnodes (mem ?s') pt"
    then show "valid_page ?s' r" "r \<notin> set qs"
      using ptn wf v d ps k by (auto simp: pt_wf_def valid_page_def add_child_def)
  next
    fix path path' r
    assume a: "tpath path \<and> tpath path' \<and> node (mem ?s') pt path = Some r \<and>
      node (mem ?s') pt path' = Some r"
    have "path = P @ [i] \<longleftrightarrow> r = p" if "tpath path" "node (mem ?s') pt path = Some r" for path
      using nodes(1) nodes(2) [OF that(1)] that pt_wf_valid(2) [OF wf that(1)] ps
      by (metis list.set_intros(1) option.inject)
    with a nodes(2) pt_wf_unique [OF wf, of path path' r] show "path = path'" by metis
  qed
  moreover have "mem ?s' x = mem s x" if "PGROUNDDOWN x \<notin> ptnodes (mem ?s') pt" for x
  proof -
    have "q \<in> ptnodes (mem s) pt" using P by (auto intro: ptnodesI)
    then have "\<not> in_page p x" "\<not> in_page q x"
      using that ptn v(2) q(3) by (auto simp: in_page_iff)
    with mem' fr show ?thesis by simp
  qed
  ultimately have "pt_ext pt s ps ?s' qs"
    unfolding pt_ext_def pt_keep_def using ptn nodes(3) ps k by (auto simp: add_child_def)
  with ps show "\<exists>qs. ps = p # qs \<and> pt_ext pt s ps ?s' qs" by blast
  show "node (mem ?s') pt (P @ [i]) = Some p" by (rule nodes(1))
qed

section \<open>Walking\<close>

fun idxs :: "nat \<Rightarrow> uint64 \<Rightarrow> uint64 list" where
  "idxs 0 va = []"
| "idxs (Suc l) va = PX (Suc l) va # idxs l va"

lemma idxs_2: "idxs 2 va = [PX 2 va, PX 1 va]"
  by (simp add: numeral_2_eq_2)

lemma walk_from_noalloc:
  "walk_from l pt va False s = (map_option (\<lambda>q. q + 8 * PX 0 va) (node (mem s) pt (idxs l va)), s)"
  by (induction l arbitrary: pt) (simp_all add: Let_def child_def)

lemma tpath_prefix: "P @ i # xs = [PX 2 va, PX 1 va] \<Longrightarrow> tpath (P @ [i])"
  using tpath_PX(1) [of va] tpath_append [of "P @ [i]" xs] by simp

lemma walk_from_alloc:
  assumes "kmem_inv s ps" "pt_wf s ps pt" "node (mem s) pt P = Some q"
    and "P @ idxs l va = [PX 2 va, PX 1 va]" "walk_from l q va True s = (r, s')"
  shows "\<exists>ps'. pt_ext pt s ps s' ps' \<and>
    (case r of None \<Rightarrow> ps' = [] \<and> length ps < l
     | Some pte \<Rightarrow> length ps \<le> length ps' + l \<and>
         (\<exists>q0. node (mem s') pt [PX 2 va, PX 1 va] = Some q0 \<and> pte = q0 + 8 * PX 0 va))"
  using assms
proof (induction l arbitrary: P q s ps)
  case 0
  have "pt_ext pt s ps s ps" using 0 by (simp add: pt_ext_refl)
  moreover have "r = Some (q + 8 * PX 0 va)" "s' = s" "P = [PX 2 va, PX 1 va]"
    using 0 by simp_all
  ultimately show ?case using 0(3) by (intro exI [of _ ps]) (simp del: node.simps)
next
  case (Suc l)
  let ?i = "PX (Suc l) va"
  have tp: "tpath (P @ [?i])" using Suc.prems(4) tpath_prefix by simp
  have path: "(P @ [?i]) @ idxs l va = [PX 2 va, PX 1 va]" using Suc.prems(4) by simp
  show ?case
  proof (cases "child (mem s) q ?i")
    case (Some q')
    then have "walk_from l q' va True s = (r, s')"
      using Suc.prems(5) by (auto simp: child_def Let_def split: if_splits)
    moreover have "node (mem s) pt (P @ [?i]) = Some q'" using Some Suc.prems(3) by simp
    ultimately have "\<exists>ps'. pt_ext pt s ps s' ps' \<and>
        (case r of None \<Rightarrow> ps' = [] \<and> length ps < l
         | Some pte \<Rightarrow> length ps \<le> length ps' + l \<and>
             (\<exists>q0. node (mem s') pt [PX 2 va, PX 1 va] = Some q0 \<and> pte = q0 + 8 * PX 0 va))"
      using Suc.IH Suc.prems(1,2) path by blast
    then show ?thesis by (elim exE, intro exI) (auto simp del: node.simps split: option.splits)
  next
    case None
    obtain p s1 where al: "kalloc s = (p, s1)" by fastforce
    have w: "(if p = 0 then (None, s1) else walk_from l p va True (add_child q ?i p s1)) = (r, s')"
      using Suc.prems(5) None al by (auto simp: child_def Let_def add_child_def split: if_splits)
    show ?thesis
    proof (cases "p = 0")
      case True
      with ka.alloc_cases [OF Suc.prems(1) al] have "ps = []" "s1 = s" by blast+
      with w True Suc.prems(1,2) show ?thesis by (simp add: pt_ext_refl)
    next
      case False
      obtain qs where ps: "ps = p # qs" and e: "pt_ext pt s ps (add_child q ?i p s1) qs"
        using add_child_ext(1) [OF Suc.prems(1,2) tp Suc.prems(3) None al False] by blast
      note nd = add_child_ext(2) [OF Suc.prems(1,2) tp Suc.prems(3) None al False]
      from e have "kmem_inv (add_child q ?i p s1) qs" "pt_wf (add_child q ?i p s1) qs pt"
        by (simp_all add: pt_ext_def pt_keep_def)
      moreover have "walk_from l p va True (add_child q ?i p s1) = (r, s')" using w False by simp
      ultimately obtain ps' where e': "pt_ext pt (add_child q ?i p s1) qs s' ps'"
        and r: "case r of None \<Rightarrow> ps' = [] \<and> length qs < l
         | Some pte \<Rightarrow> length qs \<le> length ps' + l \<and>
             (\<exists>q0. node (mem s') pt [PX 2 va, PX 1 va] = Some q0 \<and> pte = q0 + 8 * PX 0 va)"
        using Suc.IH nd path by blast
      show ?thesis
        using pt_ext_trans [OF e e'] r ps
        by (intro exI [of _ ps']) (auto simp del: node.simps split: option.splits)
    qed
  qed
qed

lemma node_idxs_2: "node m pt (idxs 2 va) = node m pt [PX 2 va, PX 1 va]"
  by (simp only: idxs_2)

text \<open>Storing an entry through the pointer that \<^verbatim>\<open>walk\<close> returned.\<close>

lemma store_leaf:
  fixes v :: uint64
  assumes inv: "kmem_inv s ps" "pt_wf s ps pt" and va: "va < MAXVA"
    and q: "node (mem s) pt [PX 2 va, PX 1 va] = Some q"
  defines "s' \<equiv> s\<lparr>mem := store64 (q + 8 * PX 0 va) v (mem s)\<rparr>"
  shows "pt_keep pt s ps s' ps"
    and "vb < MAXVA \<Longrightarrow> lookup (mem s') pt vb =
      (if PGROUNDDOWN vb = PGROUNDDOWN va then v else lookup (mem s) pt vb)"
proof -
  have m: "mem s' = store64 (q + 8 * PX 0 va) v (mem s)" "kend s' = kend s"
    by (simp_all add: s'_def)
  note u = leaf_update [OF inv(2) va q m]
  show "lookup (mem s') pt vb =
      (if PGROUNDDOWN vb = PGROUNDDOWN va then v else lookup (mem s) pt vb)" if "vb < MAXVA"
    using u(3) that .
  have al: "page_aligned q" and nq: "q \<notin> set ps" and qn: "q \<in> ptnodes (mem s) pt"
    using pt_wf_valid [OF inv(2) tpath_PX(1) q] tpath_PX(1) q by (blast intro: ptnodesI)+
  have fr: "mem s' x = mem s x" if "PGROUNDDOWN x \<noteq> q" for x
    unfolding m using that al by (intro store64_off_page PX_less) (simp add: in_page_iff)
  have "kmem_inv s' ps"
  proof (rule kmem_inv_frame [OF inv(1)])
    fix x assume "PGROUNDDOWN x \<in> set ps"
    with nq have "PGROUNDDOWN x \<noteq> q" by blast
    then show "mem s' x = mem s x" by (rule fr)
  qed (simp_all add: s'_def)
  moreover have "\<forall>x. PGROUNDDOWN x \<notin> ptnodes (mem s) pt \<longrightarrow> mem s' x = mem s x"
    using fr qn by metis
  ultimately show "pt_keep pt s ps s' ps"
    unfolding pt_keep_def using u(1,2) m(2) by simp
qed

lemma walk_map:
  fixes v :: uint64
  assumes inv: "kmem_inv s ps" "pt_wf s ps pt" and va: "va < MAXVA"
    and w: "walk_from 2 pt va True s = (Some pte, s1)"
  defines "s2 \<equiv> s1\<lparr>mem := store64 pte v (mem s1)\<rparr>"
  shows "load64 (mem s1) pte = lookup (mem s) pt va"
    and "\<exists>ps'. pt_keep pt s ps s2 ps' \<and> length ps \<le> length ps' + 2"
    and "vb < MAXVA \<Longrightarrow> lookup (mem s2) pt vb =
      (if PGROUNDDOWN vb = PGROUNDDOWN va then v else lookup (mem s) pt vb)"
proof -
  obtain ps1 q where e: "pt_ext pt s ps s1 ps1" and q: "node (mem s1) pt [PX 2 va, PX 1 va] = Some q"
    and pte: "pte = q + 8 * PX 0 va" and len: "length ps \<le> length ps1 + 2"
    using walk_from_alloc [OF inv node.simps(1) _ w] by (auto simp: idxs_2 simp del: node.simps)
  have l: "lookup (mem s1) pt vb = lookup (mem s) pt vb" for vb using e by (simp add: pt_ext_def)
  have inv1: "kmem_inv s1 ps1" "pt_wf s1 ps1 pt" and k: "pt_keep pt s ps s1 ps1"
    using e by (simp_all add: pt_ext_def pt_keep_def)
  have "load64 (mem s1) pte = lookup (mem s1) pt va"
    using q pte by (simp add: lookup_def del: node.simps)
  with l show "load64 (mem s1) pte = lookup (mem s) pt va" by simp
  note st = store_leaf [OF inv1 va q, where v = v, folded pte s2_def]
  show "\<exists>ps'. pt_keep pt s ps s2 ps' \<and> length ps \<le> length ps' + 2"
    using st(1) k len by (blast intro: pt_keep_trans)
  show "lookup (mem s2) pt vb =
      (if PGROUNDDOWN vb = PGROUNDDOWN va then v else lookup (mem s) pt vb)" if "vb < MAXVA"
    using st(2) [OF that] l by simp
qed

section \<open>Mapping a range\<close>

text \<open>The translations after the first \<open>k\<close> pages from \<open>a\<close> have been mapped to \<open>pa\<close>.\<close>

definition map_range :: "uint64 \<Rightarrow> nat \<Rightarrow> uint64 \<Rightarrow> uint64 \<Rightarrow> (uint64 \<Rightarrow> uint64) \<Rightarrow> uint64 \<Rightarrow> uint64" where
  "map_range a k pa perm L va =
     (if unat a \<le> unat va \<and> unat va < unat a + 4096 * k
      then PA2PTE (pa + (PGROUNDDOWN va - a)) OR perm OR PTE_V else L va)"

lemma map_range_0 [simp]: "map_range a 0 pa perm L = L"
  by (rule ext) (auto simp: map_range_def)

lemma in_page_range:
  assumes "page_aligned a" "unat a + 4096 < 2 ^ 64"
  shows "PGROUNDDOWN va = a \<longleftrightarrow> unat a \<le> unat va \<and> unat va < unat a + 4096"
proof -
  obtain k where k: "unat a = 4096 * k" using assms(1) by (auto simp: page_aligned_unat)
  define q r where "q = unat va div 4096" and "r = unat va mod 4096"
  have v: "unat va = 4096 * q + r" "r < 4096" by (simp_all add: q_def r_def)
  have "PGROUNDDOWN va = a \<longleftrightarrow> unat va - unat va mod 4096 = 4096 * k"
    by (simp add: word_unat_eq_iff unat_PGROUNDDOWN k)
  also have "\<dots> \<longleftrightarrow> 4096 * q = 4096 * k"
    unfolding r_def [symmetric] using v by simp
  also have "\<dots> \<longleftrightarrow> 4096 * k \<le> unat va \<and> unat va < 4096 * k + 4096"
    using v by auto
  finally show ?thesis by (simp add: k)
qed

lemma map_range_Suc:
  assumes "page_aligned a" "unat a + 4096 < 2 ^ 64"
    and "\<And>vb. vb < MAXVA \<Longrightarrow> L' vb = (if PGROUNDDOWN vb = PGROUNDDOWN a then PA2PTE pa OR perm OR PTE_V else L vb)"
    and "va < MAXVA"
  shows "map_range (a + PGSIZE) k (pa + PGSIZE) perm L' va = map_range a (Suc k) pa perm L va"
proof -
  have u: "unat (a + PGSIZE) = unat a + 4096" using assms(2) by (simp add: unat_word_ariths)
  have "PGROUNDDOWN a = a" using assms(1) by simp
  then have "L' va = (if unat a \<le> unat va \<and> unat va < unat a + 4096
      then PA2PTE pa OR perm OR PTE_V else L va)"
    using assms(3) [OF assms(4)] in_page_range [OF assms(1,2), of va] by simp
  moreover have "PGROUNDDOWN va = a" if "unat a \<le> unat va" "unat va < unat a + 4096"
    using in_page_range [OF assms(1,2)] that by blast
  ultimately show ?thesis by (auto simp: map_range_def u)
qed

lemma walk_below: "va < MAXVA \<Longrightarrow> walk pt va al s = Ok (walk_from 2 pt va al s)"
  by (auto simp: walk_def)

lemma mappages_step:
  assumes inv: "kmem_inv s ps" "pt_wf s ps pt" and a: "a < MAXVA"
    and free: "lookup (mem s) pt a AND PTE_V = 0"
  obtains (nomem) s' where "mappages_loop pt a final pa perm s = Ok (-1, s')" "pt_ext pt s ps s' []" "length ps < 2"
  | (step) s' ps' where "pt_keep pt s ps s' ps'" "length ps \<le> length ps' + 2"
      "mappages_loop pt a final pa perm s = (if a = final then Ok (0, s')
         else mappages_loop pt (a + PGSIZE) final (pa + PGSIZE) perm s')"
      "\<And>vb. vb < MAXVA \<Longrightarrow> lookup (mem s') pt vb =
         (if PGROUNDDOWN vb = PGROUNDDOWN a then PA2PTE pa OR perm OR PTE_V else lookup (mem s) pt vb)"
proof -
  obtain r s1 where w: "walk_from 2 pt a True s = (r, s1)" by fastforce
  have lp: "mappages_loop pt a final pa perm s = (case r of None \<Rightarrow> Ok (-1, s1)
      | Some pte \<Rightarrow> if load64 (mem s1) pte AND PTE_V \<noteq> 0 then Panic ''mappages: remap''
           else let s2 = s1\<lparr>mem := store64 pte (PA2PTE pa OR perm OR PTE_V) (mem s1)\<rparr> in
             if a = final then Ok (0, s2)
             else mappages_loop pt (a + PGSIZE) final (pa + PGSIZE) perm s2)"
    unfolding mappages_loop.simps [of pt a] using a w by (simp add: walk_below)
  show ?thesis
  proof (cases r)
    case None
    from walk_from_alloc [OF inv node.simps(1) _ w] None have "pt_ext pt s ps s1 []" "length ps < 2"
      by (auto simp: idxs_2)
    with None lp nomem show ?thesis by simp
  next
    case (Some pte)
    note m = walk_map [OF inv a, of pte s1, OF w [unfolded Some]]
    obtain ps' where "pt_keep pt s ps (s1\<lparr>mem := store64 pte (PA2PTE pa OR perm OR PTE_V) (mem s1)\<rparr>) ps'"
      "length ps \<le> length ps' + 2"
      using m(2) by blast
    then show ?thesis
      by (rule step) (use m(3) lp Some m(1) free in \<open>simp_all add: Let_def\<close>)
  qed
qed

lemma mappages_loop_spec:
  assumes "kmem_inv s ps" "pt_wf s ps pt" "page_aligned a" "unat a + 4096 * Suc n \<le> unat (MAXVA :: uint64)"
    and "\<forall>k\<le>n. lookup (mem s) pt (a + 4096 * of_nat k) AND PTE_V = 0"
  shows "\<exists>k s' ps'. mappages_loop pt a (a + 4096 * of_nat n) pa perm s =
      Ok (if k = Suc n then 0 else -1, s') \<and> k \<le> Suc n \<and>
      (k \<le> n \<longrightarrow> ps' = [] \<and> length ps < 2 * Suc n) \<and> (k = Suc n \<longrightarrow> length ps \<le> length ps' + 2 * k) \<and>
      pt_keep pt s ps s' ps' \<and>
      (\<forall>va<MAXVA. lookup (mem s') pt va = map_range a k pa perm (lookup (mem s) pt) va)"
  using assms
proof (induction n arbitrary: a pa s ps)
  case 0
  have a: "a < MAXVA" using "0.prems"(4) by (simp add: word_less_nat_alt)
  have "lookup (mem s) pt a AND PTE_V = 0" using "0.prems"(5) by simp
  from "0.prems"(1,2) a this show ?case
  proof (cases rule: mappages_step [where final = a and pa = pa and perm = perm])
    case (nomem s')
    then show ?thesis
      by (intro exI [of _ 0] exI [of _ s'] exI [of _ "[]"]) (simp add: pt_ext_def)
  next
    case (step s' ps')
    have "lookup (mem s') pt va = map_range a 1 pa perm (lookup (mem s) pt) va" if "va < MAXVA" for va
      using step(4) [OF that] in_page_range [OF "0.prems"(3), of va] "0.prems"(3,4)
      by (auto simp: map_range_def)
    with step show ?thesis by (intro exI [of _ 1] exI [of _ s'] exI [of _ ps']) simp
  qed
next
  case (Suc n)
  let ?z = "a + 4096 * of_nat (Suc n)"
  have a: "a < MAXVA" using Suc.prems(4) by (simp add: word_less_nat_alt)
  have z: "unat ?z = unat a + 4096 * Suc n"
    using Suc.prems(4) by (simp add: unat_word_ariths unat_of_nat del: of_nat_Suc)
  have "unat a < unat ?z" unfolding z by simp
  then have "a \<noteq> ?z" by (metis less_irrefl)
  have u: "unat (a + 4096) = unat a + 4096" using Suc.prems(4) by (simp add: unat_word_ariths)
  have "lookup (mem s) pt a AND PTE_V = 0" using Suc.prems(5) [rule_format, of 0] by simp
  from Suc.prems(1,2) a this show ?case
  proof (cases rule: mappages_step [where final = ?z and pa = pa and perm = perm])
    case (nomem s')
    then show ?thesis
      by (intro exI [of _ 0] exI [of _ s'] exI [of _ "[]"]) (simp add: pt_ext_def)
  next
    case (step s1 ps1)
    have inv1: "kmem_inv s1 ps1" "pt_wf s1 ps1 pt" using step(1) by (simp_all add: pt_keep_def)
    have al1: "page_aligned (a + 4096)" using Suc.prems(3) u by (simp add: page_aligned_unat)
    have free1: "\<forall>k\<le>n. lookup (mem s1) pt (a + 4096 + 4096 * of_nat k) AND PTE_V = 0"
    proof (intro allI impI)
      fix k assume "k \<le> n"
      then have b: "unat (a + 4096 * of_nat (Suc k)) = unat a + 4096 * Suc k"
        using Suc.prems(4) by (simp add: unat_word_ariths unat_of_nat del: of_nat_Suc)
      have e: "a + 4096 + 4096 * of_nat k = a + 4096 * of_nat (Suc k)" by simp
      have "a + 4096 * of_nat (Suc k) < MAXVA"
        using b \<open>k \<le> n\<close> Suc.prems(4) by (simp add: word_less_nat_alt del: of_nat_Suc)
      moreover have "PGROUNDDOWN (a + 4096 * of_nat (Suc k)) \<noteq> PGROUNDDOWN a"
        using in_page_range [OF Suc.prems(3), of "a + 4096 * of_nat (Suc k)"] b Suc.prems(3,4)
        by (simp del: of_nat_Suc)
      ultimately show "lookup (mem s1) pt (a + 4096 + 4096 * of_nat k) AND PTE_V = 0"
        unfolding e using step(4) Suc.prems(5) \<open>k \<le> n\<close> by (simp del: of_nat_Suc)
    qed
    have "unat (a + 4096) + 4096 * Suc n \<le> unat (MAXVA :: uint64)" using Suc.prems(4) u by simp
    from Suc.IH [OF inv1 al1 this free1, of "pa + PGSIZE"] obtain k s' ps' where
      r: "mappages_loop pt (a + 4096) (a + 4096 + 4096 * of_nat n) (pa + PGSIZE) perm s1 =
        Ok (if k = Suc n then 0 else -1, s')" "k \<le> Suc n" "k \<le> n \<longrightarrow> ps' = [] \<and> length ps1 < 2 * Suc n"
        "pt_keep pt s1 ps1 s' ps'" "k = Suc n \<longrightarrow> length ps1 \<le> length ps' + 2 * k"
      and l: "\<And>va. va < MAXVA \<Longrightarrow> lookup (mem s') pt va =
        map_range (a + 4096) k (pa + PGSIZE) perm (lookup (mem s1) pt) va"
      by blast
    have ze: "?z = a + 4096 + 4096 * of_nat n" by simp
    have "lookup (mem s') pt va = map_range a (Suc k) pa perm (lookup (mem s) pt) va" if "va < MAXVA" for va
      using l [OF that] map_range_Suc [OF Suc.prems(3) _ step(4) that, of k] Suc.prems(4) by simp
    moreover have "mappages_loop pt a ?z pa perm s = Ok (if Suc k = Suc (Suc n) then 0 else -1, s')"
      unfolding step(3) if_not_P [OF \<open>a \<noteq> ?z\<close>] nat.inject using r(1) unfolding ze .
    moreover have "Suc k \<le> Suc n \<longrightarrow> ps' = [] \<and> length ps < 2 * Suc (Suc n)" using r(3) step(2) by auto
    moreover have "Suc k = Suc (Suc n) \<longrightarrow> length ps \<le> length ps' + 2 * Suc k" using r(5) step(2) by auto
    ultimately show ?thesis
      using r(2) pt_keep_trans [OF step(1) r(4)]
      by (intro exI [of _ "Suc k"] exI [of _ s'] exI [of _ ps']) blast
  qed
qed

section \<open>Unmapping a range\<close>

text \<open>Memory changes outside the page-table pages do not change the tree.\<close>

lemma node_frame:
  assumes "\<And>x. PGROUNDDOWN x \<in> ptnodes (mem s) pt \<Longrightarrow> m' x = mem s x"
    and "pt_wf s ps pt" "tpath path"
  shows "node m' pt path = node (mem s) pt path"
  using assms(3)
proof (induction path rule: rev_induct)
  case (snoc j path)
  show ?case
  proof (cases "node (mem s) pt path")
    case (Some r)
    then have r: "r \<in> ptnodes (mem s) pt" "page_aligned r"
      using snoc.prems pt_wf_valid [OF assms(2)] by (auto intro: ptnodesI)
    have "load64 m' (r + 8 * j) = load64 (mem s) (r + 8 * j)"
      by (rule load64_slot_cong) (use r snoc.prems in \<open>auto simp: in_page_iff intro: assms(1)\<close>)
    with snoc Some show ?thesis by (simp add: child_def)
  qed (use snoc in simp)
qed simp

lemma lookup_frame:
  assumes "\<And>x. PGROUNDDOWN x \<in> ptnodes (mem s) pt \<Longrightarrow> m' x = mem s x" "pt_wf s ps pt"
  shows "lookup m' pt va = lookup (mem s) pt va"
proof (cases "node (mem s) pt [PX 2 va, PX 1 va]")
  case None
  then show ?thesis
    using node_frame [OF assms tpath_PX(1)] by (simp add: lookup_def del: node.simps)
next
  case (Some r)
  then have r: "r \<in> ptnodes (mem s) pt" "page_aligned r"
    using pt_wf_valid(3) [OF assms(2) tpath_PX(1)] tpath_PX(1) by (blast intro: ptnodesI)+
  have "load64 m' (r + 8 * PX 0 va) = load64 (mem s) (r + 8 * PX 0 va)"
    by (rule load64_slot_cong) (use r in \<open>auto simp: in_page_iff PX_less intro: assms(1)\<close>)
  then show ?thesis
    using Some node_frame [OF assms tpath_PX(1)] by (simp add: lookup_def del: node.simps)
qed

lemma pt_wf_frame:
  assumes "\<And>x. PGROUNDDOWN x \<in> ptnodes (mem s) pt \<Longrightarrow> mem s' x = mem s x" "pt_wf s ps pt"
    and "kend s' = kend s" "\<And>q. q \<in> set ps' \<Longrightarrow> q \<in> set ps \<or> q \<notin> ptnodes (mem s) pt"
  shows "pt_wf s' ps' pt" "ptnodes (mem s') pt = ptnodes (mem s) pt"
proof -
  have n: "node (mem s') pt path = node (mem s) pt path" if "tpath path" for path
    using assms(1,2) that by (rule node_frame)
  then show pn: "ptnodes (mem s') pt = ptnodes (mem s) pt" by (rule ptnodes_cong)
  show "pt_wf s' ps' pt"
    using assms(2-) n unfolding pt_wf_def pn by (auto simp: valid_page_def)
qed

lemma walk_lookup:
  assumes "lookup (mem s) pt va AND PTE_V \<noteq> 0"
  obtains q where "node (mem s) pt [PX 2 va, PX 1 va] = Some q"
    "walk_from 2 pt va al s = (Some (q + 8 * PX 0 va), s)"
    "load64 (mem s) (q + 8 * PX 0 va) = lookup (mem s) pt va"
proof -
  obtain q where q: "node (mem s) pt [PX 2 va, PX 1 va] = Some q"
    using assms by (fastforce simp: lookup_def simp del: node.simps split: option.splits)
  have "walk_from l p va al s = (Some (q + 8 * PX 0 va), s)" if "node (mem s) p (idxs l va) = Some q" for l p
    using that by (induction l arbitrary: p) (auto simp: Let_def child_def split: if_splits)
  with q that show ?thesis by (simp add: idxs_2 lookup_def del: node.simps)
qed

text \<open>The leaf pages of \<open>n\<close> pages from \<open>a\<close> on, and what it takes to free them: they are
  leaves, valid pages, neither free nor page-table pages, and no page is mapped twice.\<close>

definition leaf_pages :: "memory \<Rightarrow> uint64 \<Rightarrow> uint64 \<Rightarrow> nat \<Rightarrow> uint64 list" where
  "leaf_pages m pt a n = map (\<lambda>k. PTE2PA (lookup m pt (a + 4096 * of_nat k))) [0..<n]"

definition is_leaf :: "uint64 \<Rightarrow> bool" where
  "is_leaf e \<longleftrightarrow> e AND PTE_V \<noteq> 0 \<and> PTE_FLAGS e \<noteq> PTE_V"

definition unmap_range :: "uint64 \<Rightarrow> nat \<Rightarrow> (uint64 \<Rightarrow> uint64) \<Rightarrow> uint64 \<Rightarrow> uint64" where
  "unmap_range a n L va = (if unat a \<le> unat va \<and> unat va < unat a + 4096 * n then 0 else L va)"

lemma leaf_pages_Suc:
  "leaf_pages m pt a (Suc n) = PTE2PA (lookup m pt a) # leaf_pages m pt (a + 4096) n"
  by (simp add: leaf_pages_def upt_conv_Cons map_Suc_upt [symmetric] algebra_simps del: upt_Suc)

definition can_free :: "'a kmem_scheme \<Rightarrow> uint64 list \<Rightarrow> uint64 \<Rightarrow> uint64 \<Rightarrow> nat \<Rightarrow> bool" where
  "can_free s ps pt a n \<longleftrightarrow>
     distinct (leaf_pages (mem s) pt a n) \<and>
     (\<forall>p\<in>set (leaf_pages (mem s) pt a n). valid_page s p \<and> p \<notin> set ps \<and> p \<notin> ptnodes (mem s) pt)"

text \<open>One round of the loop: the page goes back to the free list, its entry is cleared.\<close>

lemma uvmunmap_step:
  assumes inv: "kmem_inv s ps" "pt_wf s ps pt" and a: "a < MAXVA"
    and leaf: "is_leaf (lookup (mem s) pt a)"
    and free: "do_free \<longrightarrow> valid_page s (PTE2PA (lookup (mem s) pt a)) \<and>
      PTE2PA (lookup (mem s) pt a) \<notin> set ps \<and> PTE2PA (lookup (mem s) pt a) \<notin> ptnodes (mem s) pt"
  defines "ps' \<equiv> (if do_free then [PTE2PA (lookup (mem s) pt a)] else []) @ ps"
  obtains s' where "kmem_inv s' ps'" "pt_wf s' ps' pt" "ptnodes (mem s') pt = ptnodes (mem s) pt"
    "kend s' = kend s"
    "\<forall>stop>a. uvmunmap_loop pt a stop do_free s = uvmunmap_loop pt (a + PGSIZE) stop do_free s'"
    "\<forall>vb<MAXVA. lookup (mem s') pt vb =
      (if PGROUNDDOWN vb = PGROUNDDOWN a then 0 else lookup (mem s) pt vb)"
    "\<forall>x. PGROUNDDOWN x \<notin> ptnodes (mem s) pt \<longrightarrow> PGROUNDDOWN x \<notin> set ps' - set ps \<longrightarrow> mem s' x = mem s x"
proof -
  let ?e = "lookup (mem s) pt a"
  have "?e AND PTE_V \<noteq> 0" using leaf by (simp add: is_leaf_def)
  then obtain q where q: "node (mem s) pt [PX 2 a, PX 1 a] = Some q"
    "walk_from 2 pt a False s = (Some (q + 8 * PX 0 a), s)"
    "load64 (mem s) (q + 8 * PX 0 a) = ?e"
    by (rule walk_lookup)
  have "\<exists>s1. (if do_free then kfree (PTE2PA ?e) s else Ok s) = Ok s1 \<and> kmem_inv s1 ps' \<and>
      kend s1 = kend s \<and> (\<forall>x. PGROUNDDOWN x \<notin> set ps' - set ps \<longrightarrow> mem s1 x = mem s x)"
  proof (cases do_free)
    case True
    with free obtain s1 where s1: "kfree (PTE2PA ?e) s = Ok s1" "kmem_inv s1 ps'"
      using ka.free_ok [OF inv(1)] unfolding ps'_def by auto
    have "page_aligned (PTE2PA ?e)" using free True by (simp add: valid_page_def)
    then have "\<forall>x. PGROUNDDOWN x \<notin> set ps' - set ps \<longrightarrow> mem s1 x = mem s x"
      using ka.free_frame [OF s1(1)] True free unfolding ps'_def by (auto simp: in_page_iff) metis
    with s1 True kfree_kend [OF s1(1)] show ?thesis by auto
  qed (use inv ps'_def in auto)
  then obtain s1 where s1: "(if do_free then kfree (PTE2PA ?e) s else Ok s) = Ok s1"
    "kmem_inv s1 ps'" "kend s1 = kend s"
    and fr: "\<And>x. PGROUNDDOWN x \<notin> set ps' - set ps \<Longrightarrow> mem s1 x = mem s x" by blast
  have keep: "mem s1 x = mem s x" if "PGROUNDDOWN x \<in> ptnodes (mem s) pt" for x
    by (rule fr) (use that free in \<open>auto simp: ps'_def\<close>)
  have new: "p \<in> set ps \<or> p \<notin> ptnodes (mem s) pt" if "p \<in> set ps'" for p
    using that free by (auto simp: ps'_def split: if_splits)
  have wf1: "pt_wf s1 ps' pt"
    by (rule pt_wf_frame(1) [OF _ inv(2) s1(3)]) (erule keep, erule new)
  have pn1: "ptnodes (mem s1) pt = ptnodes (mem s) pt"
    by (rule pt_wf_frame(2) [OF _ inv(2) s1(3)]) (erule keep, erule new)
  have "node (mem s1) pt [PX 2 a, PX 1 a] = node (mem s) pt [PX 2 a, PX 1 a]"
    by (rule node_frame [OF _ inv(2) tpath_PX(1)]) (erule keep)
  with q(1) have q1: "node (mem s1) pt [PX 2 a, PX 1 a] = Some q" by simp
  have l1: "lookup (mem s1) pt vb = lookup (mem s) pt vb" for vb
    by (rule lookup_frame [OF _ inv(2)]) (erule keep)
  let ?s2 = "s1\<lparr>mem := store64 (q + 8 * PX 0 a) 0 (mem s1)\<rparr>"
  note st = store_leaf [OF s1(2) wf1 a q1, where v = 0]
  have k2: "kmem_inv ?s2 ps'" "pt_wf ?s2 ps' pt" "kend ?s2 = kend s"
    using st(1) s1(3) by (simp_all add: pt_keep_def)
  show ?thesis
  proof (rule that [OF k2(1,2) _ k2(3)], goal_cases nodes loop look frame)
    case nodes
    show "ptnodes (mem ?s2) pt = ptnodes (mem s) pt"
      using leaf_update(2) [OF wf1 a q1, of ?s2 0] pn1 by simp
  next
    case loop
    show ?case
      unfolding uvmunmap_loop.simps [of pt a] using a q(2,3) leaf s1(1)
      by (cases do_free) (simp_all add: walk_below is_leaf_def Let_def)
  next
    case look
    show ?case using st(2) l1 by simp
  next
    case frame
    have "ptnodes (mem ?s2) pt = ptnodes (mem s) pt"
      using leaf_update(2) [OF wf1 a q1, of ?s2 0] pn1 by simp
    moreover have "\<forall>x. PGROUNDDOWN x \<notin> ptnodes (mem ?s2) pt \<longrightarrow> mem ?s2 x = mem s1 x"
      using st(1) unfolding pt_keep_def by blast
    ultimately show ?case using fr by simp
  qed
qed

lemma unmap_range_0 [simp]: "unmap_range a 0 L = L"
  by (rule ext) (auto simp: unmap_range_def)

lemma unmap_range_Suc:
  assumes "page_aligned a" "unat a + 4096 < 2 ^ 64"
    and "\<And>vb. vb < MAXVA \<Longrightarrow> L' vb = (if PGROUNDDOWN vb = PGROUNDDOWN a then 0 else L vb)"
    and "va < MAXVA"
  shows "unmap_range (a + PGSIZE) n L' va = unmap_range a (Suc n) L va"
proof -
  have u: "unat (a + PGSIZE) = unat a + 4096" using assms(2) by (simp add: unat_word_ariths)
  have "PGROUNDDOWN a = a" using assms(1) by simp
  then have "L' va = (if unat a \<le> unat va \<and> unat va < unat a + 4096 then 0 else L va)"
    using assms(3) [OF assms(4)] in_page_range [OF assms(1,2), of va] by simp
  then show ?thesis by (auto simp: unmap_range_def u)
qed

lemma later_page:
  assumes "page_aligned a" "unat a + 4096 * Suc n \<le> unat (MAXVA :: uint64)" "k < n"
  shows "a + 4096 + 4096 * of_nat k < MAXVA"
    and "PGROUNDDOWN (a + 4096 + 4096 * of_nat k) \<noteq> PGROUNDDOWN a"
proof -
  have e: "a + 4096 + 4096 * of_nat k = a + of_nat (4096 * Suc k)" by simp
  have "unat (a + of_nat (4096 * Suc k)) = unat a + 4096 * Suc k"
    using assms by (simp add: unat_word_ariths unat_of_nat del: of_nat_Suc)
  then have u: "unat (a + 4096 + 4096 * of_nat k) = unat a + 4096 * Suc k" unfolding e .
  show "a + 4096 + 4096 * of_nat k < MAXVA"
    using u assms(2,3) by (simp add: word_less_nat_alt)
  show "PGROUNDDOWN (a + 4096 + 4096 * of_nat k) \<noteq> PGROUNDDOWN a"
    using in_page_range [OF assms(1), of "a + 4096 + 4096 * of_nat k"] u assms by simp
qed

lemma uvmunmap_loop_spec:
  assumes "kmem_inv s ps" "pt_wf s ps pt" "page_aligned a" "unat a + 4096 * n \<le> unat (MAXVA :: uint64)"
    and "\<forall>k<n. is_leaf (lookup (mem s) pt (a + 4096 * of_nat k))"
    and "do_free \<longrightarrow> can_free s ps pt a n"
  shows "\<exists>s' ps'. uvmunmap_loop pt a (a + 4096 * of_nat n) do_free s = Ok s' \<and>
      ps' = (if do_free then rev (leaf_pages (mem s) pt a n) else []) @ ps \<and>
      kmem_inv s' ps' \<and> pt_wf s' ps' pt \<and> ptnodes (mem s') pt = ptnodes (mem s) pt \<and>
      kend s' = kend s \<and>
      (\<forall>va<MAXVA. lookup (mem s') pt va = unmap_range a n (lookup (mem s) pt) va) \<and>
      (\<forall>x. PGROUNDDOWN x \<notin> ptnodes (mem s) pt \<and> PGROUNDDOWN x \<notin> set ps' - set ps \<longrightarrow> mem s' x = mem s x)"
  using assms
proof (induction n arbitrary: a s ps)
  case 0
  then show ?case by (simp add: uvmunmap_loop.simps leaf_pages_def)
next
  case (Suc n)
  let ?t = "PTE2PA (lookup (mem s) pt a)"
  have a: "a < MAXVA" using Suc.prems(4) by (simp add: word_less_nat_alt)
  have u: "unat (a + 4096) = unat a + 4096" using Suc.prems(4) by (simp add: unat_word_ariths)
  have ze: "a + 4096 * of_nat (Suc n) = a + 4096 + 4096 * of_nat n" by simp
  have "unat (a + of_nat (4096 * Suc n)) = unat a + 4096 * Suc n"
    using Suc.prems(4) by (simp add: unat_word_ariths unat_of_nat del: of_nat_Suc)
  then have lt: "a < a + 4096 * of_nat (Suc n)" by (simp add: word_less_nat_alt)
  have leaf: "is_leaf (lookup (mem s) pt a)" using Suc.prems(5) [rule_format, of 0] by simp
  have free: "do_free \<longrightarrow> valid_page s ?t \<and> ?t \<notin> set ps \<and> ?t \<notin> ptnodes (mem s) pt"
    using Suc.prems(6) by (simp add: can_free_def leaf_pages_Suc)
  let ?ps1 = "(if do_free then [?t] else []) @ ps"
  obtain s1 where s1: "kmem_inv s1 ?ps1" "pt_wf s1 ?ps1 pt" "ptnodes (mem s1) pt = ptnodes (mem s) pt"
    "kend s1 = kend s"
    and loop: "\<forall>stop>a. uvmunmap_loop pt a stop do_free s = uvmunmap_loop pt (a + PGSIZE) stop do_free s1"
    and l1: "\<forall>vb<MAXVA. lookup (mem s1) pt vb =
      (if PGROUNDDOWN vb = PGROUNDDOWN a then 0 else lookup (mem s) pt vb)"
    and fr1: "\<forall>x. PGROUNDDOWN x \<notin> ptnodes (mem s) pt \<longrightarrow> PGROUNDDOWN x \<notin> set ?ps1 - set ps
      \<longrightarrow> mem s1 x = mem s x"
    using Suc.prems(1,2) a leaf free by (rule uvmunmap_step)
  note later = later_page [OF Suc.prems(3,4)]
  have l1': "lookup (mem s1) pt (a + 4096 + 4096 * of_nat k) = lookup (mem s) pt (a + 4096 + 4096 * of_nat k)"
    if "k < n" for k using l1 later that by simp
  have al1: "page_aligned (a + 4096)" using Suc.prems(3) u by (simp add: page_aligned_unat)
  have lp: "leaf_pages (mem s1) pt (a + 4096) n = leaf_pages (mem s) pt (a + 4096) n"
    using l1' by (auto simp: leaf_pages_def)
  have leaf1: "\<forall>k<n. is_leaf (lookup (mem s1) pt (a + 4096 + 4096 * of_nat k))"
    using Suc.prems(5) l1' by (auto simp: algebra_simps dest: spec [of _ "Suc _"])
  have free1: "do_free \<longrightarrow> can_free s1 ?ps1 pt (a + 4096) n"
    using Suc.prems(6) s1(3,4) by (auto simp: can_free_def leaf_pages_Suc lp valid_page_def)
  have "unat (a + 4096) + 4096 * n \<le> unat (MAXVA :: uint64)" using Suc.prems(4) u by simp
  from Suc.IH [OF s1(1,2) al1 this leaf1 free1] obtain s' ps' where
    r: "uvmunmap_loop pt (a + 4096) (a + 4096 + 4096 * of_nat n) do_free s1 = Ok s'"
      "ps' = (if do_free then rev (leaf_pages (mem s1) pt (a + 4096) n) else []) @ ?ps1"
      "kmem_inv s' ps'" "pt_wf s' ps' pt" "ptnodes (mem s') pt = ptnodes (mem s1) pt" "kend s' = kend s1"
    and l: "\<And>va. va < MAXVA \<Longrightarrow> lookup (mem s') pt va = unmap_range (a + 4096) n (lookup (mem s1) pt) va"
    and fr: "\<And>x. PGROUNDDOWN x \<notin> ptnodes (mem s1) pt \<Longrightarrow> PGROUNDDOWN x \<notin> set ps' - set ?ps1
      \<Longrightarrow> mem s' x = mem s1 x"
    by blast
  have sub: "set ?ps1 \<subseteq> set ps'" "set ps \<subseteq> set ?ps1" using r(2) by auto
  show ?case
  proof (intro exI [of _ s'] exI [of _ ps'] conjI allI impI)
    show "uvmunmap_loop pt a (a + 4096 * of_nat (Suc n)) do_free s = Ok s'"
      using loop [rule_format, OF lt] r(1) unfolding ze by simp
    show "ps' = (if do_free then rev (leaf_pages (mem s) pt a (Suc n)) else []) @ ps"
      using r(2) by (simp add: lp leaf_pages_Suc)
    show "lookup (mem s') pt va = unmap_range a (Suc n) (lookup (mem s) pt) va" if "va < MAXVA" for va
      using l [OF that] unmap_range_Suc [OF Suc.prems(3) _ l1 [rule_format] that] Suc.prems(4) by simp
    show "mem s' x = mem s x"
      if "PGROUNDDOWN x \<notin> ptnodes (mem s) pt \<and> PGROUNDDOWN x \<notin> set ps' - set ps" for x
    proof -
      have "PGROUNDDOWN x \<notin> set ps' - set ?ps1" "PGROUNDDOWN x \<notin> set ?ps1 - set ps"
        using that sub by blast+
      moreover have "PGROUNDDOWN x \<notin> ptnodes (mem s1) pt" unfolding s1(3) using that by blast
      ultimately have "mem s' x = mem s1 x" "mem s1 x = mem s x"
        using fr fr1 [rule_format, of x] that by blast+
      then show ?thesis by simp
    qed
    show "kmem_inv s' ps'" "pt_wf s' ps' pt" by (rule r)+
    show "ptnodes (mem s') pt = ptnodes (mem s) pt" "kend s' = kend s" using r(5,6) s1(3,4) by simp_all
  qed
qed

section \<open>A new page table\<close>

lemma uvmcreate_fresh:
  assumes "kmem_inv s (p # ps)"
  obtains s' where "uvmcreate s = (p, s')" "kmem_inv s' ps" "pt_wf s' ps p"
    "ptnodes (mem s') p = {p}" "\<And>va. lookup (mem s') p va = 0"
proof -
  obtain s1 where s1: "kalloc s = (p, s1)" "kmem_inv s1 ps" using ka.alloc_Cons [OF assms] by blast
  have p: "p \<noteq> 0" "page_aligned p" "valid_page s p" "p \<notin> set ps"
    using ka.inv_valid [OF assms, of p] ka.valid_pos [OF assms, of p] ka.inv_distinct [OF assms] by simp_all
  let ?s' = "s1\<lparr>mem := memset p 0 4096 (mem s1)\<rparr>"
  have inv: "kmem_inv ?s' ps"
  proof (rule kmem_inv_frame [OF s1(2)])
    fix x assume "PGROUNDDOWN x \<in> set ps"
    with p have "\<not> in_page p x" by (auto simp: in_page_iff)
    then show "mem ?s' x = mem s1 x" by (simp add: mem_simps)
  qed simp_all
  have child: "child (mem ?s') p i = None" if "i < 512" for i
    using load64_memset_zero [OF p(2) that] by simp
  have node: "node (mem ?s') p path = (if path = [] then Some p else None)" if "tpath path" for path
    using that child by (cases path) (auto simp: tpath_def)
  have nodes: "ptnodes (mem ?s') p = {p}"
  proof
    show "ptnodes (mem ?s') p \<subseteq> {p}" unfolding ptnodes_def using node by (auto split: if_splits)
    show "{p} \<subseteq> ptnodes (mem ?s') p" using ptnodesI [of "[]"] by simp
  qed
  have "valid_page s1 p" using ka.alloc_valid [OF s1(1)] p(3) by blast
  then have "valid_page ?s' p" by (simp add: valid_page_def)
  then have "pt_wf ?s' ps p"
    unfolding pt_wf_def nodes using p(4) node by (auto split: if_splits)
  moreover have "lookup (mem ?s') p va = 0" for va
    unfolding lookup_def node [OF tpath_PX(1)] by simp
  ultimately show ?thesis
    using that [of ?s'] s1(1) p(1) inv nodes by (simp add: uvmcreate_def)
qed

end
