(* ===== verification/Vm_Correct.thy ===== *)
theory Vm_Correct
  imports Page_Table
begin

text \<open>
  What the functions of \<^verbatim>\<open>kernel/vm.c\<close> promise. \<open>mappages\<close> and \<open>uvmunmap\<close> refine point
  updates of the translation function \<open>lookup\<close>; \<open>copyout\<close> and \<open>copyin\<close> write and read
  the user's view of its memory, the partial function \<open>vread\<close> from virtual addresses to bytes.
  The contract between the translation and the copy functions is the locale \<open>paged_memory\<close>.
\<close>

section \<open>Mapping and unmapping\<close>

definition npages :: "uint64 \<Rightarrow> uint64 \<Rightarrow> nat" where
  "npages va sz = (unat va + unat sz - 1) div 4096 - unat va div 4096 + 1"

lemma PGROUNDDOWN_span:
  assumes "sz \<noteq> 0" "unat va + unat sz \<le> unat (MAXVA :: uint64)"
  shows "PGROUNDDOWN (va + sz - 1) = PGROUNDDOWN va + 4096 * of_nat (npages va sz - 1)"
    and "unat (PGROUNDDOWN va) + 4096 * npages va sz \<le> unat (MAXVA :: uint64)"
proof -
  have pos: "0 < unat sz" using assms(1) by (simp add: unat_gt_0)
  have u: "unat (va + sz) = unat va + unat sz"
    using assms(2) by (simp add: unat_word_ariths)
  have "va + sz \<noteq> 0" using u pos by (auto simp: word_unat_eq_iff)
  then have u1: "unat (va + sz - 1) = unat va + unat sz - 1"
    using u by (simp add: unat_minus_one)
  define i j where "i = unat va div 4096" and "j = (unat va + unat sz - 1) div 4096"
  have ij: "i \<le> j" unfolding i_def j_def using pos by (intro div_le_mono) simp
  have "j \<le> (274877906944 - 1) div 4096"
    unfolding j_def using assms(2) pos by (intro div_le_mono) simp
  then have j: "j \<le> 67108863" by simp
  obtain d where d: "j = i + d" using ij le_Suc_ex by blast
  have n: "npages va sz = d + 1" using d by (simp add: npages_def i_def j_def)
  have ui: "unat (PGROUNDDOWN va) = 4096 * i"
    by (simp add: unat_PGROUNDDOWN i_def minus_mod_eq_mult_div)
  have uj: "unat (PGROUNDDOWN (va + sz - 1)) = 4096 * j"
    unfolding unat_PGROUNDDOWN u1 by (simp add: j_def minus_mod_eq_mult_div)
  show "unat (PGROUNDDOWN va) + 4096 * npages va sz \<le> unat (MAXVA :: uint64)"
    unfolding ui n using d j by simp
  have "unat (PGROUNDDOWN va + 4096 * of_nat d) = 4096 * j"
    using ui d j by (simp add: unat_word_ariths unat_of_nat)
  then have "unat (PGROUNDDOWN (va + sz - 1)) = unat (PGROUNDDOWN va + 4096 * of_nat (npages va sz - 1))"
    unfolding uj n by simp
  then show "PGROUNDDOWN (va + sz - 1) = PGROUNDDOWN va + 4096 * of_nat (npages va sz - 1)"
    by (simp only: word_unat_eq_iff)
qed

lemma mappages_map:
  assumes "kmem_inv s ps" "pt_wf s ps pt" "sz \<noteq> 0" "unat va + unat sz \<le> unat (MAXVA :: uint64)"
    and "\<forall>k<npages va sz. lookup (mem s) pt (PGROUNDDOWN va + 4096 * of_nat k) AND PTE_V = 0"
  shows "\<exists>k s' ps'. mappages pt va sz pa perm s = Ok (if k = npages va sz then 0 else -1, s') \<and>
      k \<le> npages va sz \<and> (k < npages va sz \<longrightarrow> ps' = [] \<and> length ps < 2 * npages va sz) \<and>
      (k = npages va sz \<longrightarrow> length ps \<le> length ps' + 2 * k) \<and> pt_keep pt s ps s' ps' \<and>
      (\<forall>vb<MAXVA. lookup (mem s') pt vb = map_range (PGROUNDDOWN va) k pa perm (lookup (mem s) pt) vb)"
proof -
  note span = PGROUNDDOWN_span [OF assms(3,4)]
  obtain n where n: "npages va sz = Suc n" by (simp add: npages_def)
  have "\<forall>k\<le>n. lookup (mem s) pt (PGROUNDDOWN va + 4096 * of_nat k) AND PTE_V = 0"
    using assms(5) n by (simp add: less_Suc_eq_le)
  from mappages_loop_spec [OF assms(1,2) page_aligned_PGROUNDDOWN _ this] span
  show ?thesis using assms(3) by (simp add: mappages_def n less_Suc_eq_le)
qed

lemma mappages_page:
  assumes "kmem_inv s ps" "pt_wf s ps pt" "page_aligned va" "unat va + 4096 \<le> unat (MAXVA :: uint64)"
    and "lookup (mem s) pt va AND PTE_V = 0" "2 \<le> length ps"
  obtains s' ps' where "mappages pt va PGSIZE pa perm s = Ok (0, s')" "pt_keep pt s ps s' ps'"
    "length ps \<le> length ps' + 2"
    "\<forall>vb<MAXVA. lookup (mem s') pt vb =
       (if PGROUNDDOWN vb = va then PA2PTE pa OR perm OR PTE_V else lookup (mem s) pt vb)"
proof -
  obtain k where k: "unat va = 4096 * k" using assms(3) by (auto simp: page_aligned_unat)
  have "(4096 * k + 4096 - 1) div 4096 = k" by simp
  then have n: "npages va PGSIZE = 1" by (simp add: npages_def k)
  have free: "\<forall>j<npages va PGSIZE. lookup (mem s) pt (PGROUNDDOWN va + 4096 * of_nat j) AND PTE_V = 0"
    unfolding n using assms(3,5) by simp
  have sz: "PGSIZE \<noteq> 0" "unat va + unat (PGSIZE :: uint64) \<le> unat (MAXVA :: uint64)"
    using assms(4) by simp_all
  obtain j s' ps' where j: "mappages pt va PGSIZE pa perm s = Ok (if j = 1 then 0 else -1, s')" "j \<le> 1"
    "j < 1 \<longrightarrow> ps' = [] \<and> length ps < 2" "j = 1 \<longrightarrow> length ps \<le> length ps' + 2 * j" "pt_keep pt s ps s' ps'"
    and l: "\<forall>vb<MAXVA. lookup (mem s') pt vb = map_range (PGROUNDDOWN va) j pa perm (lookup (mem s) pt) vb"
    using mappages_map [OF assms(1,2) sz free, of pa perm] unfolding n by auto
  have "j = 1" using j(2,3) assms(6) by linarith
  moreover have "map_range va 1 pa perm L vb = (if PGROUNDDOWN vb = va then PA2PTE pa OR perm OR PTE_V else L vb)" for L vb
    using in_page_range [OF assms(3), of vb] assms(4) by (auto simp: map_range_def)
  ultimately show ?thesis
    using that j l assms(3) by simp
qed

text \<open>
  C1. \<open>mappages\<close> implements the mapping of a range. On a well-formed page table whose
  pages in the range are unmapped it never panics; it maps the first \<open>k\<close> pages of the range to
  consecutive physical pages with the given permissions, and all of them when it returns 0; it
  returns -1 only after the last free page is gone, and never when two free pages per mapped page
  were available. Every other translation, and all memory outside the
  page-table pages, is as before, and the page table and the free list stay well formed.
\<close>

theorem mappages_correct:
  assumes "kmem_inv s ps" "pt_wf s ps pt" "sz \<noteq> 0" "unat va + unat sz \<le> unat (MAXVA :: uint64)"
    and "\<forall>k<npages va sz. lookup (mem s) pt (PGROUNDDOWN va + 4096 * of_nat k) AND PTE_V = 0"
  shows "\<exists>k s' ps'. mappages pt va sz pa perm s = Ok (if k = npages va sz then 0 else -1, s') \<and>
      k \<le> npages va sz \<and> (k < npages va sz \<longrightarrow> ps' = [] \<and> length ps < 2 * npages va sz) \<and>
      (k = npages va sz \<longrightarrow> length ps \<le> length ps' + 2 * k) \<and> pt_keep pt s ps s' ps' \<and>
      (\<forall>vb<MAXVA. lookup (mem s') pt vb = map_range (PGROUNDDOWN va) k pa perm (lookup (mem s) pt) vb)"
  using assms by (rule mappages_map)

text \<open>
  C2. \<open>uvmunmap\<close> removes exactly the translations of its range: on \<open>n\<close> mapped pages it
  succeeds, their entries are 0 afterwards and every other translation is as before; with
  \<^verbatim>\<open>do_free\<close> exactly the pages they were mapped to are pushed on the free list.
\<close>

theorem uvmunmap_correct:
  assumes "kmem_inv s ps" "pt_wf s ps pt" "page_aligned a" "unat a + 4096 * n \<le> unat (MAXVA :: uint64)"
    and "\<forall>k<n. is_leaf (lookup (mem s) pt (a + 4096 * of_nat k))"
    and "do_free \<longrightarrow> can_free s ps pt a n"
  shows "\<exists>s' ps'. uvmunmap pt a (of_nat n) do_free s = Ok s' \<and>
      ps' = (if do_free then rev (leaf_pages (mem s) pt a n) else []) @ ps \<and>
      kmem_inv s' ps' \<and> pt_wf s' ps' pt \<and>
      (\<forall>va<MAXVA. lookup (mem s') pt va = unmap_range a n (lookup (mem s) pt) va) \<and>
      (\<forall>x. PGROUNDDOWN x \<notin> ptnodes (mem s) pt \<and> PGROUNDDOWN x \<notin> set ps' - set ps \<longrightarrow> mem s' x = mem s x)"
proof -
  have e: "uvmunmap pt a (of_nat n) do_free s = uvmunmap_loop pt a (a + 4096 * of_nat n) do_free s"
    using assms(3) by (simp add: uvmunmap_def page_aligned_def mult.commute)
  show ?thesis unfolding e using uvmunmap_loop_spec [OF assms] by blast
qed

section \<open>The user's view of memory\<close>

text \<open>\<open>vread tr m va\<close>: the byte at virtual address \<open>va\<close>, when \<open>tr\<close> translates its page.\<close>

definition vread :: "(uint64 \<Rightarrow> uint64) \<Rightarrow> memory \<Rightarrow> uint64 \<Rightarrow> byte option" where
  "vread tr m va =
     (if tr (PGROUNDDOWN va) = 0 then None
      else Some (m (tr (PGROUNDDOWN va) + (va - PGROUNDDOWN va))))"

definition vwrite :: "uint64 \<Rightarrow> byte list \<Rightarrow> (uint64 \<Rightarrow> byte option) \<Rightarrow> uint64 \<Rightarrow> byte option" where
  "vwrite va bs f = (\<lambda>x. if unat (x - va) < length bs then Some (bs ! unat (x - va)) else f x)"

text \<open>
  What the copy functions need of address translation: translated pages are aligned and no two
  virtual pages share one, and storing into a translated page keeps the translation.
\<close>

locale paged_memory =
  fixes tr :: "'s \<Rightarrow> uint64 \<Rightarrow> uint64"
    and rd :: "'s \<Rightarrow> memory"
    and wr :: "uint64 \<Rightarrow> byte list \<Rightarrow> 's \<Rightarrow> 's"
    and wf :: "'s \<Rightarrow> bool"
  assumes rd_wr: "rd (wr a bs s) = mstore a bs (rd s)"
    and tr_aligned: "wf s \<Longrightarrow> page_aligned va \<Longrightarrow> tr s va \<noteq> 0 \<Longrightarrow> page_aligned (tr s va)"
    and tr_inj: "wf s \<Longrightarrow> page_aligned va \<Longrightarrow> page_aligned vb \<Longrightarrow> tr s va \<noteq> 0
      \<Longrightarrow> tr s va = tr s vb \<Longrightarrow> va = vb"
    and tr_wr: "wf s \<Longrightarrow> page_aligned va \<Longrightarrow> tr s va \<noteq> 0 \<Longrightarrow> off + length bs \<le> 4096
      \<Longrightarrow> tr (wr (tr s va + of_nat off) bs s) = tr s"
    and wf_wr: "wf s \<Longrightarrow> page_aligned va \<Longrightarrow> tr s va \<noteq> 0 \<Longrightarrow> off + length bs \<le> 4096
      \<Longrightarrow> wf (wr (tr s va + of_nat off) bs s)"
begin

lemma page_offset: "x = PGROUNDDOWN x + of_nat (unat (x - PGROUNDDOWN x))"
  by simp

text \<open>A store inside one translated page is a write to the user's view.\<close>

lemma vread_wr:
  assumes s: "wf s" "tr s (PGROUNDDOWN va) \<noteq> 0"
    and len: "unat (va - PGROUNDDOWN va) + length bs \<le> 4096"
  defines "s' \<equiv> wr (tr s (PGROUNDDOWN va) + (va - PGROUNDDOWN va)) bs s"
  shows "vread (tr s') (rd s') = vwrite va bs (vread (tr s) (rd s))" "wf s'" "tr s' = tr s"
proof -
  let ?p = "PGROUNDDOWN va" and ?off = "unat (va - PGROUNDDOWN va)"
  have s': "s' = wr (tr s ?p + of_nat ?off) bs s" unfolding s'_def by simp
  show "wf s'" and tr': "tr s' = tr s"
    unfolding s' using s len tr_wr wf_wr page_aligned_PGROUNDDOWN by blast+
  show "vread (tr s') (rd s') = vwrite va bs (vread (tr s) (rd s))"
  proof
    fix x
    have rd': "rd s' y = (if unat (y - (tr s ?p + (va - ?p))) < length bs
        then bs ! unat (y - (tr s ?p + (va - ?p))) else rd s y)" for y
      unfolding s'_def rd_wr mstore_def by simp
    show "vread (tr s') (rd s') x = vwrite va bs (vread (tr s) (rd s)) x"
    proof (cases "PGROUNDDOWN x = ?p")
      case True
      then have "tr s (PGROUNDDOWN x) + (x - PGROUNDDOWN x) - (tr s ?p + (va - ?p)) = x - va" by simp
      with True s show ?thesis by (simp add: vread_def vwrite_def tr' rd')
    next
      case False
      have out: "\<not> unat (x - va) < length bs"
      proof
        assume lt: "unat (x - va) < length bs"
        have "x = ?p + of_nat (?off + unat (x - va))" by simp
        moreover have "?off + unat (x - va) < 4096" using lt len by simp
        ultimately have "in_page ?p x" by (metis in_page_offset)
        then show False using False by (simp add: in_page_iff)
      qed
      have "rd s' y = rd s y" if y: "y = tr s (PGROUNDDOWN x) + (x - PGROUNDDOWN x)"
        "tr s (PGROUNDDOWN x) \<noteq> 0" for y
      proof -
        have ne: "tr s (PGROUNDDOWN x) \<noteq> tr s ?p"
          using False s y(2) tr_inj page_aligned_PGROUNDDOWN by metis
        have "in_page (tr s (PGROUNDDOWN x)) y"
          unfolding y(1) by (metis in_page_offset page_offset_less page_offset add_diff_cancel_left')
        then have "\<not> in_page (tr s ?p) y"
          using ne s y(2) tr_aligned in_page_unique page_aligned_PGROUNDDOWN by metis
        then show ?thesis unfolding s' rd_wr using len by (intro mstore_off_page)
      qed
      then show ?thesis using out by (simp add: vread_def vwrite_def tr')
    qed
  qed
qed

end

definition user_pte :: "uint64 \<Rightarrow> bool" where
  "user_pte e \<longleftrightarrow> e AND PTE_V \<noteq> 0 \<and> e AND PTE_U \<noteq> 0"

lemma walkaddr_eq:
  "walkaddr pt va s =
     (if va < MAXVA \<and> user_pte (lookup (mem s) pt va) then PTE2PA (lookup (mem s) pt va) else 0)"
proof (cases "va < MAXVA")
  case True
  then show ?thesis
    by (cases "node (mem s) pt [PX 2 va, PX 1 va]")
      (auto simp: walkaddr_def walk_below walk_from_noalloc node_idxs_2 lookup_def user_pte_def Let_def
            simp del: node.simps)
qed (auto simp: walkaddr_def)

text \<open>
  A user address space: a well-formed page table whose user pages are valid pages, neither free
  nor page-table pages, each mapped at one virtual page only.
\<close>

definition user_wf :: "'a kmem_scheme \<Rightarrow> uint64 list \<Rightarrow> uint64 \<Rightarrow> bool" where
  "user_wf s ps pt \<longleftrightarrow> kmem_inv s ps \<and> pt_wf s ps pt \<and>
     (\<forall>va<MAXVA. user_pte (lookup (mem s) pt va) \<longrightarrow>
        (let p = PTE2PA (lookup (mem s) pt va) in
         valid_page s p \<and> p \<notin> set ps \<and> p \<notin> ptnodes (mem s) pt \<and>
         (\<forall>vb<MAXVA. user_pte (lookup (mem s) pt vb) \<and> PTE2PA (lookup (mem s) pt vb) = p
            \<longrightarrow> PGROUNDDOWN vb = PGROUNDDOWN va)))"

lemma user_wf_walkaddr:
  assumes "user_wf s ps pt" "walkaddr pt va s \<noteq> 0"
  shows "valid_page s (walkaddr pt va s)" "walkaddr pt va s \<notin> set ps"
    "walkaddr pt va s \<notin> ptnodes (mem s) pt"
    "walkaddr pt va s = walkaddr pt vb s \<Longrightarrow> PGROUNDDOWN va = PGROUNDDOWN vb"
proof -
  have e: "va < MAXVA \<and> user_pte (lookup (mem s) pt va) \<and> walkaddr pt va s = PTE2PA (lookup (mem s) pt va)"
    if "walkaddr pt va s \<noteq> 0" for va
    using that by (simp add: walkaddr_eq split: if_splits)
  note wf = assms(1) [unfolded user_wf_def Let_def, THEN conjunct2, THEN conjunct2, rule_format]
  show "valid_page s (walkaddr pt va s)" "walkaddr pt va s \<notin> set ps"
    "walkaddr pt va s \<notin> ptnodes (mem s) pt"
    using wf [of va] e [OF assms(2)] by simp_all
  assume eq: "walkaddr pt va s = walkaddr pt vb s"
  have va: "va < MAXVA" "user_pte (lookup (mem s) pt va)" "walkaddr pt va s = PTE2PA (lookup (mem s) pt va)"
    using e [OF assms(2)] by blast+
  have vb: "vb < MAXVA" "user_pte (lookup (mem s) pt vb)" "walkaddr pt vb s = PTE2PA (lookup (mem s) pt vb)"
    using e [of vb] assms(2) eq by metis+
  from wf [OF vb(1,2)] have "\<forall>x<MAXVA. user_pte (lookup (mem s) pt x) \<and>
      PTE2PA (lookup (mem s) pt x) = PTE2PA (lookup (mem s) pt vb) \<longrightarrow> PGROUNDDOWN x = PGROUNDDOWN vb"
    by blast
  with va vb eq show "PGROUNDDOWN va = PGROUNDDOWN vb" by metis
qed

lemma user_store:
  assumes wf: "user_wf s ps pt" and p: "walkaddr pt va s \<noteq> 0" and len: "off + length bs \<le> 4096"
  defines "s' \<equiv> s\<lparr>mem := mstore (walkaddr pt va s + of_nat off) bs (mem s)\<rparr>"
  shows "(\<lambda>vb. walkaddr pt vb s') = (\<lambda>vb. walkaddr pt vb s)" "user_wf s' ps pt"
proof -
  let ?p = "walkaddr pt va s"
  have al: "page_aligned ?p" using user_wf_walkaddr(1) [OF wf p] by (simp add: valid_page_def)
  have fr: "mem s' x = mem s x" if "PGROUNDDOWN x \<noteq> ?p" for x
    unfolding s'_def using that al len by (simp add: mstore_off_page in_page_iff)
  have keep: "mem s' x = mem s x" if "PGROUNDDOWN x \<in> ptnodes (mem s) pt" for x
    using fr that user_wf_walkaddr(3) [OF wf p] by metis
  have inv: "kmem_inv s ps" "pt_wf s ps pt" using wf by (simp_all add: user_wf_def)
  have l: "lookup (mem s') pt vb = lookup (mem s) pt vb" for vb
    by (rule lookup_frame [OF _ inv(2)]) (erule keep)
  show "(\<lambda>vb. walkaddr pt vb s') = (\<lambda>vb. walkaddr pt vb s)"
    by (rule ext) (simp only: walkaddr_eq l)
  have "kmem_inv s' ps"
  proof (rule kmem_inv_frame [OF inv(1)])
    fix x assume "PGROUNDDOWN x \<in> set ps"
    then have "PGROUNDDOWN x \<noteq> ?p" using user_wf_walkaddr(2) [OF wf p] by metis
    then show "mem s' x = mem s x" by (rule fr)
  qed (simp_all add: s'_def)
  moreover have k: "kend s' = kend s" by (simp add: s'_def)
  have "pt_wf s' ps pt"
    by (rule pt_wf_frame(1) [OF _ inv(2) k]) (erule keep, blast)
  moreover have "ptnodes (mem s') pt = ptnodes (mem s) pt"
    by (rule pt_wf_frame(2) [OF _ inv(2) k, of ps]) (erule keep, blast)
  moreover have "valid_page s' = valid_page s" by (rule ext) (simp add: valid_page_def k)
  ultimately show "user_wf s' ps pt"
    using wf [unfolded user_wf_def, THEN conjunct2, THEN conjunct2]
    by (simp only: user_wf_def l simp_thms)
qed

interpretation um: paged_memory "\<lambda>s va. walkaddr pt va s" mem "\<lambda>a bs s. s\<lparr>mem := mstore a bs (mem s)\<rparr>"
  "\<lambda>s. user_wf s ps pt" for pt ps
proof (unfold_locales, goal_cases)
  case (1 a bs s) then show ?case by simp
next
  case (2 s va) then show ?case using user_wf_walkaddr(1) [of s ps pt va] by (simp add: valid_page_def)
next
  case (3 s va vb)
  then show ?case using user_wf_walkaddr(4) [of s ps pt va vb] by simp
next
  case (4 s va off bs) then show ?case by (intro user_store)
next
  case (5 s va off bs) then show ?case by (intro user_store)
qed

section \<open>copyout and copyin\<close>

abbreviation uview :: "uint64 \<Rightarrow> 'a kmem_scheme \<Rightarrow> uint64 \<Rightarrow> byte option" where
  "uview pt s \<equiv> vread (\<lambda>va. walkaddr pt va s) (mem s)"

definition umapped :: "uint64 \<Rightarrow> 'a kmem_scheme \<Rightarrow> uint64 \<Rightarrow> nat \<Rightarrow> bool" where
  "umapped pt s va n \<longleftrightarrow> (\<forall>i<n. uview pt s (va + of_nat i) \<noteq> None)"

lemma vwrite_Nil [simp]: "vwrite va [] f = f"
  by (simp add: vwrite_def)

lemma vwrite_append:
  assumes "length bs + length cs < 2 ^ 64"
  shows "vwrite (va + of_nat (length bs)) cs (vwrite va bs f) = vwrite va (bs @ cs) f"
proof
  fix x
  define d where "d = x - va"
  have u: "unat (of_nat (length bs) :: uint64) = length bs" using assms by (simp add: unat_of_nat)
  have xd: "x - (va + of_nat (length bs)) = d - of_nat (length bs)" by (simp add: d_def)
  have e: "unat (x - (va + of_nat (length bs))) =
      (if length bs \<le> unat d then unat d - length bs else unat d + 2 ^ 64 - length bs)"
    unfolding xd by (simp add: unat_sub_if' u)
  show "vwrite (va + of_nat (length bs)) cs (vwrite va bs f) x = vwrite va (bs @ cs) f x"
    using assms unfolding vwrite_def e d_def [symmetric] by (auto simp: nth_append)
qed

lemma chunk_end:
  assumes "chunk va len < len"
  shows "PGROUNDDOWN va + PGSIZE = va + of_nat (chunk va len)"
proof -
  have c: "unat (va - PGROUNDDOWN va) + chunk va len = 4096"
    using assms page_offset_less [of va] by (simp add: chunk_def)
  have "va + of_nat (chunk va len) = PGROUNDDOWN va + of_nat (unat (va - PGROUNDDOWN va) + chunk va len)"
    by simp
  then show ?thesis unfolding c by simp
qed

lemma chunk_fits: "unat (va - PGROUNDDOWN va) + chunk va len \<le> 4096"
  using page_offset_less [of va] by (simp add: chunk_def)

lemma umapped_0 [simp]: "umapped pt s va 0"
  by (simp add: umapped_def)

lemma all_less_add: "(\<forall>i<n + k. P i) \<longleftrightarrow> (\<forall>i<n. P i) \<and> (\<forall>i<k. P (n + i))" for n k :: nat
proof safe
  fix i assume a: "\<forall>i<n. P i" "\<forall>i<k. P (n + i)" "i < n + k"
  show "P i"
  proof (cases "i < n")
    case False
    then have "P (n + (i - n))" using a by (intro a(2) [rule_format]) simp
    with False show ?thesis by simp
  qed (use a in simp)
qed simp_all

lemma umapped_add:
  "umapped pt s va (n + k) \<longleftrightarrow> umapped pt s va n \<and> umapped pt s (va + of_nat n) k"
  unfolding umapped_def all_less_add by (simp add: add.assoc)

lemma uview_chunk:
  assumes "walkaddr pt (PGROUNDDOWN va) s \<noteq> 0" "i < chunk va len"
  shows "uview pt s (va + of_nat i) =
    Some (mem s (walkaddr pt (PGROUNDDOWN va) s + (va - PGROUNDDOWN va) + of_nat i))"
proof -
  have "unat (va - PGROUNDDOWN va) + i < 4096"
    using assms(2) chunk_fits [of va len] by simp
  moreover have "va + of_nat i = PGROUNDDOWN va + of_nat (unat (va - PGROUNDDOWN va) + i)" by simp
  ultimately have "PGROUNDDOWN (va + of_nat i) = PGROUNDDOWN va"
    by (metis in_page_offset in_page_iff page_aligned_PGROUNDDOWN)
  with assms(1) show ?thesis by (simp add: vread_def algebra_simps)
qed

lemma umapped_chunk:
  assumes "walkaddr pt (PGROUNDDOWN va) s \<noteq> 0"
  shows "umapped pt s va len \<longleftrightarrow> umapped pt s (PGROUNDDOWN va + PGSIZE) (len - chunk va len)"
proof -
  have c: "umapped pt s va (chunk va len)"
    unfolding umapped_def using uview_chunk [OF assms] by simp
  show ?thesis
  proof (cases "chunk va len < len")
    case True
    then show ?thesis
      using umapped_add [of pt s va "chunk va len" "len - chunk va len"] c chunk_end [OF True] by simp
  next
    case False
    then have "chunk va len = len" using chunk_le [of va len] by simp
    with c show ?thesis by simp
  qed
qed

lemma umapped_untranslated:
  assumes "walkaddr pt (PGROUNDDOWN va) s = 0" "0 < len"
  shows "\<not> umapped pt s va len"
proof -
  have "uview pt s (va + of_nat 0) = None" using assms by (simp add: vread_def)
  with assms(2) show ?thesis unfolding umapped_def by blast
qed

lemma copyout_ok:
  assumes "user_wf s ps pt" "length src < 2 ^ 64"
  shows "\<exists>s'. copyout pt va src s = (if umapped pt s va (length src) then 0 else -1, s') \<and>
    user_wf s' ps pt \<and>
    (umapped pt s va (length src) \<longrightarrow> uview pt s' = vwrite va src (uview pt s))"
  using assms
proof (induction pt va src s rule: copyout.induct)
  case (1 pt va src s)
  define n where "n = chunk va (length src)"
  let ?p = "walkaddr pt (PGROUNDDOWN va) s"
  let ?s1 = "s\<lparr>mem := mstore (?p + (va - PGROUNDDOWN va)) (take n src) (mem s)\<rparr>"
  consider "src = []" | "src \<noteq> []" "?p = 0" | "src \<noteq> []" "?p \<noteq> 0" by blast
  then show ?case
  proof cases
    case 2
    then have "\<not> umapped pt s va (length src)" by (intro umapped_untranslated) simp_all
    moreover have "copyout pt va src s = (-1, s)" using 2 by (simp add: copyout.simps [of pt va])
    ultimately show ?thesis using "1.prems" by simp
  next
    case 3
    have n: "0 < n" "n \<le> length src" using 3 by (simp_all add: n_def chunk_pos chunk_le)
    have "unat (va - PGROUNDDOWN va) + length (take n src) \<le> 4096"
      using chunk_fits [of va "length src"] n by (simp add: n_def)
    note w = um.vread_wr [OF "1.prems"(1) 3(2) this]
    have co: "copyout pt va src s = copyout pt (PGROUNDDOWN va + PGSIZE) (drop n src) ?s1"
      using 3 by (simp add: copyout.simps [of pt va] n_def Let_def)
    have len: "length (drop n src) < 2 ^ 64" using "1.prems"(2) by simp
    have dom: "umapped pt ?s1 = umapped pt s"
      using fun_cong [OF w(3)] by (intro ext) (simp add: umapped_def vread_def)
    have eq: "umapped pt ?s1 (PGROUNDDOWN va + PGSIZE) (length (drop n src)) = umapped pt s va (length src)"
      unfolding dom using umapped_chunk [OF 3(2), of "length src"] by (simp add: n_def)
    have IH: "\<exists>s'. copyout pt (PGROUNDDOWN va + PGSIZE) (drop n src) ?s1 =
        (if umapped pt s va (length src) then 0 else -1, s') \<and> user_wf s' ps pt \<and>
      (umapped pt s va (length src) \<longrightarrow>
         uview pt s' = vwrite (PGROUNDDOWN va + PGSIZE) (drop n src) (uview pt ?s1))"
      using "1.IH" [OF 3(1) refl refl 3(2) n_def refl w(2) len] unfolding eq .
    have "vwrite (PGROUNDDOWN va + PGSIZE) (drop n src) (uview pt ?s1) = vwrite va src (uview pt s)"
    proof (cases "n < length src")
      case True
      then have "PGROUNDDOWN va + PGSIZE = va + of_nat n" unfolding n_def by (rule chunk_end)
      then show ?thesis
        using vwrite_append [of "take n src" "drop n src" va "uview pt s"] "1.prems"(2) n w(1) by simp
    qed (use n w(1) in simp)
    with IH show ?thesis unfolding co by simp
  qed (use "1.prems" in \<open>simp add: copyout.simps\<close>)
qed

lemma copyin_ok:
  "case copyin pt va len s of (r, bs) \<Rightarrow>
     r = (if umapped pt s va len then 0 else -1) \<and>
     (umapped pt s va len \<longrightarrow> map Some bs = map (\<lambda>i. uview pt s (va + of_nat i)) [0..<len])"
proof (induction pt va len s rule: copyin.induct)
  case (1 pt va len s)
  define n where "n = chunk va len"
  let ?p = "walkaddr pt (PGROUNDDOWN va) s"
  consider "len = 0" | "len \<noteq> 0" "?p = 0" | "len \<noteq> 0" "?p \<noteq> 0" by blast
  then show ?case
  proof cases
    case 2
    then have "\<not> umapped pt s va len" by (intro umapped_untranslated) simp_all
    moreover have "copyin pt va len s = (-1, [])" using 2 by (simp add: copyin.simps [of pt va])
    ultimately show ?thesis by simp
  next
    case 3
    have n: "0 < n" "n \<le> len" using 3 by (simp_all add: n_def chunk_pos chunk_le)
    obtain r rest where rest: "copyin pt (PGROUNDDOWN va + PGSIZE) (len - n) s = (r, rest)" by fastforce
    have ci: "copyin pt va len s = (r, mload n (?p + (va - PGROUNDDOWN va)) (mem s) @ rest)"
      using 3 rest by (simp add: copyin.simps [of pt va] n_def Let_def)
    have IH: "r = (if umapped pt s va len then 0 else -1)"
      "umapped pt s va len \<Longrightarrow>
        map Some rest = map (\<lambda>i. uview pt s (PGROUNDDOWN va + PGSIZE + of_nat i)) [0..<len - n]"
      using "1.IH" [OF 3(1) refl refl 3(2) n_def] rest
      unfolding umapped_chunk [OF 3(2), of len] n_def by auto
    have m: "map Some (mload n (?p + (va - PGROUNDDOWN va)) (mem s)) =
        map (\<lambda>i. uview pt s (va + of_nat i)) [0..<n]"
      using uview_chunk [OF 3(2), of _ len] by (simp add: mload_def n_def)
    have "map (\<lambda>i. uview pt s (PGROUNDDOWN va + PGSIZE + of_nat i)) [0..<len - n] =
        map (\<lambda>i. uview pt s (va + of_nat i)) [n..<len]"
    proof (cases "n < len")
      case True
      then have nx: "PGROUNDDOWN va + PGSIZE = va + of_nat n" unfolding n_def by (rule chunk_end)
      show ?thesis
        unfolding nx by (rule nth_equalityI) (simp_all add: add.assoc del: of_nat_add add: of_nat_add [symmetric])
    qed simp
    moreover have "[0..<len] = [0..<n] @ [n..<len]" using upt_add_eq_append [of 0 n "len - n"] n by simp
    ultimately show ?thesis unfolding ci using IH m by simp
  qed (simp add: copyin.simps)
qed

text \<open>The view depends on memory alone.\<close>

lemma uview_cong: "mem s' = mem s \<Longrightarrow> uview pt s' = uview pt s"
  by (simp add: walkaddr_eq cong: if_cong)

lemma umapped_cong: "mem s' = mem s \<Longrightarrow> umapped pt s' va n = umapped pt s va n"
  unfolding umapped_def by (drule uview_cong [where pt = pt]) simp

lemma user_wf_cong:
  "mem s' = mem s \<Longrightarrow> freelist s' = freelist s \<Longrightarrow> kend s' = kend s \<Longrightarrow> user_wf s' ps pt = user_wf s ps pt"
  by (simp add: user_wf_def kmem_inv_def pt_wf_def valid_page_def)

text \<open>The bytes of the user's memory from \<open>va\<close> on.\<close>

definition user_bytes :: "uint64 \<Rightarrow> 'a kmem_scheme \<Rightarrow> uint64 \<Rightarrow> nat \<Rightarrow> byte list" where
  "user_bytes pt s va n = map (\<lambda>i. the (uview pt s (va + of_nat i))) [0..<n]"

text \<open>
  C3. \<open>copyout\<close> writes the user's memory and nothing else of it: in a well-formed address
  space, when every destination byte is mapped for the user, it returns 0, and the user's view of
  its memory is the old one overwritten with the bytes at the destination; the address space stays
  well formed. When some destination byte is not mapped it returns -1.
\<close>

theorem copyout_correct:
  assumes "user_wf s ps pt" "length src < 2 ^ 64"
  shows "\<exists>s'. copyout pt va src s = (if umapped pt s va (length src) then 0 else -1, s') \<and>
    user_wf s' ps pt \<and>
    (umapped pt s va (length src) \<longrightarrow> uview pt s' = vwrite va src (uview pt s))"
  by (rule copyout_ok [OF assms])

text \<open>
  C4. \<open>copyin\<close> reads the user's view of memory: it returns 0 exactly when every source byte
  is mapped for the user, and then the bytes it delivers are those of the view.
\<close>

theorem copyin_correct:
  "case copyin pt va len s of (r, bs) \<Rightarrow>
     r = (if umapped pt s va len then 0 else -1) \<and>
     (umapped pt s va len \<longrightarrow> map Some bs = map (\<lambda>i. uview pt s (va + of_nat i)) [0..<len])"
  by (rule copyin_ok)

section \<open>Concrete instances\<close>

text \<open>
  An address space with one user page: the page-table pages \<^verbatim>\<open>0x87FFC000\<close>,
  \<^verbatim>\<open>0x87FFD000\<close> and \<^verbatim>\<open>0x87FFE000\<close> map virtual page 0 to
  \<^verbatim>\<open>0x87FFF000\<close> with flags \<^verbatim>\<open>PTE_V|PTE_R|PTE_W|PTE_U\<close> (23); one page is free.
\<close>

definition demo_as :: kmem where
  "demo_as = \<lparr>mem = store64 0x87FFC000 (PA2PTE 0x87FFD000 OR PTE_V)
      (store64 0x87FFD000 (PA2PTE 0x87FFE000 OR PTE_V)
      (store64 0x87FFE000 (PA2PTE 0x87FFF000 OR 23) (\<lambda>_. 0))),
    freelist = 0x87FFB000, kend = 0x87FFB000\<rparr>"

lemma demo_slot:
  assumes "page_aligned q" "i < 512"
  shows "load64 (mem demo_as) (q + 8 * i) =
    (if i \<noteq> 0 then 0
     else if q = 0x87FFC000 then PA2PTE 0x87FFD000 OR PTE_V
     else if q = 0x87FFD000 then PA2PTE 0x87FFE000 OR PTE_V
     else if q = 0x87FFE000 then PA2PTE 0x87FFF000 OR 23
     else 0)"
proof -
  have st: "load64 (store64 p v m) (q + 8 * i) = (if p = q \<and> i = 0 then v else load64 m (q + 8 * i))"
    if "page_aligned p" for p v m
    using load64_store64_slot [OF that assms(1) _ assms(2), of 0] by auto
  show ?thesis
  proof (cases "i = 0")
    case True
    with st have "load64 (store64 p v m) q = (if p = q then v else load64 m q)" if "page_aligned p" for p v m
      using that by fastforce
    with True show ?thesis by (simp add: demo_as_def page_aligned_def)
  next
    case False
    with st have "load64 (store64 p v m) (q + 8 * i) = load64 m (q + 8 * i)" if "page_aligned p" for p v m
      using that by simp
    with False show ?thesis by (simp add: demo_as_def page_aligned_def)
  qed
qed

lemma demo_child:
  assumes "i < 512"
  shows "child (mem demo_as) 0x87FFC000 i = (if i = 0 then Some 0x87FFD000 else None)"
    "child (mem demo_as) 0x87FFD000 i = (if i = 0 then Some 0x87FFE000 else None)"
  using demo_slot [of "0x87FFC000" i] demo_slot [of "0x87FFD000" i] assms
  by (simp_all add: child_def page_aligned_def PA2PTE_valid PTE2PA_PA2PTE PGROUNDDOWN_eq)

lemma demo_node:
  assumes "tpath path"
  shows "node (mem demo_as) 0x87FFC000 path =
    (if path = [] then Some 0x87FFC000 else if path = [0] then Some 0x87FFD000
     else if path = [0, 0] then Some 0x87FFE000 else None)"
proof -
  consider "path = []" | i where "path = [i]" "i < 512" | i j where "path = [i, j]" "i < 512" "j < 512"
    using assms unfolding tpath_def
    by (cases path; cases "tl path"; cases "tl (tl path)") auto
  then show ?thesis by cases (auto simp: demo_child)
qed

lemma demo_ptnodes: "ptnodes (mem demo_as) 0x87FFC000 = {0x87FFC000, 0x87FFD000, 0x87FFE000}"
proof -
  have t: "tpath []" "tpath [0]" "tpath [0, 0]" by (simp_all add: tpath_def)
  show ?thesis
  proof
    show "ptnodes (mem demo_as) 0x87FFC000 \<subseteq> {0x87FFC000, 0x87FFD000, 0x87FFE000}"
      by (auto simp: ptnodes_def demo_node split: if_splits)
    show "{0x87FFC000, 0x87FFD000, 0x87FFE000} \<subseteq> ptnodes (mem demo_as) 0x87FFC000"
      using t [THEN demo_node] t by (auto simp del: node.simps intro: t [THEN ptnodesI])
  qed
qed

lemma demo_as_pt_wf: "pt_wf demo_as [0x87FFB000] 0x87FFC000"
  unfolding pt_wf_def demo_ptnodes
  by (auto simp: demo_node valid_page_def page_aligned_def demo_as_def [THEN arg_cong [of _ _ kend]]
      split: if_splits)

lemma demo_as_kmem_inv: "kmem_inv demo_as [0x87FFB000]"
  using demo_slot [of "0x87FFB000" 0]
  by (simp add: kmem_inv_def demo_as_def valid_page_def page_aligned_def)

lemma demo_lookup:
  assumes "va < MAXVA"
  shows "lookup (mem demo_as) 0x87FFC000 va =
    (if PGROUNDDOWN va = 0 then PA2PTE 0x87FFF000 OR 23 else 0)"
proof -
  have PX0: "PX l 0 = 0" for l by (simp add: PX_def)
  have "PGROUNDDOWN va = 0 \<longleftrightarrow> PX 2 va = 0 \<and> PX 1 va = 0 \<and> PX 0 va = 0"
    using page_of_eq_PX [OF assms, of 0] by (simp add: PX0 PGROUNDDOWN_eq)
  moreover have "load64 (mem demo_as) (0x87FFE000 + 8 * PX 0 va) =
      (if PX 0 va = 0 then PA2PTE 0x87FFF000 OR 23 else 0)"
    using demo_slot [of "0x87FFE000" "PX 0 va"] PX_less [of 0 va] by (simp add: page_aligned_def)
  ultimately show ?thesis
    unfolding lookup_def demo_node [OF tpath_PX(1)] by (cases "PX 0 va = 0") simp_all
qed

lemma demo_pte: "user_pte (PA2PTE 0x87FFF000 OR 23)"
  "PTE2PA (PA2PTE 0x87FFF000 OR 23) = 0x87FFF000"
  "is_leaf (PA2PTE 0x87FFF000 OR 23)"
  by (simp_all add: user_pte_def PA2PTE_def PTE2PA_def is_leaf_def PTE_FLAGS_def)

lemma demo_user_wf: "user_wf demo_as [0x87FFB000] 0x87FFC000"
  unfolding user_wf_def Let_def
  using demo_as_kmem_inv demo_as_pt_wf
  by (auto simp: demo_lookup demo_pte(2) demo_ptnodes user_pte_def [of 0]
      valid_page_def page_aligned_def demo_as_def [THEN arg_cong [of _ _ kend]] split: if_splits)

lemma demo_can_free: "can_free demo_as [0x87FFB000] 0x87FFC000 0 1"
  by (simp add: can_free_def leaf_pages_def demo_lookup PGROUNDDOWN_eq demo_pte(2) demo_ptnodes
      valid_page_def page_aligned_def demo_as_def [THEN arg_cong [of _ _ kend]])

theorem mappages_correct_witness:
  "\<exists>k s' ps'. mappages 0x87FFC000 0x1000 0x1000 0x87FFB000 PTE_R demo_as =
      Ok (if k = 1 then 0 else -1, s') \<and> k \<le> 1 \<and> pt_keep 0x87FFC000 demo_as [0x87FFB000] s' ps' \<and>
      (\<forall>vb<MAXVA. lookup (mem s') 0x87FFC000 vb =
         map_range 0x1000 k 0x87FFB000 PTE_R (lookup (mem demo_as) 0x87FFC000) vb)"
proof -
  have n: "npages 0x1000 0x1000 = 1" by (simp add: npages_def)
  have pg: "PGROUNDDOWN 0x1000 = 0x1000" by (simp add: PGROUNDDOWN_eq)
  have free: "\<forall>k<1. lookup (mem demo_as) 0x87FFC000 (0x1000 + 4096 * of_nat k) AND PTE_V = 0"
    by (simp add: demo_lookup PGROUNDDOWN_eq)
  have nz: "(0x1000 :: uint64) \<noteq> 0" "unat (0x1000 :: uint64) + unat (0x1000 :: uint64) \<le> unat (MAXVA :: uint64)"
    by simp_all
  show ?thesis
    using mappages_correct [OF demo_as_kmem_inv demo_as_pt_wf nz, unfolded n pg, OF free] by blast
qed

theorem uvmunmap_correct_witness:
  "\<exists>s'. uvmunmap 0x87FFC000 0 1 True demo_as = Ok s' \<and> kmem_inv s' [0x87FFF000, 0x87FFB000] \<and>
     lookup (mem s') 0x87FFC000 5 = 0"
proof -
  have "leaf_pages (mem demo_as) 0x87FFC000 0 1 = [0x87FFF000]"
    by (simp add: leaf_pages_def demo_lookup PGROUNDDOWN_eq demo_pte(2))
  moreover have "unmap_range 0 1 (lookup (mem demo_as) 0x87FFC000) 5 = 0" by (simp add: unmap_range_def)
  moreover have "is_leaf (lookup (mem demo_as) 0x87FFC000 0)"
    using demo_pte(3) by (simp add: demo_lookup PGROUNDDOWN_eq)
  ultimately show ?thesis
    using uvmunmap_correct [OF demo_as_kmem_inv demo_as_pt_wf, of 0 1 True] demo_can_free
    by (auto simp: page_aligned_def)
qed

theorem copyout_correct_witness:
  "\<exists>s'. copyout 0x87FFC000 5 [1, 2] demo_as = (0, s') \<and> user_wf s' [0x87FFB000] 0x87FFC000 \<and>
     uview 0x87FFC000 s' 6 = Some 2"
proof -
  have "umapped 0x87FFC000 demo_as 5 (length [1 :: byte, 2])"
    using demo_pte(1,2) by (auto simp: umapped_def vread_def walkaddr_eq demo_lookup PGROUNDDOWN_eq less_Suc_eq)
  moreover have "vwrite 5 [1, 2] (uview 0x87FFC000 demo_as) 6 = Some 2" by (simp add: vwrite_def)
  ultimately show ?thesis
    using copyout_correct [OF demo_user_wf, of "[1, 2]" 5] by auto
qed

theorem copyin_correct_witness:
  "case copyin 0x87FFC000 5 2 demo_as of (r, bs) \<Rightarrow> r = 0 \<and> length bs = 2"
proof -
  have "umapped 0x87FFC000 demo_as 5 (Suc (Suc 0))"
    using demo_pte(1,2) by (auto simp: umapped_def vread_def walkaddr_eq demo_lookup PGROUNDDOWN_eq less_Suc_eq)
  then show ?thesis
    using copyin_correct [where pt = "0x87FFC000" and va = 5 and len = "Suc (Suc 0)" and s = demo_as]
    unfolding numeral_2_eq_2 by (auto split: prod.splits dest: arg_cong [of _ _ length])
qed

end
