(* ===== verification/Vm_Frame.thy ===== *)
theory Vm_Frame
  imports Vm
begin

text \<open>
  The allocator and the virtual-memory functions touch only memory and the free list: every field
  that a later component adds to the kernel state, and the end of the kernel, stay as they are.
\<close>

definition kframe :: "'a kmem_scheme \<Rightarrow> 'a kmem_scheme \<Rightarrow> bool" where
  "kframe s s' \<longleftrightarrow> kmem.more s' = kmem.more s \<and> kend s' = kend s"

lemma kframe_refl [simp]: "kframe s s"
  by (simp add: kframe_def)

lemma kframe_trans: "kframe s s1 \<Longrightarrow> kframe s1 s2 \<Longrightarrow> kframe s s2"
  by (simp add: kframe_def)

lemma kframe_mem [simp]: "kframe s (s1\<lparr>mem := m\<rparr>) \<longleftrightarrow> kframe s s1"
  "kframe (s\<lparr>mem := m\<rparr>) s1 \<longleftrightarrow> kframe s s1"
  by (simp_all add: kframe_def)

lemma kframe_kalloc: "kalloc s = (p, s') \<Longrightarrow> kframe s s'"
  by (auto simp: kalloc_def Let_def kframe_def split: if_splits)

lemma kframe_kfree: "kfree p s = Ok s' \<Longrightarrow> kframe s s'"
  by (auto simp: kfree_def Let_def kframe_def split: if_splits)

lemma kframe_walk_from: "walk_from l pt va al s = (r, s') \<Longrightarrow> kframe s s'"
proof (induction l pt va al s rule: walk_from.induct)
  case (2 level pagetable va alloc s)
  show ?case
  proof (cases "load64 (mem s) (pagetable + 8 * PX (Suc level) va) AND PTE_V \<noteq> 0 \<or> \<not> alloc")
    case True
    with 2 show ?thesis by (auto simp: Let_def split: if_splits)
  next
    case False
    obtain p s1 where al: "kalloc s = (p, s1)" by fastforce
    with False 2 kframe_kalloc [OF al] show ?thesis
      by (auto simp: Let_def split: if_splits intro: kframe_trans)
  qed
qed simp

lemma kframe_walk: "walk pt va al s = Ok (r, s') \<Longrightarrow> kframe s s'"
  by (auto simp: walk_def kframe_walk_from split: if_splits)

lemma kframe_mappages_loop: "mappages_loop pt a z pa perm s = Ok (r, s') \<Longrightarrow> kframe s s'"
proof (induction pt a z pa perm s arbitrary: r s' rule: mappages_loop.induct)
  case (1 pt a z pa perm s)
  from "1.prems" obtain r1 s1 where w: "walk pt a True s = Ok (r1, s1)"
    by (auto simp: mappages_loop.simps [of pt a])
  with "1.prems" "1.IH" [OF w refl] kframe_walk [OF w] show ?case
    by (fastforce simp: mappages_loop.simps [of pt a] Let_def intro: kframe_trans split: option.splits if_splits)
qed

lemma kframe_mappages: "mappages pt va sz pa perm s = Ok (r, s') \<Longrightarrow> kframe s s'"
  by (auto simp: mappages_def kframe_mappages_loop split: if_splits)

lemma kframe_kvmmap: "kvmmap pt va pa sz perm s = Ok s' \<Longrightarrow> kframe s s'"
  by (auto simp: kvmmap_def kframe_mappages split: if_splits)

lemma kframe_uvmunmap_loop: "uvmunmap_loop pt a stop df s = Ok s' \<Longrightarrow> kframe s s'"
proof (induction pt a stop df s arbitrary: s' rule: uvmunmap_loop.induct)
  case (1 pt a stop df s)
  show ?case
  proof (cases "a < stop")
    case True
    with "1.prems" obtain r1 s1 where w: "walk pt a False s = Ok (r1, s1)"
      by (auto simp: uvmunmap_loop.simps [of pt a])
    with "1.prems" True obtain pte s2 where r1: "r1 = Some pte"
      and f: "(if df then kfree (PTE2PA (load64 (mem s1) pte)) s1 else Ok s1) = Ok s2"
      and v: "load64 (mem s1) pte AND PTE_V \<noteq> 0" "PTE_FLAGS (load64 (mem s1) pte) \<noteq> PTE_V"
      and l: "uvmunmap_loop pt (a + PGSIZE) stop df (s2\<lparr>mem := store64 pte 0 (mem s2)\<rparr>) = Ok s'"
      by (auto simp: uvmunmap_loop.simps [of pt a] Let_def split: option.splits if_splits)
    have "kframe s1 s2" using f kframe_kfree by (auto split: if_splits)
    moreover have "kframe s2 s'"
      using "1.IH" [OF True w refl r1 refl v f l] by simp
    ultimately show ?thesis using kframe_walk [OF w] by (blast intro: kframe_trans)
  qed (use "1.prems" in \<open>simp add: uvmunmap_loop.simps [of pt a]\<close>)
qed

lemma kframe_uvmunmap: "uvmunmap pt a n df s = Ok s' \<Longrightarrow> kframe s s'"
  by (auto simp: uvmunmap_def kframe_uvmunmap_loop split: if_splits)

lemma kframe_uvmcreate: "uvmcreate s = (pt, s') \<Longrightarrow> kframe s s'"
  by (auto simp: uvmcreate_def split: prod.splits if_splits dest: kframe_kalloc)

lemma kframe_uvmdealloc: "uvmdealloc pt o' n s = Ok (r, s') \<Longrightarrow> kframe s s'"
  by (auto simp: uvmdealloc_def Let_def split: if_splits dest: kframe_uvmunmap)

lemma kframe_uvmalloc_loop: "uvmalloc_loop pt a o' n s = Ok (r, s') \<Longrightarrow> kframe s s'"
proof (induction pt a o' n s arbitrary: r s' rule: uvmalloc_loop.induct)
  case (1 pt a o' n s)
  obtain p s1 where al: "kalloc s = (p, s1)" by fastforce
  note k = kframe_kalloc [OF al]
  show ?case
  proof (cases "a < n \<and> p \<noteq> 0")
    case True
    with "1.prems" al obtain r1 s2
      where m: "mappages pt a PGSIZE p (PTE_W OR PTE_X OR PTE_R OR PTE_U) (s1\<lparr>mem := memset p 0 4096 (mem s1)\<rparr>) = Ok (r1, s2)"
      by (auto simp: uvmalloc_loop.simps [of pt a] Let_def)
    have k2: "kframe s s2" using kframe_mappages [OF m] k by (auto intro: kframe_trans)
    show ?thesis
    proof (cases "r1 = 0")
      case r0: True
      have lt: "a < n" and p0: "p \<noteq> 0" using True by auto
      have l: "uvmalloc_loop pt (a + PGSIZE) o' n s2 = Ok (r, s')"
        using "1.prems" True al m r0 by (simp add: uvmalloc_loop.simps [of pt a] Let_def)
      have "kframe s2 s'"
        using "1.IH" [OF lt al [symmetric] refl p0 refl m refl _ l] r0 by simp
      with k2 show ?thesis by (rule kframe_trans)
    next
      case False
      with True al m "1.prems" k2 show ?thesis
        by (auto simp: uvmalloc_loop.simps [of pt a] Let_def intro: kframe_trans
            dest!: kframe_kfree kframe_uvmdealloc)
    qed
  next
    case False
    with "1.prems" al k show ?thesis
      by (auto simp: uvmalloc_loop.simps [of pt a] Let_def intro: kframe_trans
          dest!: kframe_uvmdealloc split: if_splits)
  qed
qed

lemma kframe_uvmalloc: "uvmalloc pt o' n s = Ok (r, s') \<Longrightarrow> kframe s s'"
  by (auto simp: uvmalloc_def kframe_uvmalloc_loop split: if_splits)

lemma kframe_rfold:
  assumes "\<And>x s s'. f x s = Ok s' \<Longrightarrow> kframe s s'" "rfold f xs s = Ok s'"
  shows "kframe s s'"
  using assms(2)
proof (induction xs arbitrary: s)
  case (Cons x xs)
  then show ?case by (auto dest!: assms(1) intro: kframe_trans)
qed simp

lemma kframe_freewalk_depth: "freewalk_depth d pt s = Ok s' \<Longrightarrow> kframe s s'"
proof (induction d arbitrary: pt s s')
  case (Suc d)
  from Suc.prems obtain s1 where f: "rfold (\<lambda>i s.
         let a = pt + 8 * of_nat i; pte = load64 (mem s) a in
         if pte AND PTE_V \<noteq> 0 \<and> pte AND (PTE_R OR PTE_W OR PTE_X) = 0 then
           rbind (freewalk_depth d (PTE2PA pte) s) (\<lambda>s1.
             Ok (s1\<lparr>mem := store64 a 0 (mem s1)\<rparr>))
         else if pte AND PTE_V \<noteq> 0 then Panic ''freewalk: leaf''
         else Ok s) [0..<512] s = Ok s1" and k: "kfree pt s1 = Ok s'"
    unfolding freewalk_depth.simps by (elim rbind_OkE)
  have "kframe s s1"
    by (rule kframe_rfold [OF _ f]) (auto simp: Let_def split: if_splits dest: Suc.IH)
  with kframe_kfree [OF k] show ?case by (blast intro: kframe_trans)
qed simp

lemma kframe_freewalk: "freewalk pt s = Ok s' \<Longrightarrow> kframe s s'"
  by (simp only: freewalk_def kframe_freewalk_depth)

lemma kframe_uvmfree: "uvmfree pt sz s = Ok s' \<Longrightarrow> kframe s s'"
  unfolding uvmfree_def
  by (auto split: if_splits dest!: kframe_freewalk kframe_uvmunmap intro: kframe_trans)

lemma kframe_uvmcopy_err: "uvmcopy_err new i s = Ok (r, s') \<Longrightarrow> kframe s s'"
  by (auto simp: uvmcopy_err_def dest: kframe_uvmunmap)

lemma kframe_uvmcopy_loop: "uvmcopy_loop old new i sz s = Ok (r, s') \<Longrightarrow> kframe s s'"
proof (induction old new i sz s arbitrary: r s' rule: uvmcopy_loop.induct)
  case (1 old new i sz s)
  show ?case
  proof (cases "i < sz")
    case True
    with "1.prems" obtain r1 s1 where w: "walk old i False s = Ok (r1, s1)"
      by (auto simp: uvmcopy_loop.simps [of old])
    with "1.prems" True obtain pte where r1: "r1 = Some pte" and v: "load64 (mem s1) pte AND PTE_V \<noteq> 0"
      by (auto simp: uvmcopy_loop.simps [of old] Let_def split: option.splits if_splits)
    obtain p s2 where al: "kalloc s1 = (p, s2)" by fastforce
    note k2 = kframe_trans [OF kframe_walk [OF w] kframe_kalloc [OF al]]
    show ?thesis
    proof (cases "p = 0")
      case True
      with \<open>i < sz\<close> "1.prems" w r1 v al have "uvmcopy_err new i s2 = Ok (r, s')"
        by (simp add: uvmcopy_loop.simps [of old] Let_def)
      with k2 show ?thesis by (blast intro: kframe_trans kframe_uvmcopy_err)
    next
      case p0: False
      let ?s3 = "s2\<lparr>mem := memmove p (PTE2PA (load64 (mem s1) pte)) 4096 (mem s2)\<rparr>"
      from p0 \<open>i < sz\<close> "1.prems" w r1 v al obtain r2 s4
        where m: "mappages new i PGSIZE p (PTE_FLAGS (load64 (mem s1) pte)) ?s3 = Ok (r2, s4)"
        by (auto simp: uvmcopy_loop.simps [of old] Let_def)
      have k4: "kframe s s4" using kframe_mappages [OF m] k2 by (auto intro: kframe_trans)
      show ?thesis
      proof (cases "r2 = 0")
        case r0: True
        have l: "uvmcopy_loop old new (i + PGSIZE) sz s4 = Ok (r, s')"
          using "1.prems" True w r1 v al p0 m r0 by (simp add: uvmcopy_loop.simps [of old] Let_def)
        have "kframe s4 s'"
          using "1.IH" [OF True w refl r1 refl v refl refl al [symmetric] refl p0 refl m refl _ l] r0
          by simp
        with k4 show ?thesis by (rule kframe_trans)
      next
        case False
        with "1.prems" True w r1 v al p0 m k4 show ?thesis
          by (auto simp: uvmcopy_loop.simps [of old] Let_def intro: kframe_trans
              dest!: kframe_kfree kframe_uvmcopy_err)
      qed
    qed
  qed (use "1.prems" in \<open>simp add: uvmcopy_loop.simps [of old]\<close>)
qed

lemma kframe_uvmcopy: "uvmcopy old new sz s = Ok (r, s') \<Longrightarrow> kframe s s'"
  by (simp add: uvmcopy_def kframe_uvmcopy_loop)

lemma kframe_uvmclear: "uvmclear pt va s = Ok s' \<Longrightarrow> kframe s s'"
proof -
  assume "uvmclear pt va s = Ok s'"
  then obtain pte s1 where w: "walk pt va False s = Ok (Some pte, s1)"
    and s': "s' = s1\<lparr>mem := store64 pte (load64 (mem s1) pte AND NOT PTE_U) (mem s1)\<rparr>"
    by (auto simp: uvmclear_def split: option.splits)
  from kframe_walk [OF w] show ?thesis unfolding s' by simp
qed

lemma kframe_uvminit: "uvminit pt src s = Ok s' \<Longrightarrow> kframe s s'"
  by (auto simp: uvminit_def Let_def split: if_splits prod.splits dest!: kframe_kalloc kframe_mappages
      intro: kframe_trans)

lemma kframe_copyout: "copyout pt va src s = (r, s') \<Longrightarrow> kframe s s'"
proof (induction pt va src s rule: copyout.induct)
  case (1 pt va src s)
  then show ?case by (auto simp: copyout.simps [of pt va] Let_def split: if_splits)
qed

lemmas kframes = kframe_kalloc kframe_kfree kframe_walk kframe_mappages kframe_kvmmap kframe_uvmunmap
  kframe_uvmcreate kframe_uvminit kframe_uvmdealloc kframe_uvmalloc kframe_freewalk kframe_uvmfree
  kframe_uvmcopy kframe_uvmclear kframe_copyout

end
