(* ===== verification/Mem_Eval.thy ===== *)
theory Mem_Eval
  imports Vm
begin

text \<open>
  Rules with which the simplifier evaluates loads from a memory built by stores at numeral
  addresses, so that the kernel's functions run on concrete states.
\<close>

named_theorems mem_eval \<open>evaluation of loads at numeral addresses\<close>

lemma unat_uminus64: "unat (- d :: uint64) = (if d = 0 then 0 else 2 ^ 64 - unat d)"
  using unat_sub_if' [of 0 d] by (simp add: word_unat_eq_iff)

lemma load64_store64_eval [mem_eval]:
  assumes "8 \<le> unat (b - a)" "8 \<le> unat (a - b)"
  shows "load64 (store64 a v m) b = load64 m b"
proof (rule load64_store64_apart)
  show "apart b 8 a 8"
    unfolding apart_def
  proof (intro allI impI)
    fix i :: nat assume i: "i < 8"
    define d where "d = b - a"
    have "a - b = - d" by (simp add: d_def)
    then have "unat (a - b) = (if d = 0 then 0 else 2 ^ 64 - unat d)" by (simp add: unat_uminus64)
    then have "unat d + 8 \<le> 2 ^ 64" using assms(2) unat_uint64 [of d] by (auto split: if_splits)
    then have u: "unat (d + of_nat i) = unat d + i" using i by (simp add: unat_word_ariths unat_of_nat)
    have e: "b + of_nat i - a = d + of_nat i" by (simp add: d_def)
    show "8 \<le> unat (b + of_nat i - a)" unfolding e u using assms(1) [folded d_def] by simp
  qed
qed

lemma memset_in: "unat (x - p) < n \<Longrightarrow> n \<le> 4096 \<Longrightarrow> memset p c n m x = c"
  by (simp add: memset_eq mstore_def)

lemma memset_out: "n \<le> unat (x - p) \<Longrightarrow> n \<le> 4096 \<Longrightarrow> memset p c n m x = m x"
  by (simp add: memset_eq mstore_def)

lemma load64_memset_zero_eval [mem_eval]:
  assumes "unat (b - p) + 8 \<le> n" "n \<le> 4096"
  shows "load64 (memset p 0 n m) b = 0"
proof -
  have "load64 (memset p 0 n m) b = load64 (\<lambda>_. 0) b"
  proof (rule load64_cong)
    fix i :: nat assume i: "i < 8"
    define d where "d = b - p"
    have "unat d + 8 \<le> 4096" using assms by (simp add: d_def [symmetric])
    then have u: "unat (d + of_nat i) = unat d + i" using i by (simp add: unat_word_ariths unat_of_nat)
    have e: "b + of_nat i - p = d + of_nat i" by (simp add: d_def)
    have "unat (b + of_nat i - p) < n" unfolding e u using i assms(1) [folded d_def] by simp
    with assms show "memset p 0 n m (b + of_nat i) = 0" by (simp add: memset_in)
  qed
  then show ?thesis by simp
qed

lemma load64_memset_eval [mem_eval]:
  assumes "n \<le> unat (b - p)" "8 \<le> unat (p - b)" "n \<le> 4096"
  shows "load64 (memset p c n m) b = load64 m b"
proof (rule load64_cong)
  fix i :: nat assume i: "i < 8"
  define d where "d = b - p"
  have "p - b = - d" by (simp add: d_def)
  then have "unat (p - b) = (if d = 0 then 0 else 2 ^ 64 - unat d)" by (simp add: unat_uminus64)
  then have "unat d + 8 \<le> 2 ^ 64" using assms(2) unat_uint64 [of d] by (auto split: if_splits)
  then have u: "unat (d + of_nat i) = unat d + i" using i by (simp add: unat_word_ariths unat_of_nat)
  have e: "b + of_nat i - p = d + of_nat i" by (simp add: d_def)
  have "n \<le> unat (b + of_nat i - p)" unfolding e u using assms(1) [folded d_def] by simp
  with assms(3) show "memset p c n m (b + of_nat i) = m (b + of_nat i)" by (simp add: memset_out)
qed

end
