(* ===== verification/Proc.thy ===== *)
theory Proc
  imports Vm_Correct Vm_Frame Mem_Eval
begin

text \<open>
  The process table of \<^verbatim>\<open>kernel/proc.c\<close>: slots, pids, address-space setup, and the
  state machine driven by the scheduler, \<^verbatim>\<open>sleep\<close>, \<^verbatim>\<open>wakeup\<close> and
  \<^verbatim>\<open>kill\<close>. A process is an index into the table, an open file an index into the file
  table, an inode an index into the inode table; the trapframe is a page of physical memory.
  Each operation runs on hart \<open>hart s\<close>, whose \<^verbatim>\<open>c->proc\<close> is an entry of \<open>cpus s\<close>.
  The switch to the scheduler ends the operation of the process that makes it; what it does when it
  runs again is a separate definition (\<open>sleep_resume\<close>).
\<close>

section \<open>State\<close>

datatype procstate = UNUSED | USED | SLEEPING | RUNNABLE | RUNNING | ZOMBIE

text \<open>The addresses the kernel sleeps on. Distinct objects have distinct addresses.\<close>

datatype chan =
  NoChan
| ChTicks
| ChProc nat
| ChLog
| ChPipeRead uint64
| ChPipeWrite uint64
| ChCons
| ChUart
| ChBufLock nat
| ChInodeLock nat
| ChDisk nat
| ChDiskFree

record vma =
  v_used :: bool
  v_addr :: uint64
  v_length :: uint64
  v_prot :: uint32
  v_flags :: uint32
  v_file :: "nat option"
  v_offset :: uint64

definition vma0 :: vma where
  "vma0 = \<lparr>v_used = False, v_addr = 0, v_length = 0, v_prot = 0, v_flags = 0, v_file = None, v_offset = 0\<rparr>"

record proc =
  p_state :: procstate
  p_chan :: chan
  p_killed :: bool
  p_xstate :: int
  p_pid :: int
  p_parent :: "nat option"
  p_kstack :: uint64
  p_sz :: uint64
  p_pagetable :: uint64
  p_trapframe :: uint64
  p_context :: "uint64 list"
  p_ofile :: "nat option list"
  p_vmas :: "vma list"
  p_cwd :: "nat option"
  p_name :: "byte list"

record pstate = kmem +
  procs :: "proc list"
  cpus :: "nat option list"
  hart :: nat
  initproc :: "nat option"
  nextpid :: int
  trampoline :: uint64
  forkret :: uint64

definition upd_proc :: "nat \<Rightarrow> (proc \<Rightarrow> proc) \<Rightarrow> 'a pstate_scheme \<Rightarrow> 'a pstate_scheme" where
  "upd_proc p f s = s\<lparr>procs := (procs s)[p := f (procs s ! p)]\<rparr>"

section \<open>Slots and pids\<close>

definition procinit :: "'a pstate_scheme \<Rightarrow> 'a pstate_scheme" where
  "procinit s = s\<lparr>procs := map (\<lambda>i. (procs s ! i)\<lparr>p_kstack := KSTACK i\<rparr>) [0..<64]\<rparr>"

definition myproc :: "'a pstate_scheme \<Rightarrow> nat option" where
  "myproc s = cpus s ! hart s"

definition allocpid :: "'a pstate_scheme \<Rightarrow> int \<times> 'a pstate_scheme" where
  "allocpid s = (nextpid s, s\<lparr>nextpid := nextpid s + 1\<rparr>)"

fun find_index :: "('x \<Rightarrow> bool) \<Rightarrow> 'x list \<Rightarrow> nat option" where
  "find_index P [] = None"
| "find_index P (x # xs) = (if P x then Some 0 else map_option Suc (find_index P xs))"

definition proc_freepagetable :: "uint64 \<Rightarrow> uint64 \<Rightarrow> 'a kmem_scheme \<Rightarrow> 'a kmem_scheme res" where
  "proc_freepagetable pagetable sz s =
     rbind (uvmunmap pagetable TRAMPOLINE 1 False s) (\<lambda>s1.
     rbind (uvmunmap pagetable TRAPFRAME 1 False s1) (\<lambda>s2.
     uvmfree pagetable sz s2))"

definition proc_pagetable :: "nat \<Rightarrow> 'a pstate_scheme \<Rightarrow> (uint64 \<times> 'a pstate_scheme) res" where
  "proc_pagetable p s =
     (let (pagetable, s1) = uvmcreate s in
      if pagetable = 0 then Ok (0, s1)
      else
        rbind (mappages pagetable TRAMPOLINE PGSIZE (trampoline s1) (PTE_R OR PTE_X) s1) (\<lambda>(r, s2).
        if r < 0 then rbind (uvmfree pagetable 0 s2) (\<lambda>s3. Ok (0, s3))
        else
          rbind (mappages pagetable TRAPFRAME PGSIZE (p_trapframe (procs s2 ! p)) (PTE_R OR PTE_W) s2)
            (\<lambda>(r', s3).
            if r' < 0 then
              rbind (uvmunmap pagetable TRAMPOLINE 1 False s3) (\<lambda>s4.
              rbind (uvmfree pagetable 0 s4) (\<lambda>s5. Ok (0, s5)))
            else Ok (pagetable, s3))))"

definition freeproc :: "nat \<Rightarrow> 'a pstate_scheme \<Rightarrow> 'a pstate_scheme res" where
  "freeproc p s =
     rbind (if p_trapframe (procs s ! p) \<noteq> 0 then kfree (p_trapframe (procs s ! p)) s else Ok s) (\<lambda>s1.
     let s2 = upd_proc p (\<lambda>q. q\<lparr>p_trapframe := 0\<rparr>) s1 in
     rbind (if p_pagetable (procs s2 ! p) \<noteq> 0
            then proc_freepagetable (p_pagetable (procs s2 ! p)) (p_sz (procs s2 ! p)) s2
            else Ok s2) (\<lambda>s3.
     Ok (upd_proc p (\<lambda>q. q\<lparr>p_pagetable := 0, p_sz := 0, p_pid := 0, p_parent := None,
           p_name := (p_name q)[0 := 0], p_chan := NoChan, p_killed := False, p_xstate := 0,
           p_state := UNUSED\<rparr>) s3)))"

definition allocproc :: "'a pstate_scheme \<Rightarrow> (nat option \<times> 'a pstate_scheme) res" where
  "allocproc s =
     (case find_index (\<lambda>q. p_state q = UNUSED) (procs s) of
        None \<Rightarrow> Ok (None, s)
      | Some p \<Rightarrow>
          let (pid, s1) = allocpid s;
              s2 = upd_proc p (\<lambda>q. q\<lparr>p_pid := pid, p_state := USED, p_vmas := replicate 16 vma0\<rparr>) s1;
              (tf, s3) = kalloc s2;
              s4 = upd_proc p (\<lambda>q. q\<lparr>p_trapframe := tf\<rparr>) s3
          in if tf = 0 then rbind (freeproc p s4) (\<lambda>s5. Ok (None, s5))
             else
               rbind (proc_pagetable p s4) (\<lambda>(pagetable, s5).
               let s6 = upd_proc p (\<lambda>q. q\<lparr>p_pagetable := pagetable\<rparr>) s5 in
               if pagetable = 0 then rbind (freeproc p s6) (\<lambda>s7. Ok (None, s7))
               else Ok (Some p, upd_proc p (\<lambda>q. q\<lparr>p_context :=
                      (replicate 14 0)[0 := forkret s6, 1 := p_kstack q + PGSIZE]\<rparr>) s6)))"

text \<open>\<^verbatim>\<open>growproc\<close> keeps the size in a 32-bit \<^verbatim>\<open>uint\<close>.\<close>

definition growproc :: "nat \<Rightarrow> int \<Rightarrow> 'a pstate_scheme \<Rightarrow> (int \<times> 'a pstate_scheme) res" where
  "growproc p n s =
     (let pt = p_pagetable (procs s ! p);
          sz = ucast (p_sz (procs s ! p)) :: uint32;
          newsz = sz + of_int n
      in if n > 0 then
           rbind (uvmalloc pt (ucast sz) (ucast newsz) s) (\<lambda>(r, s1).
             let sz1 = ucast r :: uint32 in
             if sz1 = 0 then Ok (-1, s1)
             else Ok (0, upd_proc p (\<lambda>q. q\<lparr>p_sz := ucast sz1\<rparr>) s1))
         else if n < 0 then
           rbind (uvmdealloc pt (ucast sz) (ucast newsz) s) (\<lambda>(r, s1).
             Ok (0, upd_proc p (\<lambda>q. q\<lparr>p_sz := ucast (ucast r :: uint32)\<rparr>) s1))
         else Ok (0, upd_proc p (\<lambda>q. q\<lparr>p_sz := ucast sz\<rparr>) s))"

section \<open>Scheduling\<close>

text \<open>One visit of the scheduler's inner loop: hart \<open>h\<close> considers slot \<open>p\<close>.\<close>

definition scheduler_visit :: "nat \<Rightarrow> nat \<Rightarrow> 'a pstate_scheme \<Rightarrow> 'a pstate_scheme" where
  "scheduler_visit h p s =
     (if p_state (procs s ! p) = RUNNABLE
      then (upd_proc p (\<lambda>q. q\<lparr>p_state := RUNNING\<rparr>) s)\<lparr>cpus := (cpus s)[h := Some p]\<rparr>
      else s)"

text \<open>\<^verbatim>\<open>sched\<close> up to the point where the scheduler has set \<^verbatim>\<open>c->proc = 0\<close>.\<close>

definition sched :: "'a pstate_scheme \<Rightarrow> 'a pstate_scheme res" where
  "sched s =
     (case myproc s of
        None \<Rightarrow> Panic ''sched p->lock''
      | Some p \<Rightarrow>
          if p_state (procs s ! p) = RUNNING then Panic ''sched running''
          else Ok (s\<lparr>cpus := (cpus s)[hart s := None]\<rparr>))"

definition yield :: "nat \<Rightarrow> 'a pstate_scheme \<Rightarrow> 'a pstate_scheme res" where
  "yield p s = sched (upd_proc p (\<lambda>q. q\<lparr>p_state := RUNNABLE\<rparr>) s)"

definition sleep :: "nat \<Rightarrow> chan \<Rightarrow> 'a pstate_scheme \<Rightarrow> 'a pstate_scheme res" where
  "sleep p ch s = sched (upd_proc p (\<lambda>q. q\<lparr>p_chan := ch, p_state := SLEEPING\<rparr>) s)"

definition sleep_resume :: "nat \<Rightarrow> 'a pstate_scheme \<Rightarrow> 'a pstate_scheme" where
  "sleep_resume p s = upd_proc p (\<lambda>q. q\<lparr>p_chan := NoChan\<rparr>) s"

definition wakeup :: "chan \<Rightarrow> 'a pstate_scheme \<Rightarrow> 'a pstate_scheme" where
  "wakeup ch s =
     s\<lparr>procs := map (\<lambda>i. let q = procs s ! i in
         if Some i \<noteq> myproc s \<and> p_state q = SLEEPING \<and> p_chan q = ch
         then q\<lparr>p_state := RUNNABLE\<rparr> else q) [0..<length (procs s)]\<rparr>"

definition kill :: "int \<Rightarrow> 'a pstate_scheme \<Rightarrow> int \<times> 'a pstate_scheme" where
  "kill pid s =
     (case find_index (\<lambda>q. p_pid q = pid) (procs s) of
        None \<Rightarrow> (-1, s)
      | Some p \<Rightarrow>
          (0, upd_proc p (\<lambda>q. q\<lparr>p_killed := True,
                p_state := (if p_state q = SLEEPING then RUNNABLE else p_state q)\<rparr>) s))"

definition reparent :: "nat \<Rightarrow> 'a pstate_scheme \<Rightarrow> 'a pstate_scheme" where
  "reparent p s =
     foldl (\<lambda>s i. if p_parent (procs s ! i) = Some p
                  then let s1 = upd_proc i (\<lambda>q. q\<lparr>p_parent := initproc s\<rparr>) s
                       in case initproc s1 of None \<Rightarrow> wakeup NoChan s1 | Some ip \<Rightarrow> wakeup (ChProc ip) s1
                  else s) s [0..<length (procs s)]"

text \<open>The end of \<^verbatim>\<open>exit\<close>, from \<^verbatim>\<open>acquire(&wait_lock)\<close> on.\<close>

definition exit_sched :: "nat \<Rightarrow> int \<Rightarrow> 'a pstate_scheme \<Rightarrow> 'a pstate_scheme res" where
  "exit_sched p status s =
     (let s1 = reparent p s;
          s2 = (case p_parent (procs s1 ! p) of
                  None \<Rightarrow> wakeup NoChan s1
                | Some pp \<Rightarrow> wakeup (ChProc pp) s1)
      in sched (upd_proc p (\<lambda>q. q\<lparr>p_xstate := status, p_state := ZOMBIE\<rparr>) s2))"

text \<open>
  \<^verbatim>\<open>wait\<close>: \<open>Some r\<close> is the value it returns; \<open>None\<close> is the \<^verbatim>\<open>sleep\<close> of its
  loop, after which the loop starts over. \<^verbatim>\<open>int\<close> values are copied out as 4 bytes.
\<close>

definition int_bytes :: "int \<Rightarrow> byte list" where
  "int_bytes n = le_bytes 4 (nat (n mod 2 ^ 32))"

definition wait :: "nat \<Rightarrow> uint64 \<Rightarrow> 'a pstate_scheme \<Rightarrow> (int option \<times> 'a pstate_scheme) res" where
  "wait p addr s =
     (case find_index (\<lambda>q. p_parent q = Some p \<and> p_state q = ZOMBIE) (procs s) of
        Some np \<Rightarrow>
          let pid = p_pid (procs s ! np);
              (r, s1) = (if addr \<noteq> 0
                         then copyout (p_pagetable (procs s ! p)) addr (int_bytes (p_xstate (procs s ! np))) s
                         else (0, s))
          in if addr \<noteq> 0 \<and> r < 0 then Ok (Some (-1), s1)
             else rbind (freeproc np s1) (\<lambda>s2. Ok (Some pid, s2))
      | None \<Rightarrow>
          if \<not> (\<exists>q\<in>set (procs s). p_parent q = Some p) \<or> p_killed (procs s ! p) then Ok (Some (-1), s)
          else rbind (sleep p (ChProc p) s) (\<lambda>s1. Ok (None, s1)))"

section \<open>Copying to and from the caller\<close>

definition either_copyout :: "bool \<Rightarrow> uint64 \<Rightarrow> byte list \<Rightarrow> 'a pstate_scheme \<Rightarrow> int \<times> 'a pstate_scheme" where
  "either_copyout user_dst dst src s =
     (if user_dst then copyout (p_pagetable (procs s ! the (myproc s))) dst src s
      else (0, s\<lparr>mem := mstore dst src (mem s)\<rparr>))"

definition either_copyin :: "bool \<Rightarrow> uint64 \<Rightarrow> nat \<Rightarrow> 'a pstate_scheme \<Rightarrow> int \<times> byte list" where
  "either_copyin user_src src len s =
     (if user_src then copyin (p_pagetable (procs s ! the (myproc s))) src len s
      else (0, mload len src (mem s)))"

section \<open>The table's invariant\<close>

lemma kframe_pstate:
  "kframe s s' \<Longrightarrow> procs s' = procs s \<and> cpus s' = cpus s \<and> hart s' = hart s \<and> initproc s' = initproc s \<and>
     nextpid s' = nextpid s \<and> trampoline s' = trampoline s \<and> forkret s' = forkret s" for s :: "'a pstate_scheme"
  by (cases s; cases s') (simp add: kframe_def)

lemma find_index_Some:
  "find_index P xs = Some i \<Longrightarrow> i < length xs \<and> P (xs ! i) \<and> (\<forall>j<i. \<not> P (xs ! j))"
  by (induction xs arbitrary: i) (auto simp: less_Suc_eq_0_disj split: if_splits)

lemma find_index_None: "find_index P xs = None \<longleftrightarrow> (\<forall>x\<in>set xs. \<not> P x)"
  by (induction xs) auto

text \<open>
  Harts and running processes correspond one to one, used slots have distinct positive pids below
  \<^verbatim>\<open>nextpid\<close>, free slots have pid 0, and a sleeping process sleeps on a channel.
\<close>

definition slot_ok :: "int \<Rightarrow> proc \<Rightarrow> bool" where
  "slot_ok n q \<longleftrightarrow> (if p_state q = UNUSED then p_pid q = 0 else 0 < p_pid q \<and> p_pid q < n) \<and>
     (p_state q = SLEEPING \<longrightarrow> p_chan q \<noteq> NoChan)"

definition cpus_ok :: "proc list \<Rightarrow> nat option list \<Rightarrow> bool" where
  "cpus_ok ps cs \<longleftrightarrow>
     (\<forall>h<length cs. \<forall>p. cs ! h = Some p \<longrightarrow> p < length ps \<and> p_state (ps ! p) = RUNNING) \<and>
     (\<forall>h<length cs. \<forall>h'<length cs. \<forall>p. cs ! h = Some p \<longrightarrow> cs ! h' = Some p \<longrightarrow> h = h') \<and>
     (\<forall>p<length ps. p_state (ps ! p) = RUNNING \<longrightarrow> Some p \<in> set cs)"

definition pids_ok :: "proc list \<Rightarrow> bool" where
  "pids_ok ps \<longleftrightarrow> (\<forall>i<length ps. \<forall>j<length ps. p_pid (ps ! i) \<noteq> 0 \<longrightarrow> p_pid (ps ! i) = p_pid (ps ! j) \<longrightarrow> i = j)"

definition proc_inv :: "'a pstate_scheme \<Rightarrow> bool" where
  "proc_inv s \<longleftrightarrow> length (procs s) = 64 \<and> length (cpus s) = 8 \<and> 0 < nextpid s \<and>
     (\<forall>q\<in>set (procs s). slot_ok (nextpid s) q) \<and> cpus_ok (procs s) (cpus s) \<and> pids_ok (procs s)"

lemma upd_proc_simps [simp]:
  "procs (upd_proc p f s) = (procs s)[p := f (procs s ! p)]" "cpus (upd_proc p f s) = cpus s"
  "hart (upd_proc p f s) = hart s" "nextpid (upd_proc p f s) = nextpid s"
  "initproc (upd_proc p f s) = initproc s" "forkret (upd_proc p f s) = forkret s"
  "mem (upd_proc p f s) = mem s" "kend (upd_proc p f s) = kend s"
  by (simp_all add: upd_proc_def)

text \<open>Changing one slot without starting or stopping to run.\<close>

lemma proc_inv_upd:
  assumes "proc_inv s" "p < 64" "procs s' = (procs s)[p := q]" "cpus s' = cpus s" "nextpid s \<le> nextpid s'"
    and "slot_ok (nextpid s') q" "(p_state q = RUNNING) = (p_state (procs s ! p) = RUNNING)"
    and "p_pid q = p_pid (procs s ! p) \<or> p_pid q = 0 \<or> nextpid s \<le> p_pid q"
  shows "proc_inv s'"
proof -
  have len: "length (procs s) = 64" and pos: "0 < nextpid s"
    and slots: "\<And>i. i < 64 \<Longrightarrow> slot_ok (nextpid s) (procs s ! i)"
    and cpus: "cpus_ok (procs s) (cpus s)" and pids: "pids_ok (procs s)"
    using assms(1) by (auto simp: proc_inv_def)
  have mono: "slot_ok (nextpid s') x" if "slot_ok (nextpid s) x" for x
    using that assms(5) by (auto simp: slot_ok_def split: if_splits)
  have "\<forall>x\<in>set (procs s'). slot_ok (nextpid s') x"
    using slots mono assms(2,3,6) len by (auto simp: in_set_conv_nth nth_list_update)
  moreover have "cpus_ok (procs s') (cpus s')"
    unfolding cpus_ok_def assms(3,4) length_list_update
  proof (intro conjI)
    show "\<forall>h<length (cpus s). \<forall>i. cpus s ! h = Some i \<longrightarrow> i < length (procs s) \<and> p_state ((procs s)[p := q] ! i) = RUNNING"
      using cpus assms(7) unfolding cpus_ok_def by (metis nth_list_update_eq nth_list_update_neq)
    show "\<forall>i<length (procs s). p_state ((procs s)[p := q] ! i) = RUNNING \<longrightarrow> Some i \<in> set (cpus s)"
      using cpus assms(7) unfolding cpus_ok_def by (metis nth_list_update_eq nth_list_update_neq)
  qed (use cpus in \<open>simp add: cpus_ok_def\<close>)
  moreover have "pids_ok (procs s')"
  proof -
    have lt: "p_pid (procs s ! i) < nextpid s" if "i < 64" for i
      using slots [OF that] pos by (auto simp: slot_ok_def split: if_splits)
    have old: "a = b" if "a < 64" "b < 64" "p_pid (procs s ! a) \<noteq> 0" "p_pid (procs s ! a) = p_pid (procs s ! b)" for a b
      using pids that len by (simp add: pids_ok_def)
    show ?thesis
      unfolding pids_ok_def assms(3) length_list_update len
    proof (intro allI impI)
      fix i j
      assume ij: "i < 64" "j < 64" "p_pid ((procs s)[p := q] ! i) \<noteq> 0"
        "p_pid ((procs s)[p := q] ! i) = p_pid ((procs s)[p := q] ! j)"
      show "i = j"
        using ij old [OF ij(1,2)] lt [OF ij(1)] lt [OF ij(2)] assms(2,8) len
        by (cases "i = p"; cases "j = p") auto
    qed
  qed
  ultimately show ?thesis
    using assms len pos by (auto simp: proc_inv_def)
qed

section \<open>What the operations do to the table\<close>

lemma kframe_proc_freepagetable: "proc_freepagetable pt sz s = Ok s' \<Longrightarrow> kframe s s'"
  unfolding proc_freepagetable_def
  by (auto dest!: kframe_uvmunmap kframe_uvmfree intro: kframe_trans)

lemma kframe_proc_pagetable:
  assumes "proc_pagetable p s = Ok (r, s')"
  shows "kframe s s'"
proof -
  obtain pt s1 where c: "uvmcreate s = (pt, s1)" by fastforce
  from assms c kframe_uvmcreate [OF c] show ?thesis
    unfolding proc_pagetable_def
    by (auto simp: Let_def split: if_splits
        dest!: kframe_mappages kframe_uvmfree kframe_uvmunmap) (blast intro: kframe_trans)+
qed

lemma freeproc_table:
  assumes "freeproc p s = Ok s'"
  shows "procs s' = (procs s)[p := (procs s ! p)\<lparr>p_trapframe := 0, p_pagetable := 0, p_sz := 0, p_pid := 0,
      p_parent := None, p_name := (p_name (procs s ! p))[0 := 0], p_chan := NoChan, p_killed := False,
      p_xstate := 0, p_state := UNUSED\<rparr>]"
    and "cpus s' = cpus s" "nextpid s' = nextpid s" "hart s' = hart s"
proof -
  from assms obtain s1 s3 where
    s1: "(if p_trapframe (procs s ! p) \<noteq> 0 then kfree (p_trapframe (procs s ! p)) s else Ok s) = Ok s1"
    and s3: "(if p_pagetable (procs (upd_proc p (\<lambda>q. q\<lparr>p_trapframe := 0\<rparr>) s1) ! p) \<noteq> 0
            then proc_freepagetable (p_pagetable (procs (upd_proc p (\<lambda>q. q\<lparr>p_trapframe := 0\<rparr>) s1) ! p))
              (p_sz (procs (upd_proc p (\<lambda>q. q\<lparr>p_trapframe := 0\<rparr>) s1) ! p)) (upd_proc p (\<lambda>q. q\<lparr>p_trapframe := 0\<rparr>) s1)
            else Ok (upd_proc p (\<lambda>q. q\<lparr>p_trapframe := 0\<rparr>) s1)) = Ok s3"
    and s': "s' = upd_proc p (\<lambda>q. q\<lparr>p_pagetable := 0, p_sz := 0, p_pid := 0, p_parent := None,
           p_name := (p_name q)[0 := 0], p_chan := NoChan, p_killed := False, p_xstate := 0,
           p_state := UNUSED\<rparr>) s3"
    unfolding freeproc_def Let_def by (elim rbind_OkE) simp
  have "kframe s s1" using s1 kframe_kfree by (auto split: if_splits)
  then have k1: "procs s1 = procs s" "cpus s1 = cpus s" "nextpid s1 = nextpid s" "hart s1 = hart s"
    using kframe_pstate by blast+
  have "kframe (upd_proc p (\<lambda>q. q\<lparr>p_trapframe := 0\<rparr>) s1) s3"
    using s3 kframe_proc_freepagetable by (auto split: if_splits)
  then have k3: "procs s3 = (procs s)[p := (procs s ! p)\<lparr>p_trapframe := 0\<rparr>]" "cpus s3 = cpus s"
    "nextpid s3 = nextpid s" "hart s3 = hart s"
    using kframe_pstate k1 by fastforce+
  then show "cpus s' = cpus s" "nextpid s' = nextpid s" "hart s' = hart s" by (simp_all add: s')
  show "procs s' = (procs s)[p := (procs s ! p)\<lparr>p_trapframe := 0, p_pagetable := 0, p_sz := 0, p_pid := 0,
      p_parent := None, p_name := (p_name (procs s ! p))[0 := 0], p_chan := NoChan, p_killed := False,
      p_xstate := 0, p_state := UNUSED\<rparr>]"
    using k3 by (cases "p < length (procs s)") (simp_all add: s' list_update_beyond)
qed

text \<open>A successful \<^verbatim>\<open>allocproc\<close> takes the first free slot and gives it a new pid; a failed
  one leaves that slot free.\<close>

lemma allocproc_table:
  assumes "allocproc s = Ok (r, s')"
  obtains (full) "r = None" "s' = s" "\<forall>q\<in>set (procs s). p_state q \<noteq> UNUSED"
  | (slot) p q where "p < length (procs s)" "p_state (procs s ! p) = UNUSED"
      "procs s' = (procs s)[p := q]" "cpus s' = cpus s" "nextpid s' = nextpid s + 1" "hart s' = hart s"
      "r = Some p \<and> p_state q = USED \<and> p_pid q = nextpid s \<and> p_killed q = p_killed (procs s ! p) \<and>
         p_vmas q = replicate 16 vma0
       \<or> r = None \<and> p_state q = UNUSED \<and> p_pid q = 0 \<and> \<not> p_killed q"
      "find_index (\<lambda>q. p_state q = UNUSED) (procs s) = Some p"
proof (cases "find_index (\<lambda>q. p_state q = UNUSED) (procs s)")
  case None
  with assms full show ?thesis by (simp add: allocproc_def find_index_None)
next
  case (Some p)
  have p: "p < length (procs s)" "p_state (procs s ! p) = UNUSED" using find_index_Some [OF Some] by simp_all
  let ?q = "(procs s ! p)\<lparr>p_pid := nextpid s, p_state := USED, p_vmas := replicate 16 vma0\<rparr>"
  let ?s2 = "upd_proc p (\<lambda>q. q\<lparr>p_pid := nextpid s, p_state := USED, p_vmas := replicate 16 vma0\<rparr>)
    (s\<lparr>nextpid := nextpid s + 1\<rparr>)"
  obtain tf s3 where al: "kalloc ?s2 = (tf, s3)" by fastforce
  have k3: "procs s3 = (procs s)[p := ?q]" "cpus s3 = cpus s" "nextpid s3 = nextpid s + 1" "hart s3 = hart s"
    using kframe_pstate [OF kframe_kalloc [OF al]] by simp_all
  let ?s4 = "upd_proc p (\<lambda>q. q\<lparr>p_trapframe := tf\<rparr>) s3"
  show ?thesis
  proof (cases "tf = 0")
    case True
    with assms Some al have r: "r = None" and f: "freeproc p ?s4 = Ok s'"
      by (auto simp: allocproc_def allocpid_def Let_def)
    show ?thesis using p k3 r freeproc_table [OF f] by (intro slot [of p "procs s' ! p"]) (simp_all add: Some)
  next
    case False
    with assms Some al obtain pt s5 where pt: "proc_pagetable p ?s4 = Ok (pt, s5)"
      by (auto simp: allocproc_def allocpid_def Let_def)
    have k5: "procs s5 = (procs s)[p := ?q\<lparr>p_trapframe := tf\<rparr>]" "cpus s5 = cpus s" "nextpid s5 = nextpid s + 1"
      "hart s5 = hart s"
      using kframe_pstate [OF kframe_proc_pagetable [OF pt]] k3 p by simp_all
    let ?s6 = "upd_proc p (\<lambda>q. q\<lparr>p_pagetable := pt\<rparr>) s5"
    show ?thesis
    proof (cases "pt = 0")
      case True
      with assms Some al False pt have r: "r = None" and f: "freeproc p ?s6 = Ok s'"
        by (auto simp: allocproc_def allocpid_def Let_def)
      show ?thesis using p k5 r freeproc_table [OF f] by (intro slot [of p "procs s' ! p"]) (simp_all add: Some)
    next
      case pt0: False
      with assms Some al False pt have r: "r = Some p" and s': "s' = upd_proc p (\<lambda>q. q\<lparr>p_context :=
          (replicate 14 0)[0 := forkret ?s6, 1 := p_kstack q + PGSIZE]\<rparr>) ?s6"
        by (auto simp: allocproc_def allocpid_def Let_def)
      show ?thesis using p k5 r by (intro slot [of p "procs s' ! p"]) (simp_all add: s' Some)
    qed
  qed
qed

section \<open>The process state machine\<close>

text \<open>
  The transitions of the table: hart \<open>h\<close> schedules a process, or the process on hart
  \<open>hart s\<close> performs an operation. \<^verbatim>\<open>fork\<close> ends by making the slot it allocated
  runnable.
\<close>

inductive proc_step :: "'a pstate_scheme \<Rightarrow> 'a pstate_scheme \<Rightarrow> bool" where
  switch_hart: "h < 8 \<Longrightarrow> proc_step s (s\<lparr>hart := h\<rparr>)"
| schedule: "cpus s ! hart s = None \<Longrightarrow> p < 64 \<Longrightarrow> proc_step s (scheduler_visit (hart s) p s)"
| yields: "myproc s = Some p \<Longrightarrow> yield p s = Ok s' \<Longrightarrow> proc_step s s'"
| sleeps: "myproc s = Some p \<Longrightarrow> ch \<noteq> NoChan \<Longrightarrow> sleep p ch s = Ok s' \<Longrightarrow> proc_step s s'"
| resumes: "myproc s = Some p \<Longrightarrow> proc_step s (sleep_resume p s)"
| wakes: "proc_step s (wakeup ch s)"
| kills: "kill pid s = (r, s') \<Longrightarrow> proc_step s s'"
| allocs: "allocproc s = Ok (r, s') \<Longrightarrow> proc_step s s'"
| forks: "p < 64 \<Longrightarrow> p_state (procs s ! p) = USED \<Longrightarrow> proc_step s (upd_proc p (\<lambda>q. q\<lparr>p_state := RUNNABLE\<rparr>) s)"
| unforks: "p < 64 \<Longrightarrow> p_state (procs s ! p) = USED \<Longrightarrow> freeproc p s = Ok s' \<Longrightarrow> proc_step s s'"
| exits: "myproc s = Some p \<Longrightarrow> exit_sched p st s = Ok s' \<Longrightarrow> proc_step s s'"
| waits: "myproc s = Some p \<Longrightarrow> wait p addr s = Ok (r, s') \<Longrightarrow> proc_step s s'"
| grows: "myproc s = Some p \<Longrightarrow> growproc p n s = Ok (r, s') \<Longrightarrow> proc_step s s'"

definition hart_ok :: "'a pstate_scheme \<Rightarrow> bool" where
  "hart_ok s \<longleftrightarrow> proc_inv s \<and> hart s < 8"

lemma hart_okD:
  assumes "hart_ok s"
  shows "length (procs s) = 64" "length (cpus s) = 8" "hart s < 8" "proc_inv s"
  using assms by (simp_all add: hart_ok_def proc_inv_def)

lemma hart_ok_slot: "hart_ok s \<Longrightarrow> p < 64 \<Longrightarrow> slot_ok (nextpid s) (procs s ! p)"
  by (simp add: hart_ok_def proc_inv_def)

lemma myproc_running:
  assumes "hart_ok s" "myproc s = Some p"
  shows "p < 64" "p_state (procs s ! p) = RUNNING"
  using assms by (auto simp: hart_ok_def proc_inv_def cpus_ok_def myproc_def)

lemma proc_inv_cong:
  "proc_inv s \<Longrightarrow> procs s' = procs s \<Longrightarrow> cpus s' = cpus s \<Longrightarrow> nextpid s' = nextpid s \<Longrightarrow> proc_inv s'"
  by (simp add: proc_inv_def)

text \<open>The process on this hart stops running: its slot changes and the hart becomes idle.\<close>

lemma proc_inv_stop:
  assumes s: "hart_ok s" "myproc s = Some p"
    and s': "procs s' = (procs s)[p := q]" "cpus s' = (cpus s)[hart s := None]" "nextpid s' = nextpid s"
    and q: "slot_ok (nextpid s) q" "p_state q \<noteq> RUNNING" "p_pid q = p_pid (procs s ! p)"
  shows "proc_inv s'"
proof -
  note d = hart_okD [OF s(1)] and r = myproc_running [OF s]
  have c: "cpus_ok (procs s) (cpus s)" using d(4) by (simp add: proc_inv_def)
  have uniq: "h = hart s" if "h < 8" "cpus s ! h = Some p" for h
    using c that d s(2) by (auto simp: cpus_ok_def myproc_def)
  have "cpus_ok (procs s') (cpus s')"
    unfolding cpus_ok_def s' length_list_update d(1,2)
  proof (intro conjI allI impI)
    fix h i assume h: "h < 8" "(cpus s)[hart s := None] ! h = Some i"
    then have "h \<noteq> hart s" using d by auto
    with h have i: "cpus s ! h = Some i" by simp
    with uniq h \<open>h \<noteq> hart s\<close> have "i \<noteq> p" by blast
    with c h i d show "i < 64" "p_state ((procs s)[p := q] ! i) = RUNNING" by (auto simp: cpus_ok_def)
  next
    fix h h' i assume "h < 8" "h' < 8" "(cpus s)[hart s := None] ! h = Some i" "(cpus s)[hart s := None] ! h' = Some i"
    with c d show "h = h'" by (auto simp: cpus_ok_def nth_list_update split: if_splits)
  next
    fix i assume i: "i < 64" "p_state ((procs s)[p := q] ! i) = RUNNING"
    then have "i \<noteq> p" using q(2) d r by auto
    with i c d have "Some i \<in> set (cpus s)" by (auto simp: cpus_ok_def)
    then obtain h where h: "h < 8" "cpus s ! h = Some i" using d by (auto simp: in_set_conv_nth)
    with \<open>i \<noteq> p\<close> s(2) have "h \<noteq> hart s" by (auto simp: myproc_def)
    with h d show "Some i \<in> set ((cpus s)[hart s := None])"
      by (metis length_list_update nth_list_update_neq nth_mem)
  qed
  moreover have "\<forall>x\<in>set (procs s'). slot_ok (nextpid s) x"
    using set_update_subset_insert [of "procs s" p q] d(4) q(1) by (auto simp: s' proc_inv_def)
  moreover have "pids_ok (procs s')"
    using d(1,4) q(3) r(1) unfolding pids_ok_def s' proc_inv_def
    by (metis length_list_update nth_list_update_eq nth_list_update_neq)
  ultimately show ?thesis using d s' by (simp add: proc_inv_def)
qed

lemma proc_inv_pointwise:
  assumes "proc_inv s" "length (procs s') = length (procs s)" "cpus s' = cpus s" "nextpid s' = nextpid s"
    and "\<And>i. i < 64 \<Longrightarrow> slot_ok (nextpid s) (procs s' ! i) \<and> p_pid (procs s' ! i) = p_pid (procs s ! i) \<and>
      (p_state (procs s' ! i) = RUNNING) = (p_state (procs s ! i) = RUNNING)"
  shows "proc_inv s'"
proof -
  have len: "length (procs s) = 64" using assms(1) by (simp add: proc_inv_def)
  have "\<forall>q\<in>set (procs s'). slot_ok (nextpid s) q"
    using assms(2,5) len by (auto simp: in_set_conv_nth)
  moreover have "cpus_ok (procs s') (cpus s')"
    using assms(1,2,3,5) len unfolding proc_inv_def cpus_ok_def by metis
  moreover have "pids_ok (procs s')"
    using assms(1,2,5) len unfolding proc_inv_def pids_ok_def by simp
  ultimately show ?thesis using assms by (simp add: proc_inv_def)
qed

lemma wakeup_simps [simp]:
  "cpus (wakeup ch s) = cpus s" "nextpid (wakeup ch s) = nextpid s" "hart (wakeup ch s) = hart s"
  "length (procs (wakeup ch s)) = length (procs s)" "initproc (wakeup ch s) = initproc s"
  "myproc (wakeup ch s) = myproc s"
  by (simp_all add: wakeup_def myproc_def)

lemma wakeup_slot:
  "i < length (procs s) \<Longrightarrow> procs (wakeup ch s) ! i =
    (if Some i \<noteq> myproc s \<and> p_state (procs s ! i) = SLEEPING \<and> p_chan (procs s ! i) = ch
     then (procs s ! i)\<lparr>p_state := RUNNABLE\<rparr> else procs s ! i)"
  by (simp add: wakeup_def Let_def)

lemma hart_ok_wakeup:
  assumes "hart_ok s" shows "hart_ok (wakeup ch s)"
proof -
  have "proc_inv (wakeup ch s)"
    using hart_okD(4) [OF assms]
    by (rule proc_inv_pointwise)
      (use hart_okD [OF assms] hart_ok_slot [OF assms] in \<open>auto simp: wakeup_slot slot_ok_def\<close>)
  with assms show ?thesis by (simp add: hart_ok_def)
qed

lemma hart_ok_upd:
  assumes "hart_ok s" "p < 64" "slot_ok (nextpid s) (f (procs s ! p))"
    and "(p_state (f (procs s ! p)) = RUNNING) = (p_state (procs s ! p) = RUNNING)"
    and "p_pid (f (procs s ! p)) = p_pid (procs s ! p)"
  shows "hart_ok (upd_proc p f s)"
proof -
  have "proc_inv (upd_proc p f s)"
    by (rule proc_inv_upd [OF hart_okD(4) [OF assms(1)] assms(2), where q = "f (procs s ! p)"])
      (use assms in simp_all)
  with assms(1) show ?thesis by (simp add: hart_ok_def)
qed

lemma hart_ok_reparent:
  assumes "hart_ok s"
  shows "hart_ok (reparent p s)" "myproc (reparent p s) = myproc s"
    "\<And>i. i < 64 \<Longrightarrow> p_state (procs s ! i) = RUNNING \<Longrightarrow> p_state (procs (reparent p s) ! i) = RUNNING"
proof -
  define f where "f = (\<lambda>s i. if p_parent (procs s ! i) = Some p
                  then let s1 = upd_proc i (\<lambda>q. q\<lparr>p_parent := initproc s\<rparr>) s
                       in case initproc s1 of None \<Rightarrow> wakeup NoChan s1 | Some ip \<Rightarrow> wakeup (ChProc ip) s1
                  else (s :: 'a pstate_scheme))"
  have step: "hart_ok (f s i) \<and> myproc (f s i) = myproc s" if "hart_ok s" "i < 64" for s i
  proof -
    have "hart_ok (upd_proc i (\<lambda>q. q\<lparr>p_parent := initproc s\<rparr>) s)"
      using that hart_ok_slot [OF that] by (intro hart_ok_upd) (auto simp: slot_ok_def)
    moreover have "myproc (upd_proc i g s) = myproc s" for g by (simp add: myproc_def)
    ultimately show ?thesis
      using that by (auto simp: f_def Let_def intro!: hart_ok_wakeup split: option.splits)
  qed
  have "hart_ok (foldl f s xs) \<and> myproc (foldl f s xs) = myproc s" if "\<forall>i\<in>set xs. i < 64" "hart_ok s" for xs s
    using that by (induction xs arbitrary: s) (simp_all add: step)
  from this [of "[0..<length (procs s)]" s] hart_okD(1) [OF assms] assms
  show h: "hart_ok (reparent p s)" and m: "myproc (reparent p s) = myproc s"
    by (auto simp: reparent_def f_def)
  have cpus_f: "cpus (f s i) = cpus s" for s i by (simp add: f_def Let_def split: option.splits)
  have "cpus (foldl f s xs) = cpus s" for xs s by (induction xs arbitrary: s) (simp_all add: cpus_f)
  then have c: "cpus (reparent p s) = cpus s" by (simp add: reparent_def f_def)
  show "p_state (procs (reparent p s) ! i) = RUNNING" if "i < 64" "p_state (procs s ! i) = RUNNING" for i
  proof -
    have "Some i \<in> set (cpus s)" using assms that by (auto simp: hart_ok_def proc_inv_def cpus_ok_def)
    then show ?thesis
      using h unfolding c [symmetric] by (auto simp: hart_ok_def proc_inv_def cpus_ok_def in_set_conv_nth)
  qed
qed

lemma sched_Ok:
  "sched s = Ok s' \<Longrightarrow> s' = s\<lparr>cpus := (cpus s)[hart s := None]\<rparr>"
  by (auto simp: sched_def split: option.splits if_splits)

lemma hart_ok_stop:
  assumes "hart_ok s" "myproc s = Some p" "sched (upd_proc p f s) = Ok s'"
    and "slot_ok (nextpid s) (f (procs s ! p))" "p_state (f (procs s ! p)) \<noteq> RUNNING"
      "p_pid (f (procs s ! p)) = p_pid (procs s ! p)"
  shows "hart_ok s'"
proof -
  have s': "s' = (upd_proc p f s)\<lparr>cpus := (cpus s)[hart s := None]\<rparr>" using sched_Ok [OF assms(3)] by simp
  have "proc_inv s'"
    by (rule proc_inv_stop [OF assms(1,2), where q = "f (procs s ! p)"]) (use assms(4-) in \<open>simp_all add: s'\<close>)
  with assms(1) show ?thesis by (simp add: hart_ok_def s')
qed

lemma hart_ok_freeproc:
  assumes "hart_ok s" "p < 64" "p_state (procs s ! p) \<noteq> RUNNING" "freeproc p s = Ok s'"
  shows "hart_ok s'"
proof -
  note t = freeproc_table [OF assms(4)]
  have "proc_inv s'"
    by (rule proc_inv_upd [OF hart_okD(4) [OF assms(1)] assms(2) t(1)])
      (use t assms(3) in \<open>simp_all add: slot_ok_def\<close>)
  with assms(1) t show ?thesis by (simp add: hart_ok_def)
qed

lemma hart_ok_kframe:
  fixes s :: "'a pstate_scheme"
  assumes "hart_ok s" "kframe s s'" shows "hart_ok s'"
  using assms kframe_pstate [OF assms(2)] by (auto simp: hart_ok_def intro: proc_inv_cong)

lemma hart_ok_schedule:
  assumes s: "hart_ok s" "cpus s ! hart s = None" "p < 64"
  shows "hart_ok (scheduler_visit (hart s) p s)"
proof (cases "p_state (procs s ! p) = RUNNABLE")
  case True
  note d = hart_okD [OF s(1)]
  let ?q = "(procs s ! p)\<lparr>p_state := RUNNING\<rparr>"
  have c: "cpus_ok (procs s) (cpus s)" using d(4) by (simp add: proc_inv_def)
  have free: "cpus s ! h \<noteq> Some p" if "h < 8" for h
    using c that d True by (auto simp: cpus_ok_def)
  have "cpus_ok ((procs s)[p := ?q]) ((cpus s)[hart s := Some p])"
    unfolding cpus_ok_def length_list_update d(1,2)
  proof (intro conjI allI impI)
    fix h i assume h: "h < 8" "(cpus s)[hart s := Some p] ! h = Some i"
    have old: "i < 64 \<and> p_state (procs s ! i) = RUNNING" if "h \<noteq> hart s"
      using h c d(1,2) that by (simp add: cpus_ok_def)
    show "i < 64" "p_state ((procs s)[p := ?q] ! i) = RUNNING"
      using h old d(1,2) s(3) by (cases "h = hart s"; cases "i = p"; simp)+
  next
    fix h h' i
    assume "h < 8" "h' < 8" "(cpus s)[hart s := Some p] ! h = Some i" "(cpus s)[hart s := Some p] ! h' = Some i"
    with c d free show "h = h'" by (auto simp: cpus_ok_def nth_list_update split: if_splits)
  next
    fix i assume i: "i < 64" "p_state ((procs s)[p := ?q] ! i) = RUNNING"
    show "Some i \<in> set ((cpus s)[hart s := Some p])"
    proof (cases "i = p")
      case True
      with d show ?thesis by (simp add: set_update_memI)
    next
      case False
      with i c d have "Some i \<in> set (cpus s)" by (auto simp: cpus_ok_def)
      then obtain h where h: "h < 8" "cpus s ! h = Some i" using d by (auto simp: in_set_conv_nth)
      with s(2) have "h \<noteq> hart s" by auto
      with h d show ?thesis by (metis length_list_update nth_list_update_neq nth_mem)
    qed
  qed
  moreover have "slot_ok (nextpid s) ?q" using hart_ok_slot [OF s(1,3)] True by (auto simp: slot_ok_def)
  then have "\<forall>x\<in>set ((procs s)[p := ?q]). slot_ok (nextpid s) x"
    using set_update_subset_insert [of "procs s" p ?q] d(4) by (auto simp: proc_inv_def)
  moreover have "p_pid ((procs s)[p := ?q] ! i) = p_pid (procs s ! i)" for i
    using s(3) d(1) by (cases "i = p") simp_all
  then have "pids_ok ((procs s)[p := ?q])"
    using d(4) by (simp add: pids_ok_def proc_inv_def)
  ultimately show ?thesis using d True by (simp add: hart_ok_def proc_inv_def scheduler_visit_def)
qed (use s in \<open>simp add: scheduler_visit_def\<close>)

lemma kframe_growproc:
  assumes "growproc p n s = Ok (r, s')"
  shows "\<exists>s1. kframe s s1 \<and> (s' = s1 \<or> (\<exists>sz. s' = upd_proc p (\<lambda>q. q\<lparr>p_sz := sz\<rparr>) s1))"
proof -
  consider "n > 0" | "n < 0" | "n = 0" by linarith
  then show ?thesis
  proof cases
    case 1
    with assms show ?thesis
      by (auto simp: growproc_def Let_def split: if_splits dest!: kframe_uvmalloc) blast+
  next
    case 2
    with assms show ?thesis
      by (auto simp: growproc_def Let_def split: if_splits dest!: kframe_uvmdealloc)
  next
    case 3
    with assms show ?thesis by (auto simp: growproc_def Let_def intro!: exI [of _ s])
  qed
qed

lemma proc_step_hart_ok:
  assumes "proc_step s s'" "hart_ok s"
  shows "hart_ok s'"
  using assms(1)
proof cases
  case (switch_hart h)
  then show ?thesis using assms(2) by (simp add: hart_ok_def proc_inv_def)
next
  case (schedule p)
  then show ?thesis using hart_ok_schedule assms(2) by blast
next
  case (yields p)
  note r = myproc_running [OF assms(2) yields(1)]
  from yields(2) show ?thesis unfolding yield_def
    by (rule hart_ok_stop [OF assms(2) yields(1)])
      (use r hart_ok_slot [OF assms(2) r(1)] in \<open>auto simp: slot_ok_def\<close>)
next
  case (sleeps p ch)
  note r = myproc_running [OF assms(2) sleeps(1)]
  from sleeps(3) show ?thesis unfolding sleep_def
    by (rule hart_ok_stop [OF assms(2) sleeps(1)])
      (use r sleeps(2) hart_ok_slot [OF assms(2) r(1)] in \<open>auto simp: slot_ok_def\<close>)
next
  case (resumes p)
  note r = myproc_running [OF assms(2) resumes(2)]
  show ?thesis unfolding resumes(1) sleep_resume_def
    by (rule hart_ok_upd [OF assms(2) r(1)])
      (use r hart_ok_slot [OF assms(2) r(1)] in \<open>auto simp: slot_ok_def\<close>)
next
  case (wakes ch)
  then show ?thesis using hart_ok_wakeup assms(2) by blast
next
  case (kills pid r)
  show ?thesis
  proof (cases "find_index (\<lambda>q. p_pid q = pid) (procs s)")
    case None
    with kills assms(2) show ?thesis by (simp add: kill_def)
  next
    case (Some p)
    have p: "p < 64" using find_index_Some [OF Some] hart_okD(1) [OF assms(2)] by simp
    have "hart_ok (upd_proc p (\<lambda>q. q\<lparr>p_killed := True,
        p_state := (if p_state q = SLEEPING then RUNNABLE else p_state q)\<rparr>) s)"
      by (rule hart_ok_upd [OF assms(2) p])
        (use hart_ok_slot [OF assms(2) p] in \<open>auto simp: slot_ok_def\<close>)
    with Some kills show ?thesis by (auto simp: kill_def)
  qed
next
  case (allocs r)
  from allocs show ?thesis
  proof (cases rule: allocproc_table)
    case (slot p q)
    then have p: "p < 64" using hart_okD(1) [OF assms(2)] by simp
    have "0 < nextpid s" using hart_okD(4) [OF assms(2)] by (simp add: proc_inv_def)
    then have "proc_inv s'"
      by (intro proc_inv_upd [OF hart_okD(4) [OF assms(2)] p slot(3,4)])
        (use slot in \<open>auto simp: slot_ok_def\<close>)
    with slot assms(2) show ?thesis by (simp add: hart_ok_def)
  qed (use assms(2) in simp)
next
  case (forks p)
  show ?thesis unfolding forks(1)
    by (rule hart_ok_upd [OF assms(2) forks(2)])
      (use forks(3) hart_ok_slot [OF assms(2) forks(2)] in \<open>auto simp: slot_ok_def\<close>)
next
  case (unforks p)
  then show ?thesis by (intro hart_ok_freeproc [OF assms(2) unforks(1)]) simp_all
next
  case (exits p st)
  note r = myproc_running [OF assms(2) exits(1)]
  note rp = hart_ok_reparent [OF assms(2), of p]
  define s2 where "s2 = (case p_parent (procs (reparent p s) ! p) of
      None \<Rightarrow> wakeup NoChan (reparent p s) | Some pp \<Rightarrow> wakeup (ChProc pp) (reparent p s))"
  have h2: "hart_ok s2" and m2: "myproc s2 = Some p"
    using rp exits(1) by (auto simp: s2_def intro: hart_ok_wakeup split: option.splits)
  note r2 = myproc_running [OF h2 m2]
  have "sched (upd_proc p (\<lambda>q. q\<lparr>p_xstate := st, p_state := ZOMBIE\<rparr>) s2) = Ok s'"
    using exits(2) by (simp add: exit_sched_def Let_def s2_def)
  then show ?thesis
    by (rule hart_ok_stop [OF h2 m2]) (use r2 hart_ok_slot [OF h2 r2(1)] in \<open>auto simp: slot_ok_def\<close>)
next
  case (waits p addr r)
  show ?thesis
  proof (cases "find_index (\<lambda>q. p_parent q = Some p \<and> p_state q = ZOMBIE) (procs s)")
    case None
    note r = myproc_running [OF assms(2) waits(1)]
    from None waits have "s' = s \<or> sleep p (ChProc p) s = Ok s'"
      by (auto simp: wait_def split: if_splits)
    then show ?thesis
    proof
      assume "sleep p (ChProc p) s = Ok s'"
      then show ?thesis unfolding sleep_def
        by (rule hart_ok_stop [OF assms(2) waits(1)])
          (use r hart_ok_slot [OF assms(2) r(1)] in \<open>auto simp: slot_ok_def\<close>)
    qed (use assms(2) in simp)
  next
    case (Some np)
    note f = find_index_Some [OF Some]
    then have np: "np < 64" "p_state (procs s ! np) = ZOMBIE" using hart_okD(1) [OF assms(2)] by simp_all
    obtain c s1 where c: "(if addr \<noteq> 0
        then copyout (p_pagetable (procs s ! p)) addr (int_bytes (p_xstate (procs s ! np))) s else (0, s)) = (c, s1)"
      by fastforce
    have k: "kframe s s1" using c by (auto split: if_splits intro: kframe_copyout)
    have h1: "hart_ok s1" using assms(2) k by (rule hart_ok_kframe)
    have "s' = s1 \<or> freeproc np s1 = Ok s'"
      using waits(2) Some c by (auto simp: wait_def Let_def split: if_splits prod.splits)
    then show ?thesis
      using hart_ok_freeproc [OF h1 np(1)] h1 np(2) kframe_pstate [OF k] by auto
  qed
next
  case (grows p n r)
  note r = myproc_running [OF assms(2) grows(1)]
  obtain s1 where k: "kframe s s1" and s': "s' = s1 \<or> (\<exists>sz. s' = upd_proc p (\<lambda>q. q\<lparr>p_sz := sz\<rparr>) s1)"
    using kframe_growproc [OF grows(2)] by blast
  have h1: "hart_ok s1" using assms(2) k by (rule hart_ok_kframe)
  have "hart_ok (upd_proc p (\<lambda>q. q\<lparr>p_sz := sz\<rparr>) s1)" for sz
    by (rule hart_ok_upd [OF h1 r(1)]) (use hart_ok_slot [OF h1 r(1)] in \<open>auto simp: slot_ok_def\<close>)
  with s' h1 show ?thesis by auto
qed

section \<open>A new process's address space\<close>

lemma pt_keepD:
  "pt_keep pt s ps s' ps' \<Longrightarrow> kmem_inv s' ps' \<and> pt_wf s' ps' pt"
  by (simp add: pt_keep_def)

lemma proc_pagetable_ok:
  assumes "kmem_inv s ps" "5 \<le> length ps"
  obtains pt s' ps' where "proc_pagetable p s = Ok (pt, s')" "pt \<noteq> 0" "kmem_inv s' ps'" "pt_wf s' ps' pt"
    "length ps \<le> length ps' + 5"
    "\<forall>va<MAXVA. lookup (mem s') pt va =
       (if PGROUNDDOWN va = TRAPFRAME then PA2PTE (p_trapframe (procs s ! p)) OR (PTE_R OR PTE_W) OR PTE_V
        else if PGROUNDDOWN va = TRAMPOLINE then PA2PTE (trampoline s) OR (PTE_R OR PTE_X) OR PTE_V
        else 0)"
proof -
  obtain pt qs where ps: "ps = pt # qs" using assms(2) by (cases ps) auto
  obtain s1 where s1: "uvmcreate s = (pt, s1)" "kmem_inv s1 qs" "pt_wf s1 qs pt" "\<And>va. lookup (mem s1) pt va = 0"
    using uvmcreate_fresh [OF assms(1) [unfolded ps]] by metis
  have pt: "pt \<noteq> 0" using ka.inv_valid [OF assms(1), of pt] ka.valid_pos [OF assms(1), of pt] ps by simp
  have k1: "trampoline s1 = trampoline s" "procs s1 = procs s"
    using kframe_pstate [OF kframe_uvmcreate [OF s1(1)]] by simp_all
  have al: "page_aligned TRAMPOLINE" "page_aligned TRAPFRAME" by (simp_all add: page_aligned_def)
  have le: "unat (TRAMPOLINE :: uint64) + 4096 \<le> unat (MAXVA :: uint64)"
    "unat (TRAPFRAME :: uint64) + 4096 \<le> unat (MAXVA :: uint64)" by simp_all
  have v1: "lookup (mem s1) pt TRAMPOLINE AND PTE_V = 0" by (simp add: s1(4))
  have l1: "2 \<le> length qs" using assms(2) ps by simp
  obtain s2 ps2 where m2: "mappages pt TRAMPOLINE PGSIZE (trampoline s) (PTE_R OR PTE_X) s1 = Ok (0, s2)"
    "pt_keep pt s1 qs s2 ps2" "length qs \<le> length ps2 + 2"
    and lk2: "\<forall>vb<MAXVA. lookup (mem s2) pt vb = (if PGROUNDDOWN vb = TRAMPOLINE
       then PA2PTE (trampoline s) OR (PTE_R OR PTE_X) OR PTE_V else lookup (mem s1) pt vb)"
    using s1(2,3) al(1) le(1) v1 l1 by (rule mappages_page)
  have k2: "procs s2 = procs s" using kframe_pstate [OF kframe_mappages [OF m2(1)]] k1 by simp
  have inv2: "kmem_inv s2 ps2" "pt_wf s2 ps2 pt" using pt_keepD [OF m2(2)] by simp_all
  have "(TRAPFRAME :: uint64) < MAXVA" "PGROUNDDOWN TRAPFRAME \<noteq> (TRAMPOLINE :: uint64)"
    by (simp_all add: PGROUNDDOWN_eq)
  then have v2: "lookup (mem s2) pt TRAPFRAME AND PTE_V = 0" using lk2 s1(4) by simp
  have len2: "2 \<le> length ps2" using assms(2) ps m2(3) by simp
  obtain s3 ps3 where m3: "mappages pt TRAPFRAME PGSIZE (p_trapframe (procs s ! p)) (PTE_R OR PTE_W) s2 = Ok (0, s3)"
    "pt_keep pt s2 ps2 s3 ps3" "length ps2 \<le> length ps3 + 2"
    and lk3: "\<forall>vb<MAXVA. lookup (mem s3) pt vb = (if PGROUNDDOWN vb = TRAPFRAME
       then PA2PTE (p_trapframe (procs s ! p)) OR (PTE_R OR PTE_W) OR PTE_V else lookup (mem s2) pt vb)"
    using inv2 al(2) le(2) v2 len2 by (rule mappages_page)
  show ?thesis
  proof (rule that [of pt s3 ps3])
    show "proc_pagetable p s = Ok (pt, s3)"
      using m2(1) m3(1) k1 k2 pt s1(1) by (simp add: proc_pagetable_def)
    show "kmem_inv s3 ps3" "pt_wf s3 ps3 pt" using pt_keepD [OF m3(2)] by simp_all
    show "length ps \<le> length ps3 + 5" using ps m2(3) m3(3) by simp
    show "\<forall>va<MAXVA. lookup (mem s3) pt va =
       (if PGROUNDDOWN va = TRAPFRAME then PA2PTE (p_trapframe (procs s ! p)) OR (PTE_R OR PTE_W) OR PTE_V
        else if PGROUNDDOWN va = TRAMPOLINE then PA2PTE (trampoline s) OR (PTE_R OR PTE_X) OR PTE_V
        else 0)"
      using lk2 lk3 s1(4) by simp
  qed (rule pt)
qed

lemma kmem_inv_upd_proc [simp]: "kmem_inv (upd_proc p f s) ps \<longleftrightarrow> kmem_inv s ps"
  "pt_wf (upd_proc p f s) ps pt \<longleftrightarrow> pt_wf s ps pt"
  "kmem_inv (s\<lparr>nextpid := n\<rparr>) ps \<longleftrightarrow> kmem_inv s ps"
  by (simp_all add: kmem_inv_def valid_page_def pt_wf_def upd_proc_def)

lemma allocproc_ok:
  assumes "kmem_inv s ps" "6 \<le> length ps" "find_index (\<lambda>q. p_state q = UNUSED) (procs s) = Some p"
  shows "\<exists>s' ps'. allocproc s = Ok (Some p, s') \<and> kmem_inv s' ps' \<and>
    pt_wf s' ps' (p_pagetable (procs s' ! p)) \<and>
    p_state (procs s' ! p) = USED \<and> p_pid (procs s' ! p) = nextpid s \<and> p_vmas (procs s' ! p) = replicate 16 vma0 \<and>
    (\<forall>va<MAXVA. lookup (mem s') (p_pagetable (procs s' ! p)) va =
       (if PGROUNDDOWN va = TRAPFRAME then PA2PTE (p_trapframe (procs s' ! p)) OR (PTE_R OR PTE_W) OR PTE_V
        else if PGROUNDDOWN va = TRAMPOLINE then PA2PTE (trampoline s) OR (PTE_R OR PTE_X) OR PTE_V
        else 0))"
proof -
  have p: "p < length (procs s)" using find_index_Some [OF assms(3)] by simp
  let ?q = "(procs s ! p)\<lparr>p_pid := nextpid s, p_state := USED, p_vmas := replicate 16 vma0\<rparr>"
  let ?s2 = "upd_proc p (\<lambda>q. q\<lparr>p_pid := nextpid s, p_state := USED, p_vmas := replicate 16 vma0\<rparr>)
    (s\<lparr>nextpid := nextpid s + 1\<rparr>)"
  obtain tf qs where ps: "ps = tf # qs" using assms(2) by (cases ps) auto
  have "kmem_inv ?s2 (tf # qs)" using assms(1) ps by simp
  then obtain s3 where al: "kalloc ?s2 = (tf, s3)" "kmem_inv s3 qs" using ka.alloc_Cons by blast
  have tf: "tf \<noteq> 0" using ka.inv_valid [OF assms(1), of tf] ka.valid_pos [OF assms(1), of tf] ps by simp
  note k3 = kframe_pstate [OF kframe_kalloc [OF al(1)]]
  let ?s4 = "upd_proc p (\<lambda>q. q\<lparr>p_trapframe := tf\<rparr>) s3"
  have inv4: "kmem_inv ?s4 qs" "5 \<le> length qs" using al(2) assms(2) ps by simp_all
  obtain pt s5 ps5 where pg: "proc_pagetable p ?s4 = Ok (pt, s5)" "pt \<noteq> 0" "kmem_inv s5 ps5" "pt_wf s5 ps5 pt"
    "length qs \<le> length ps5 + 5"
    and lk: "\<forall>va<MAXVA. lookup (mem s5) pt va =
       (if PGROUNDDOWN va = TRAPFRAME then PA2PTE (p_trapframe (procs ?s4 ! p)) OR (PTE_R OR PTE_W) OR PTE_V
        else if PGROUNDDOWN va = TRAMPOLINE then PA2PTE (trampoline ?s4) OR (PTE_R OR PTE_X) OR PTE_V
        else 0)"
    using inv4 by (rule proc_pagetable_ok)
  note k5 = kframe_pstate [OF kframe_proc_pagetable [OF pg(1)]]
  have t: "trampoline ?s4 = trampoline s" "p_trapframe (procs ?s4 ! p) = tf"
    using k3 p by (simp_all add: upd_proc_def)
  let ?s6 = "upd_proc p (\<lambda>q. q\<lparr>p_pagetable := pt\<rparr>) s5"
  let ?s' = "upd_proc p (\<lambda>q. q\<lparr>p_context := (replicate 14 0)[0 := forkret ?s6, 1 := p_kstack q + PGSIZE]\<rparr>) ?s6"
  have "allocproc s = Ok (Some p, ?s')"
    using assms(3) al(1) tf pg(1,2) by (simp add: allocproc_def allocpid_def Let_def)
  moreover have "procs ?s' ! p = ?q\<lparr>p_trapframe := tf, p_pagetable := pt,
      p_context := (replicate 14 0)[0 := forkret ?s6, 1 := p_kstack (procs s ! p) + PGSIZE]\<rparr>"
    using k5 k3 p by simp
  ultimately show ?thesis
    using pg(3,4) lk t by (intro exI [of _ ?s'] exI [of _ ps5]) simp
qed

section \<open>Properties\<close>

definition proc_boot :: "'a pstate_scheme \<Rightarrow> bool" where
  "proc_boot s \<longleftrightarrow> length (procs s) = 64 \<and> (\<forall>q\<in>set (procs s). p_state q = UNUSED \<and> p_pid q = 0) \<and>
     cpus s = replicate 8 None \<and> nextpid s = 1 \<and> hart s < 8"

lemma proc_boot_hart_ok: "proc_boot s \<Longrightarrow> hart_ok s"
  by (auto simp: proc_boot_def hart_ok_def proc_inv_def slot_ok_def cpus_ok_def pids_ok_def)


text \<open>
  C29. \<^verbatim>\<open>kill(0)\<close> reaches a free slot: free slots have pid 0, so it marks the first of them
  killed and reports success, and the next process that \<^verbatim>\<open>allocproc\<close> creates, which takes that
  slot, starts out killed.
\<close>

theorem kill_zero_poisons_next:
  assumes "hart_ok s" "p < 64" "p_state (procs s ! p) = UNUSED"
    and "allocproc (snd (kill 0 s)) = Ok (Some np, s')"
  shows "fst (kill 0 s) = 0 \<and> p_killed (procs s' ! np)"
proof -
  note d = hart_okD [OF assms(1)] and sl = hart_ok_slot [OF assms(1)]
  have iff: "p_pid (procs s ! i) = 0 \<longleftrightarrow> p_state (procs s ! i) = UNUSED" if "i < 64" for i
    using sl [OF that] by (auto simp: slot_ok_def split: if_splits)
  have "procs s ! p \<in> set (procs s)" using assms(2) d(1) by simp
  with iff [OF assms(2)] assms(3) obtain k where k: "find_index (\<lambda>q. p_pid q = 0) (procs s) = Some k"
    using find_index_None [of "\<lambda>q. p_pid q = 0" "procs s"] by (cases "find_index (\<lambda>q. p_pid q = 0) (procs s)") auto
  note fk = find_index_Some [OF k]
  let ?f = "\<lambda>q. q\<lparr>p_killed := True, p_state := (if p_state q = SLEEPING then RUNNABLE else p_state q)\<rparr>"
  have k0: "kill 0 s = (0, upd_proc k ?f s)" using k by (simp add: kill_def)
  have al: "allocproc (upd_proc k ?f s) = Ok (Some np, s')" using assms(4) k0 by simp
  from al show ?thesis
  proof (cases rule: allocproc_table)
    case (slot i q)
    then have i: "find_index (\<lambda>q. p_state q = UNUSED) ((procs s)[k := ?f (procs s ! k)]) = Some i" and np: "np = i"
      by simp_all
    note fi = find_index_Some [OF i]
    have uk: "p_state (procs s ! k) = UNUSED" using fk iff [of k] d(1) by simp
    have "\<not> k < i" using fi fk uk by auto
    moreover have "\<not> i < k"
    proof
      assume "i < k"
      with fi have "p_state (procs s ! i) = UNUSED" by simp
      with iff [of i] fk \<open>i < k\<close> d(1) show False by auto
    qed
    ultimately have "i = k" by simp
    with slot fk np k0 show ?thesis by simp
  qed simp
qed

lemma reparent_slot:
  fixes s :: "'a pstate_scheme"
  assumes "i < length (procs s)" "p_parent (procs s ! i) \<noteq> Some p"
  shows "p_parent (procs (reparent p s) ! i) = p_parent (procs s ! i)"
    and "p_state (procs s ! i) = SLEEPING \<Longrightarrow> p_state (procs (reparent p s) ! i) = SLEEPING \<or>
      p_state (procs (reparent p s) ! i) = RUNNABLE"
    and "p_chan (procs (reparent p s) ! i) = p_chan (procs s ! i)"
proof -
  define f where "f = (\<lambda>s i. if p_parent (procs s ! i) = Some p
                  then let s1 = upd_proc i (\<lambda>q. q\<lparr>p_parent := initproc s\<rparr>) s
                       in case initproc s1 of None \<Rightarrow> wakeup NoChan s1 | Some ip \<Rightarrow> wakeup (ChProc ip) s1
                  else (s :: 'a pstate_scheme))"
  define R where "R = (\<lambda>(s :: 'a pstate_scheme) (s' :: 'a pstate_scheme). length (procs s') = length (procs s) \<and>
     p_parent (procs s' ! i) = p_parent (procs s ! i) \<and> p_chan (procs s' ! i) = p_chan (procs s ! i) \<and>
     (p_state (procs s ! i) = SLEEPING \<or> p_state (procs s ! i) = RUNNABLE \<longrightarrow>
      p_state (procs s' ! i) = SLEEPING \<or> p_state (procs s' ! i) = RUNNABLE))"
  have trans: "R s s1 \<Longrightarrow> R s1 s2 \<Longrightarrow> R s s2" for s s1 s2 by (auto simp: R_def)
  have wk: "R s (wakeup ch s)" if "i < length (procs s)" for s ch
    using that by (auto simp: R_def wakeup_slot)
  have up: "R s (upd_proc j g s)" if "j \<noteq> i" for s j g using that by (simp add: R_def)
  have step: "R s (f s j)" if i: "i < length (procs s)" "p_parent (procs s ! i) \<noteq> Some p" for s j
  proof (cases "p_parent (procs s ! j) = Some p")
    case True
    with i have "j \<noteq> i" by auto
    then have "R s (wakeup ch (upd_proc j g s))" for ch g
      using trans [OF up [of j s g] wk [of "upd_proc j g s" ch]] i(1) by simp
    with True show ?thesis by (simp add: f_def Let_def split: option.splits)
  qed (simp add: f_def R_def)
  have "R s (foldl f s xs)" if "i < length (procs s)" "p_parent (procs s ! i) \<noteq> Some p" for xs s
    using that
  proof (induction xs arbitrary: s)
    case (Cons x xs)
    have "R s (f s x)" using step Cons.prems by blast
    then have "R (f s x) (foldl f (f s x) xs)" using Cons by (auto simp: R_def)
    with \<open>R s (f s x)\<close> show ?case using trans by simp
  qed (simp add: R_def)
  from this [OF assms, of "[0..<length (procs s)]"] have "R s (reparent p s)"
    by (simp add: reparent_def f_def)
  then show "p_parent (procs (reparent p s) ! i) = p_parent (procs s ! i)"
    "p_chan (procs (reparent p s) ! i) = p_chan (procs s ! i)"
    "p_state (procs s ! i) = SLEEPING \<Longrightarrow> p_state (procs (reparent p s) ! i) = SLEEPING \<or>
      p_state (procs (reparent p s) ! i) = RUNNABLE"
    by (auto simp: R_def)
qed

text \<open>
  C26. \<^verbatim>\<open>exit\<close> does not lose a waiting parent: when a process with a parent that sleeps in
  \<^verbatim>\<open>wait\<close> exits, the switch to the scheduler succeeds, the parent is runnable, the process
  is a zombie with its exit status and still the parent's child, so that the parent's next scan of
  the table finds it.
\<close>

theorem exit_wakes_parent:
  assumes "hart_ok s" "myproc s = Some p" "p_parent (procs s ! p) = Some pp" "pp < 64" "pp \<noteq> p"
    and "p_state (procs s ! pp) = SLEEPING" "p_chan (procs s ! pp) = ChProc pp"
    and "p_parent (procs s ! pp) \<noteq> Some p"
  shows "\<exists>s'. exit_sched p status s = Ok s' \<and> p_state (procs s' ! pp) = RUNNABLE \<and>
    p_state (procs s' ! p) = ZOMBIE \<and> p_xstate (procs s' ! p) = status \<and>
    find_index (\<lambda>q. p_parent q = Some pp \<and> p_state q = ZOMBIE) (procs s') \<noteq> None"
proof -
  note d = hart_okD [OF assms(1)] and r = myproc_running [OF assms(1,2)]
  note rp = hart_ok_reparent [OF assms(1), of p]
  let ?s1 = "reparent p s" and ?s2 = "wakeup (ChProc pp) (reparent p s)"
  have len: "length (procs ?s1) = 64" using hart_okD(1) [OF rp(1)] .
  have pp: "p_parent (procs ?s1 ! p) = Some pp"
    using reparent_slot(1) [of p s p] d(1) r(1) assms(3,5) by simp
  have m: "myproc ?s2 = Some p" using rp(2) assms(2) by simp
  let ?q = "(procs ?s2 ! p)\<lparr>p_xstate := status, p_state := ZOMBIE\<rparr>"
  let ?s' = "(upd_proc p (\<lambda>q. q\<lparr>p_xstate := status, p_state := ZOMBIE\<rparr>) ?s2)\<lparr>cpus := (cpus ?s2)[hart ?s2 := None]\<rparr>"
  have ex: "exit_sched p status s = Ok ?s'"
    using pp m len r(1) by (simp add: exit_sched_def sched_def myproc_def Let_def)
  have "p_state (procs ?s2 ! pp) = RUNNABLE"
    using reparent_slot(2,3) [of pp s p] d(1) assms(4-8) len rp(2) assms(2)
    by (auto simp: wakeup_slot)
  then have "p_state (procs ?s' ! pp) = RUNNABLE" using assms(5) by simp
  moreover have z: "procs ?s' ! p = ?q" using len r(1) by simp
  moreover have "p_parent ?q = Some pp" using pp len r(1) by (simp add: wakeup_slot)
  moreover have "?q \<in> set (procs ?s')" using len r(1) by (simp add: set_update_memI)
  ultimately show ?thesis using ex by (auto simp: find_index_None intro!: bexI [of _ ?q])
qed


section \<open>Concrete instances\<close>

definition proc0 :: proc where
  "proc0 = \<lparr>p_state = UNUSED, p_chan = NoChan, p_killed = False, p_xstate = 0, p_pid = 0, p_parent = None,
    p_kstack = 0, p_sz = 0, p_pagetable = 0, p_trapframe = 0, p_context = replicate 14 0,
    p_ofile = replicate 16 None, p_vmas = replicate 16 vma0, p_cwd = None, p_name = replicate 16 0\<rparr>"

text \<open>A machine after boot with six free pages.\<close>

definition demo_mem :: memory where
  "demo_mem = store64 0x87FFF000 0x87FFE000 (store64 0x87FFE000 0x87FFD000
     (store64 0x87FFD000 0x87FFC000 (store64 0x87FFC000 0x87FFB000 (store64 0x87FFB000 0x87FFA000 (\<lambda>_. 0)))))"

definition demo_free :: "uint64 list" where
  "demo_free = [0x87FFF000, 0x87FFE000, 0x87FFD000, 0x87FFC000, 0x87FFB000, 0x87FFA000]"

definition demo_ps :: pstate where
  "demo_ps = \<lparr>mem = demo_mem, freelist = 0x87FFF000, kend = 0x87FFA000,
     procs = replicate 64 proc0, cpus = replicate 8 None, hart = 0, initproc = None, nextpid = 1,
     trampoline = 0x80007000, forkret = 0x80001000\<rparr>"

lemma demo_ps_kmem_inv: "kmem_inv demo_ps demo_free"
  by (simp add: kmem_inv_def demo_ps_def demo_free_def demo_mem_def mem_eval valid_page_def page_aligned_def)

lemma demo_ps_boot: "proc_boot demo_ps"
  by (simp add: proc_boot_def demo_ps_def proc0_def)

lemma find_index_replicate: "P x \<Longrightarrow> find_index P (replicate (Suc n) x) = Some 0"
  by simp

lemma demo_slot0: "find_index (\<lambda>q. p_state q = UNUSED) (procs demo_ps) = Some 0"
  using find_index_replicate [of "\<lambda>q. p_state q = UNUSED" proc0 63]
  by (simp add: demo_ps_def proc0_def)



theorem kill_zero_poisons_next_witness:
  "\<exists>s'. fst (kill 0 demo_ps) = 0 \<and> allocproc (snd (kill 0 demo_ps)) = Ok (Some 0, s') \<and> p_killed (procs s' ! 0)"
proof -
  have h: "hart_ok demo_ps" using demo_ps_boot by (rule proc_boot_hart_ok)
  have u: "p_state (procs demo_ps ! 0) = UNUSED" by (simp add: demo_ps_def proc0_def)
  have "find_index (\<lambda>q. p_pid q = 0) (procs demo_ps) = Some 0"
    using find_index_replicate [of "\<lambda>q. p_pid q = 0" proc0 63] by (simp add: demo_ps_def proc0_def)
  then have k: "snd (kill 0 demo_ps) = upd_proc 0 (\<lambda>q. q\<lparr>p_killed := True,
      p_state := (if p_state q = SLEEPING then RUNNABLE else p_state q)\<rparr>) demo_ps"
    by (simp add: kill_def)
  have "kmem_inv (snd (kill 0 demo_ps)) demo_free" using demo_ps_kmem_inv by (simp add: k)
  moreover have "find_index (\<lambda>q. p_state q = UNUSED) (procs (snd (kill 0 demo_ps))) = Some 0"
  proof -
    have "procs demo_ps = proc0 # replicate 63 proc0"
      using replicate_Suc [of 63 proc0] by (simp add: demo_ps_def)
    then show ?thesis by (simp add: k proc0_def)
  qed
  ultimately obtain s' where s': "allocproc (snd (kill 0 demo_ps)) = Ok (Some 0, s')"
    using allocproc_ok [of "snd (kill 0 demo_ps)" demo_free 0] by (auto simp: demo_free_def)
  with kill_zero_poisons_next [OF h _ u s'] show ?thesis by auto
qed

text \<open>Process 1 runs on hart 0, its parent, process 0, waits for it.\<close>

definition demo_exit :: pstate where
  "demo_exit = demo_ps\<lparr>procs := (replicate 64 proc0)[0 := proc0\<lparr>p_state := SLEEPING, p_pid := 1, p_chan := ChProc 0\<rparr>,
      1 := proc0\<lparr>p_state := RUNNING, p_pid := 2, p_parent := Some 0\<rparr>],
    cpus := (replicate 8 None)[0 := Some 1], nextpid := 3\<rparr>"

lemma demo_exit_hart_ok: "hart_ok demo_exit"
proof -
  let ?ps = "procs demo_exit"
  have ps: "?ps ! i = (if i = 0 then proc0\<lparr>p_state := SLEEPING, p_pid := 1, p_chan := ChProc 0\<rparr>
      else if i = 1 then proc0\<lparr>p_state := RUNNING, p_pid := 2, p_parent := Some 0\<rparr> else proc0)" if "i < 64" for i
    using that by (simp add: demo_exit_def nth_list_update)
  have len: "length ?ps = 64" "length (cpus demo_exit) = 8" by (simp_all add: demo_exit_def)
  have cp: "cpus demo_exit ! h = (if h = 0 then Some 1 else None)" if "h < 8" for h
    using that by (simp add: demo_exit_def nth_list_update)
  have "slot_ok 3 (?ps ! i)" if "i < 64" for i
    using ps [OF that] by (cases "i = 0"; cases "i = 1") (simp_all add: slot_ok_def proc0_def)
  then have "\<forall>q\<in>set ?ps. slot_ok 3 q" using len(1) by (metis in_set_conv_nth)
  moreover have "cpus_ok ?ps (cpus demo_exit)"
  proof -
    have "Some 1 \<in> set (cpus demo_exit)" using cp [of 0] len by (metis nth_mem zero_less_numeral)
    then show ?thesis using ps cp len by (auto simp: cpus_ok_def proc0_def split: if_splits)
  qed
  moreover have "pids_ok ?ps" using ps len by (auto simp: pids_ok_def proc0_def split: if_splits)
  ultimately show ?thesis using len by (simp add: hart_ok_def proc_inv_def demo_exit_def demo_ps_def)
qed

theorem exit_wakes_parent_witness:
  "\<exists>s'. exit_sched 1 7 demo_exit = Ok s' \<and> p_state (procs s' ! 0) = RUNNABLE \<and> p_xstate (procs s' ! 1) = 7"
  using exit_wakes_parent [OF demo_exit_hart_ok, of 1 0 7]
  by (auto simp: demo_exit_def demo_ps_def myproc_def proc0_def)

end
