(* ===== verification/Bio.thy ===== *)
theory Bio
  imports Proc
begin

text \<open>
  \<^verbatim>\<open>kernel/bio.c\<close> and \<^verbatim>\<open>kernel/sleeplock.c\<close> on its buffers: the cache of disk
  blocks. The doubly linked list through \<^verbatim>\<open>prev\<close>/\<^verbatim>\<open>next\<close> is the list \<open>lru\<close> of
  buffer indices from \<^verbatim>\<open>head.next\<close> to \<^verbatim>\<open>head.prev\<close>. The disk is a function from block
  numbers to blocks; \<open>virtio_disk_rw\<close> is its effect when the request has completed, and
  \<open>dtrace\<close> records the blocks written, oldest first, so that a crash is a prefix of it.

  The contract of the cache is the locale \<open>block_cache\<close>: what a reader sees of a block
  (\<open>view\<close>), how many references keep it in the cache (\<open>refs\<close>), and which blocks are locked.
\<close>

section \<open>State\<close>

record buf =
  b_valid :: bool
  b_dev :: nat
  b_blockno :: nat
  b_locked :: bool
  b_pid :: int
  b_refcnt :: nat
  b_data :: "byte list"

record bstate = pstate +
  disk :: "nat \<Rightarrow> byte list"
  dtrace :: "(nat \<times> byte list) list"
  bufs :: "buf list"
  lru :: "nat list"

definition upd_buf :: "nat \<Rightarrow> (buf \<Rightarrow> buf) \<Rightarrow> 'a bstate_scheme \<Rightarrow> 'a bstate_scheme" where
  "upd_buf i f s = s\<lparr>bufs := (bufs s)[i := f (bufs s ! i)]\<rparr>"

definition mypid :: "'a pstate_scheme \<Rightarrow> int" where
  "mypid s = p_pid (procs s ! the (myproc s))"

section \<open>Operations\<close>

definition binit :: "'a bstate_scheme \<Rightarrow> 'a bstate_scheme" where
  "binit s =
     foldl (\<lambda>s i. (upd_buf i (\<lambda>b. b\<lparr>b_locked := False, b_pid := 0\<rparr>) s)\<lparr>lru := i # lru s\<rparr>)
       (s\<lparr>lru := []\<rparr>) [0..<30]"

text \<open>\<^verbatim>\<open>acquiresleep\<close>, \<^verbatim>\<open>releasesleep\<close> and \<^verbatim>\<open>holdingsleep\<close> on \<^verbatim>\<open>b->lock\<close>.\<close>

definition acquiresleep_buf :: "nat \<Rightarrow> 'a bstate_scheme \<Rightarrow> 'a bstate_scheme res" where
  "acquiresleep_buf i s =
     (if b_locked (bufs s ! i) then Sleep ''buffer''
      else Ok (upd_buf i (\<lambda>b. b\<lparr>b_locked := True, b_pid := mypid s\<rparr>) s))"

definition releasesleep_buf :: "nat \<Rightarrow> 'a bstate_scheme \<Rightarrow> 'a bstate_scheme" where
  "releasesleep_buf i s = wakeup (ChBufLock i) (upd_buf i (\<lambda>b. b\<lparr>b_locked := False, b_pid := 0\<rparr>) s)"

definition holdingsleep_buf :: "nat \<Rightarrow> 'a bstate_scheme \<Rightarrow> bool" where
  "holdingsleep_buf i s \<longleftrightarrow> b_locked (bufs s ! i) \<and> b_pid (bufs s ! i) = mypid s"

definition virtio_disk_rw :: "nat \<Rightarrow> bool \<Rightarrow> 'a bstate_scheme \<Rightarrow> 'a bstate_scheme" where
  "virtio_disk_rw i write s =
     (let b = bufs s ! i in
      if write then s\<lparr>disk := (disk s)(b_blockno b := b_data b), dtrace := dtrace s @ [(b_blockno b, b_data b)]\<rparr>
      else upd_buf i (\<lambda>b. b\<lparr>b_data := disk s (b_blockno b)\<rparr>) s)"

definition bget :: "nat \<Rightarrow> nat \<Rightarrow> 'a bstate_scheme \<Rightarrow> (nat \<times> 'a bstate_scheme) res" where
  "bget dev blockno s =
     (case find (\<lambda>i. b_dev (bufs s ! i) = dev \<and> b_blockno (bufs s ! i) = blockno) (lru s) of
        Some i \<Rightarrow>
          rbind (acquiresleep_buf i (upd_buf i (\<lambda>b. b\<lparr>b_refcnt := b_refcnt b + 1\<rparr>) s)) (\<lambda>s1. Ok (i, s1))
      | None \<Rightarrow>
          (case find (\<lambda>i. b_refcnt (bufs s ! i) = 0) (rev (lru s)) of
             Some i \<Rightarrow>
               rbind (acquiresleep_buf i (upd_buf i (\<lambda>b. b\<lparr>b_dev := dev, b_blockno := blockno,
                        b_valid := False, b_refcnt := 1\<rparr>) s)) (\<lambda>s1. Ok (i, s1))
           | None \<Rightarrow> Panic ''bget: no buffers''))"

definition bread :: "nat \<Rightarrow> nat \<Rightarrow> 'a bstate_scheme \<Rightarrow> (nat \<times> 'a bstate_scheme) res" where
  "bread dev blockno s =
     rbind (bget dev blockno s) (\<lambda>(i, s1).
       Ok (i, if \<not> b_valid (bufs s1 ! i)
              then upd_buf i (\<lambda>b. b\<lparr>b_valid := True\<rparr>) (virtio_disk_rw i False s1)
              else s1))"

definition bwrite :: "nat \<Rightarrow> 'a bstate_scheme \<Rightarrow> 'a bstate_scheme res" where
  "bwrite i s = (if \<not> holdingsleep_buf i s then Panic ''bwrite'' else Ok (virtio_disk_rw i True s))"

text \<open>\<^verbatim>\<open>refcnt\<close> is unsigned: decrementing 0 wraps around.\<close>

definition dec32 :: "nat \<Rightarrow> nat" where
  "dec32 n = (if n = 0 then 2 ^ 32 - 1 else n - 1)"

definition brelse :: "nat \<Rightarrow> 'a bstate_scheme \<Rightarrow> 'a bstate_scheme res" where
  "brelse i s =
     (if \<not> holdingsleep_buf i s then Panic ''brelse''
      else let s1 = releasesleep_buf i s;
               s2 = upd_buf i (\<lambda>b. b\<lparr>b_refcnt := dec32 (b_refcnt b)\<rparr>) s1
           in Ok (if b_refcnt (bufs s2 ! i) = 0 then s2\<lparr>lru := i # remove1 i (lru s2)\<rparr> else s2))"

definition bpin :: "nat \<Rightarrow> 'a bstate_scheme \<Rightarrow> 'a bstate_scheme" where
  "bpin i s = upd_buf i (\<lambda>b. b\<lparr>b_refcnt := b_refcnt b + 1\<rparr>) s"

definition bunpin :: "nat \<Rightarrow> 'a bstate_scheme \<Rightarrow> 'a bstate_scheme" where
  "bunpin i s = upd_buf i (\<lambda>b. b\<lparr>b_refcnt := dec32 (b_refcnt b)\<rparr>) s"

text \<open>Stores into \<^verbatim>\<open>b->data\<close>.\<close>

definition set_data :: "nat \<Rightarrow> byte list \<Rightarrow> 'a bstate_scheme \<Rightarrow> 'a bstate_scheme" where
  "set_data i bs s = upd_buf i (\<lambda>b. b\<lparr>b_data := bs\<rparr>) s"

section \<open>The cache as a map of blocks\<close>

definition cached :: "nat \<Rightarrow> nat \<Rightarrow> 'a bstate_scheme \<Rightarrow> nat option" where
  "cached d b s = find (\<lambda>i. b_dev (bufs s ! i) = d \<and> b_blockno (bufs s ! i) = b) (lru s)"

definition view :: "nat \<Rightarrow> 'a bstate_scheme \<Rightarrow> nat \<Rightarrow> byte list" where
  "view d s b = (case cached d b s of
     Some i \<Rightarrow> if b_valid (bufs s ! i) then b_data (bufs s ! i) else disk s b
   | None \<Rightarrow> disk s b)"

definition refs :: "nat \<Rightarrow> 'a bstate_scheme \<Rightarrow> nat \<Rightarrow> nat" where
  "refs d s b = (case cached d b s of Some i \<Rightarrow> b_refcnt (bufs s ! i) | None \<Rightarrow> 0)"

definition blocked :: "nat \<Rightarrow> 'a bstate_scheme \<Rightarrow> nat \<Rightarrow> bool" where
  "blocked d s b = (case cached d b s of Some i \<Rightarrow> b_locked (bufs s ! i) | None \<Rightarrow> False)"

definition free_bufs :: "'a bstate_scheme \<Rightarrow> nat" where
  "free_bufs s = length (filter (\<lambda>b. b_refcnt b = 0) (bufs s))"

text \<open>
  The invariant: a process is running, the list links all 30 buffers, no block of a device has two buffers, a locked buffer
  is referenced, and an unreferenced buffer holds what is on disk, so that recycling it loses nothing.
\<close>

definition bio_inv :: "nat \<Rightarrow> 'a bstate_scheme \<Rightarrow> bool" where
  "bio_inv d s \<longleftrightarrow> myproc s \<noteq> None \<and> the (myproc s) < length (procs s) \<and> length (bufs s) = 30 \<and> distinct (lru s) \<and> set (lru s) = {..<30} \<and>
     (\<forall>i<30. \<forall>j<30. b_dev (bufs s ! i) = d \<longrightarrow> b_dev (bufs s ! j) = d \<longrightarrow>
        b_blockno (bufs s ! i) = b_blockno (bufs s ! j) \<longrightarrow> i = j) \<and>
     (\<forall>i<30. b_locked (bufs s ! i) \<longrightarrow> 0 < b_refcnt (bufs s ! i)) \<and>
     (\<forall>i<30. b_refcnt (bufs s ! i) = 0 \<longrightarrow> b_valid (bufs s ! i) \<longrightarrow> b_dev (bufs s ! i) = d \<longrightarrow>
        b_data (bufs s ! i) = disk s (b_blockno (bufs s ! i)))"

lemma bio_invD:
  assumes "bio_inv d s"
  shows "length (bufs s) = 30" "distinct (lru s)" "set (lru s) = {..<30}"
    and "\<And>i j. i < 30 \<Longrightarrow> j < 30 \<Longrightarrow> b_dev (bufs s ! i) = d \<Longrightarrow> b_dev (bufs s ! j) = d \<Longrightarrow>
        b_blockno (bufs s ! i) = b_blockno (bufs s ! j) \<Longrightarrow> i = j"
    and "\<And>i. i < 30 \<Longrightarrow> b_locked (bufs s ! i) \<Longrightarrow> 0 < b_refcnt (bufs s ! i)"
    and "\<And>i. i < 30 \<Longrightarrow> b_refcnt (bufs s ! i) = 0 \<Longrightarrow> b_valid (bufs s ! i) \<Longrightarrow> b_dev (bufs s ! i) = d \<Longrightarrow>
        b_data (bufs s ! i) = disk s (b_blockno (bufs s ! i))"
  using assms by (auto simp: bio_inv_def)

definition is_buf :: "nat \<Rightarrow> 'a bstate_scheme \<Rightarrow> nat \<Rightarrow> nat \<Rightarrow> bool" where
  "is_buf d s i b \<longleftrightarrow> i < 30 \<and> b_dev (bufs s ! i) = d \<and> b_blockno (bufs s ! i) = b"

lemma cached_Some: "bio_inv d s \<Longrightarrow> cached d b s = Some i \<longleftrightarrow> is_buf d s i b"
proof -
  assume inv: "bio_inv d s"
  note d = bio_invD [OF inv]
  show ?thesis
  proof
    assume "cached d b s = Some i"
    then show "is_buf d s i b" using d(3)
      by (auto simp: cached_def is_buf_def find_Some_iff)
  next
    assume i: "is_buf d s i b"
    then have "i \<in> set (lru s)" using d(3) by (simp add: is_buf_def)
    with i have "cached d b s \<noteq> None" by (auto simp: cached_def is_buf_def find_None_iff)
    then obtain j where j: "cached d b s = Some j" by blast
    then have "is_buf d s j b" using d(3) by (auto simp: cached_def is_buf_def find_Some_iff)
    with i d(4) [of i j] j show "cached d b s = Some i" by (simp add: is_buf_def)
  qed
qed

lemma cached_None: "bio_inv d s \<Longrightarrow> cached d b s = None \<longleftrightarrow> (\<forall>i. \<not> is_buf d s i b)"
  using cached_Some [of d s b] by (cases "cached d b s") auto

text \<open>The three abstractions read off the buffer of the block.\<close>

lemma view_buf: "bio_inv d s \<Longrightarrow> is_buf d s i b \<Longrightarrow>
    view d s b = (if b_valid (bufs s ! i) then b_data (bufs s ! i) else disk s b)"
  by (simp add: view_def cached_Some [symmetric])

lemma refs_buf: "bio_inv d s \<Longrightarrow> is_buf d s i b \<Longrightarrow> refs d s b = b_refcnt (bufs s ! i)"
  by (simp add: refs_def cached_Some [symmetric])

lemma blocked_buf: "bio_inv d s \<Longrightarrow> is_buf d s i b \<Longrightarrow> blocked d s b = b_locked (bufs s ! i)"
  by (simp add: blocked_def cached_Some [symmetric])

lemma no_buf:
  assumes "bio_inv d s" "\<And>i. \<not> is_buf d s i b"
  shows "view d s b = disk s b" "refs d s b = 0" "\<not> blocked d s b"
  using assms cached_None [OF assms(1), of b] by (auto simp: view_def refs_def blocked_def)

lemma refs_0_view: "bio_inv d s \<Longrightarrow> refs d s b = 0 \<Longrightarrow> view d s b = disk s b"
proof -
  assume inv: "bio_inv d s" and r: "refs d s b = 0"
  show "view d s b = disk s b"
  proof (cases "\<exists>i. is_buf d s i b")
    case True
    then obtain i where i: "is_buf d s i b" by blast
    with bio_invD(6) [OF inv, of i] r refs_buf [OF inv i] show ?thesis
      by (auto simp: view_buf [OF inv i] is_buf_def)
  qed (use no_buf [OF inv] in blast)
qed

text \<open>When a buffer changes, the abstractions change at its old and its new block at most.\<close>

definition owned :: "nat \<Rightarrow> 'a bstate_scheme \<Rightarrow> nat \<Rightarrow> nat \<Rightarrow> bool" where
  "owned d s i b \<longleftrightarrow> is_buf d s i b \<and> holdingsleep_buf i s \<and> b_valid (bufs s ! i)"

definition pwake :: "proc list \<Rightarrow> proc list \<Rightarrow> bool" where
  "pwake ps ps' \<longleftrightarrow> length ps' = length ps \<and> (\<forall>i<length ps. \<exists>st. ps' ! i = (ps ! i)\<lparr>p_state := st\<rparr>)"

text \<open>What the cache never touches; releasing a lock may make sleeping processes runnable.\<close>

definition bframe :: "'a bstate_scheme \<Rightarrow> 'a bstate_scheme \<Rightarrow> bool" where
  "bframe s s' \<longleftrightarrow>
     s'\<lparr>procs := procs s, disk := disk s, dtrace := dtrace s, bufs := bufs s, lru := lru s\<rparr> = s \<and>
     pwake (procs s) (procs s')"

lemma pwake_refl [simp]: "pwake ps ps"
proof -
  have "ps ! i = (ps ! i)\<lparr>p_state := p_state (ps ! i)\<rparr>" for i by simp
  then show ?thesis unfolding pwake_def by blast
qed

lemma pwake_trans: "pwake ps ps1 \<Longrightarrow> pwake ps1 ps2 \<Longrightarrow> pwake ps ps2"
  unfolding pwake_def
proof (intro conjI allI impI)
  assume a: "length ps1 = length ps \<and> (\<forall>i<length ps. \<exists>st. ps1 ! i = (ps ! i)\<lparr>p_state := st\<rparr>)"
    and b: "length ps2 = length ps1 \<and> (\<forall>i<length ps1. \<exists>st. ps2 ! i = (ps1 ! i)\<lparr>p_state := st\<rparr>)"
  then show "length ps2 = length ps" by simp
  fix i assume i: "i < length ps"
  with a obtain st where st: "ps1 ! i = (ps ! i)\<lparr>p_state := st\<rparr>" by blast
  from a b i obtain st' where "ps2 ! i = (ps1 ! i)\<lparr>p_state := st'\<rparr>" by metis
  with st have "ps2 ! i = (ps ! i)\<lparr>p_state := st'\<rparr>" by simp
  then show "\<exists>st. ps2 ! i = (ps ! i)\<lparr>p_state := st\<rparr>" by blast
qed

lemma bframe_refl [simp]: "bframe s s"
  by (simp add: bframe_def)

lemma bframe_trans: "bframe s s1 \<Longrightarrow> bframe s1 s2 \<Longrightarrow> bframe s s2"
proof -
  assume a: "bframe s s1" and b: "bframe s1 s2"
  have e1: "s1\<lparr>procs := procs s, disk := disk s, dtrace := dtrace s, bufs := bufs s, lru := lru s\<rparr> = s"
    using a by (simp add: bframe_def)
  have "s2\<lparr>procs := procs s1, disk := disk s1, dtrace := dtrace s1, bufs := bufs s1, lru := lru s1\<rparr> = s1"
    using b by (simp add: bframe_def)
  then have "(s2\<lparr>procs := procs s1, disk := disk s1, dtrace := dtrace s1, bufs := bufs s1, lru := lru s1\<rparr>)
      \<lparr>procs := procs s, disk := disk s, dtrace := dtrace s, bufs := bufs s, lru := lru s\<rparr> = s"
    using e1 by simp
  then have "s2\<lparr>procs := procs s, disk := disk s, dtrace := dtrace s, bufs := bufs s, lru := lru s\<rparr> = s" by simp
  with a b show ?thesis by (auto simp: bframe_def intro: pwake_trans)
qed

lemma bframe_pstate:
  assumes "bframe s s'"
  shows "cpus s' = cpus s" "hart s' = hart s" "mem s' = mem s" "freelist s' = freelist s" "kend s' = kend s"
    "initproc s' = initproc s" "nextpid s' = nextpid s" "myproc s' = myproc s"
    "bstate.more s' = bstate.more s"
proof -
  have e: "s'\<lparr>procs := procs s, disk := disk s, dtrace := dtrace s, bufs := bufs s, lru := lru s\<rparr> = s"
    using assms by (simp add: bframe_def)
  show c: "cpus s' = cpus s" using arg_cong [OF e, of cpus] by simp
  show h: "hart s' = hart s" using arg_cong [OF e, of hart] by simp
  show "mem s' = mem s" using arg_cong [OF e, of mem] by simp
  show "freelist s' = freelist s" using arg_cong [OF e, of freelist] by simp
  show "kend s' = kend s" using arg_cong [OF e, of kend] by simp
  show "initproc s' = initproc s" using arg_cong [OF e, of initproc] by simp
  show "nextpid s' = nextpid s" using arg_cong [OF e, of nextpid] by simp
  show "myproc s' = myproc s" using c h by (simp add: myproc_def)
  show "bstate.more s' = bstate.more s" using arg_cong [OF e, of bstate.more] by simp
qed

lemma bframe_mypid:
  assumes "bframe s s'" "the (myproc s) < length (procs s)"
  shows "mypid s' = mypid s" "length (procs s') = length (procs s)"
proof -
  have p: "pwake (procs s) (procs s')" using assms(1) by (simp add: bframe_def)
  then obtain st where "procs s' ! the (myproc s) = (procs s ! the (myproc s))\<lparr>p_state := st\<rparr>"
    using assms(2) by (auto simp: pwake_def)
  then show "mypid s' = mypid s" using bframe_pstate(8) [OF assms(1)] by (simp add: mypid_def)
  show "length (procs s') = length (procs s)" using p by (simp add: pwake_def)
qed

lemma pwake_wakeup: "pwake (procs s) (procs (wakeup ch s))"
  unfolding pwake_def
proof (intro conjI allI impI)
  fix i assume "i < length (procs s)"
  then have "procs (wakeup ch s) ! i = (procs s ! i)\<lparr>p_state := p_state (procs (wakeup ch s) ! i)\<rparr>"
    by (simp add: wakeup_slot)
  then show "\<exists>st. procs (wakeup ch s) ! i = (procs s ! i)\<lparr>p_state := st\<rparr>" by blast
qed simp

lemma bframe_wakeup [simp]: "bframe s (wakeup ch s)"
  using pwake_wakeup [of s ch] by (simp add: bframe_def wakeup_def)

lemma bframe_upd_buf [simp]: "bframe s (upd_buf i f s)"
  by (simp add: bframe_def upd_buf_def)

lemma bframe_fields [simp]: "bframe s (s\<lparr>lru := l\<rparr>)" "bframe s (s\<lparr>disk := dk, dtrace := tr\<rparr>)"
  by (simp_all add: bframe_def)

text \<open>No operation of the cache changes more than its frame allows.\<close>

lemma virtio_frame: "bframe s (virtio_disk_rw i w s)"
  by (simp add: virtio_disk_rw_def Let_def)

lemma releasesleep_frame: "bframe s (releasesleep_buf i s)"
  unfolding releasesleep_buf_def by (rule bframe_trans [OF bframe_upd_buf bframe_wakeup])

lemma acquiresleep_frame: "acquiresleep_buf i s = Ok s' \<Longrightarrow> bframe s s'"
  by (auto simp: acquiresleep_buf_def split: if_splits)

lemma bget_frame: "bget d b s = Ok (i, s') \<Longrightarrow> bframe s s'"
  by (auto simp: bget_def split: option.splits dest!: acquiresleep_frame intro: bframe_trans [OF bframe_upd_buf])

lemma bread_frame: "bread d b s = Ok (i, s') \<Longrightarrow> bframe s s'"
  by (auto simp: bread_def split: if_splits dest!: bget_frame
      intro!: bframe_trans [OF _ bframe_upd_buf] bframe_trans [OF _ virtio_frame])

lemma bwrite_frame: "bwrite i s = Ok s' \<Longrightarrow> bframe s s'"
  by (auto simp: bwrite_def virtio_frame split: if_splits)

lemma brelse_frame: "brelse i s = Ok s' \<Longrightarrow> bframe s s'"
  by (auto simp: brelse_def Let_def split: if_splits
      intro!: bframe_trans [OF _ bframe_fields(1)] bframe_trans [OF _ bframe_upd_buf] releasesleep_frame)

lemma pin_frame: "bframe s (bpin i s)" "bframe s (bunpin i s)" "bframe s (set_data i bs s)"
  by (simp_all add: bpin_def bunpin_def set_data_def)

section \<open>Changing one buffer\<close>

lemma length_filter_update:
  "i < length xs \<Longrightarrow> length (filter P (xs[i := x])) + (if P (xs ! i) then 1 else 0) =
     length (filter P xs) + (if P x then 1 else 0)"
  by (induction xs arbitrary: i) (auto simp: nth_Cons' split: nat.splits if_splits, force+)

text \<open>The change of a buffer that stays the buffer of its block.\<close>

lemma buf_change:
  assumes inv: "bio_inv d s" and i: "is_buf d s i b"
    and s': "bufs s' = (bufs s)[i := nb]" "distinct (lru s')" "set (lru s') = {..<30}"
      "\<And>c. c \<noteq> b \<Longrightarrow> disk s' c = disk s c" "bframe s s'"
    and nb: "b_dev nb = d" "b_blockno nb = b" "b_locked nb \<Longrightarrow> 0 < b_refcnt nb"
      "b_refcnt nb = 0 \<Longrightarrow> b_valid nb \<Longrightarrow> b_data nb = disk s' b"
  shows "bio_inv d s'"
    and "view d s' = (view d s)(b := if b_valid nb then b_data nb else disk s' b)"
    and "refs d s' = (refs d s)(b := b_refcnt nb)"
    and "blocked d s' = (blocked d s)(b := b_locked nb)"
    and "is_buf d s' j c = is_buf d s j c"
    and "j \<noteq> i \<Longrightarrow> owned d s' j c = owned d s j c"
    and "owned d s' i b \<longleftrightarrow> b_locked nb \<and> b_pid nb = mypid s \<and> b_valid nb"
    and "free_bufs s' + (if b_refcnt (bufs s ! i) = 0 then 1 else 0) = free_bufs s + (if b_refcnt nb = 0 then 1 else 0)"
proof -
  note d = bio_invD [OF inv]
  have my: "myproc s \<noteq> None" "the (myproc s) < length (procs s)" using inv by (auto simp: bio_inv_def)
  note my' = bframe_mypid [OF s'(5) my(2)] bframe_pstate(8) [OF s'(5)]
  have i30: "i < 30" using i by (simp add: is_buf_def)
  have nth: "bufs s' ! j = (if j = i then nb else bufs s ! j)" for j
    using i30 d(1) by (simp add: s'(1))
  show isb: "is_buf d s' j c = is_buf d s j c" for j c
    using i nb by (auto simp: is_buf_def nth)
  have ob: "b_blockno (bufs s ! j) \<noteq> b" if "j < 30" "j \<noteq> i" "b_dev (bufs s ! j) = d" for j
    using d(4) [of j i] that i by (auto simp: is_buf_def)
  show inv': "bio_inv d s'"
    unfolding bio_inv_def
  proof (intro conjI allI impI)
    show "myproc s' \<noteq> None" "the (myproc s') < length (procs s')" using my my' by auto
    show "length (bufs s') = 30" using d(1) s'(1) by simp
    show "distinct (lru s')" "set (lru s') = {..<30}" by fact+
  next
    fix j k assume "j < 30" "k < 30" "b_dev (bufs s' ! j) = d" "b_dev (bufs s' ! k) = d"
      "b_blockno (bufs s' ! j) = b_blockno (bufs s' ! k)"
    then show "j = k" using d(4) [of j k] ob [of j] ob [of k] nb(1,2)
      by (cases "j = i"; cases "k = i") (simp_all add: nth)
  next
    fix j assume "j < 30" "b_locked (bufs s' ! j)"
    then show "0 < b_refcnt (bufs s' ! j)" using d(5) [of j] nb(3) by (cases "j = i") (simp_all add: nth)
  next
    fix j assume j: "j < 30" "b_refcnt (bufs s' ! j) = 0" "b_valid (bufs s' ! j)" "b_dev (bufs s' ! j) = d"
    show "b_data (bufs s' ! j) = disk s' (b_blockno (bufs s' ! j))"
    proof (cases "j = i")
      case False
      with j d(6) [of j] ob [of j] s'(4) show ?thesis by (simp add: nth)
    qed (use j nb in \<open>simp add: nth\<close>)
  qed
  have vc: "view d s' c = view d s c" "refs d s' c = refs d s c" "blocked d s' c = blocked d s c" if "c \<noteq> b" for c
  proof -
    have "view d s' c = view d s c \<and> refs d s' c = refs d s c \<and> blocked d s' c = blocked d s c"
    proof (cases "\<exists>j. is_buf d s j c")
      case True
      then obtain j where j: "is_buf d s j c" by blast
      then have "j \<noteq> i" using that i by (auto simp: is_buf_def)
      with j isb [of j c] that s'(4) show ?thesis
        using view_buf [OF inv j] view_buf [OF inv'] refs_buf [OF inv j] refs_buf [OF inv']
          blocked_buf [OF inv j] blocked_buf [OF inv'] by (simp add: nth)
    next
      case False
      with isb no_buf [OF inv, of c] no_buf [OF inv', of c] s'(4) [OF that] show ?thesis by simp
    qed
    then show "view d s' c = view d s c" "refs d s' c = refs d s c" "blocked d s' c = blocked d s c" by simp_all
  qed
  have ib: "is_buf d s' i b" using isb i by blast
  show "view d s' = (view d s)(b := if b_valid nb then b_data nb else disk s' b)"
    using vc view_buf [OF inv' ib] by (intro ext) (simp add: nth)
  show "refs d s' = (refs d s)(b := b_refcnt nb)"
    using vc refs_buf [OF inv' ib] by (intro ext) (simp add: nth)
  show "blocked d s' = (blocked d s)(b := b_locked nb)"
    using vc blocked_buf [OF inv' ib] by (intro ext) (simp add: nth)
  show "owned d s' j c = owned d s j c" if "j \<noteq> i"
    using isb that my'(1) by (simp add: owned_def holdingsleep_buf_def nth)
  show "owned d s' i b \<longleftrightarrow> b_locked nb \<and> b_pid nb = mypid s \<and> b_valid nb"
    using ib my'(1) by (auto simp: owned_def holdingsleep_buf_def nth)
  show "free_bufs s' + (if b_refcnt (bufs s ! i) = 0 then 1 else 0) = free_bufs s + (if b_refcnt nb = 0 then 1 else 0)"
    using length_filter_update [of i "bufs s" "\<lambda>b. b_refcnt b = 0" nb] d(1) i30
    by (simp add: free_bufs_def s'(1))
qed

text \<open>Recycling an unreferenced buffer for a block that has none.\<close>

lemma buf_recycle:
  assumes inv: "bio_inv d s" and i: "i < 30" "b_refcnt (bufs s ! i) = 0"
    and none: "\<And>j. \<not> is_buf d s j b"
    and s': "bufs s' = (bufs s)[i := nb]" "lru s' = lru s" "disk s' = disk s" "bframe s s'"
    and nb: "b_dev nb = d" "b_blockno nb = b" "0 < b_refcnt nb"
  shows "bio_inv d s'"
    and "view d s' = (view d s)(b := if b_valid nb then b_data nb else disk s b)"
    and "refs d s' = (refs d s)(b := b_refcnt nb)"
    and "blocked d s' = (blocked d s)(b := b_locked nb)"
    and "is_buf d s' i b"
    and "owned d s j c \<Longrightarrow> owned d s' j c \<and> c \<noteq> b"
    and "owned d s' j c \<Longrightarrow> c \<noteq> b \<Longrightarrow> owned d s j c"
    and "owned d s' i b \<longleftrightarrow> b_locked nb \<and> b_pid nb = mypid s \<and> b_valid nb"
    and "Suc (free_bufs s') = free_bufs s"
proof -
  note d = bio_invD [OF inv]
  have my: "myproc s \<noteq> None" "the (myproc s) < length (procs s)" using inv by (auto simp: bio_inv_def)
  note my' = bframe_mypid [OF s'(4) my(2)] bframe_pstate(8) [OF s'(4)]
  have nth: "bufs s' ! j = (if j = i then nb else bufs s ! j)" for j
    using i(1) d(1) by (simp add: s'(1))
  have ob: "b_blockno (bufs s ! j) \<noteq> b" if "j < 30" "b_dev (bufs s ! j) = d" for j
    using none [of j] that by (auto simp: is_buf_def)
  have isb: "is_buf d s' j c \<longleftrightarrow> (if j = i then c = b else is_buf d s j c)" for j c
    using i nb by (auto simp: is_buf_def nth)
  then show ib: "is_buf d s' i b" by simp
  show inv': "bio_inv d s'"
    unfolding bio_inv_def
  proof (intro conjI allI impI)
    show "myproc s' \<noteq> None" "the (myproc s') < length (procs s')" using my my' by auto
    show "length (bufs s') = 30" using d(1) s'(1) by simp
    show "distinct (lru s')" "set (lru s') = {..<30}" using d s'(2) by simp_all
  next
    fix j k assume "j < 30" "k < 30" "b_dev (bufs s' ! j) = d" "b_dev (bufs s' ! k) = d"
      "b_blockno (bufs s' ! j) = b_blockno (bufs s' ! k)"
    then show "j = k" using d(4) [of j k] ob [of j] ob [of k] nb(1,2)
      by (cases "j = i"; cases "k = i") (simp_all add: nth)
  next
    fix j assume "j < 30" "b_locked (bufs s' ! j)"
    then show "0 < b_refcnt (bufs s' ! j)" using d(5) [of j] nb(3) by (cases "j = i") (simp_all add: nth)
  next
    fix j assume j: "j < 30" "b_refcnt (bufs s' ! j) = 0" "b_valid (bufs s' ! j)" "b_dev (bufs s' ! j) = d"
    then have "j \<noteq> i" using nb(3) by (auto simp: nth)
    with j d(6) [of j] show "b_data (bufs s' ! j) = disk s' (b_blockno (bufs s' ! j))" by (simp add: nth s'(3))
  qed
  have vc: "view d s' c = view d s c" "refs d s' c = refs d s c" "blocked d s' c = blocked d s c" if "c \<noteq> b" for c
  proof -
    have "view d s' c = view d s c \<and> refs d s' c = refs d s c \<and> blocked d s' c = blocked d s c"
    proof (cases "\<exists>j. is_buf d s' j c")
      case True
      then obtain j where j': "is_buf d s' j c" by blast
      then have j: "j \<noteq> i" "is_buf d s j c" using that isb by (auto split: if_splits)
      then show ?thesis
        using view_buf [OF inv j(2)] view_buf [OF inv' j'] refs_buf [OF inv j(2)] refs_buf [OF inv' j']
          blocked_buf [OF inv j(2)] blocked_buf [OF inv' j'] by (simp add: nth s'(3))
    next
      case False
      note n' = no_buf [OF inv', of c]
      have n0: "view d s c = disk s c \<and> refs d s c = 0 \<and> \<not> blocked d s c"
      proof (cases "is_buf d s i c")
        case True
        have "view d s c = disk s c"
          using view_buf [OF inv True] d(6) [of i] i True by (auto simp: is_buf_def)
        moreover have "\<not> b_locked (bufs s ! i)" using d(5) [of i] i by auto
        ultimately show ?thesis
          using refs_buf [OF inv True] i(2) blocked_buf [OF inv True] by simp
      next
        case F: False
        then have "\<not> is_buf d s j c" for j using False isb by (metis (full_types))
        then show ?thesis using no_buf [OF inv, of c] by blast
      qed
      with n' False s'(3) show ?thesis by simp
    qed
    then show "view d s' c = view d s c" "refs d s' c = refs d s c" "blocked d s' c = blocked d s c" by simp_all
  qed
  show "view d s' = (view d s)(b := if b_valid nb then b_data nb else disk s b)"
    using vc view_buf [OF inv' ib] by (intro ext) (simp add: nth s'(3))
  show "refs d s' = (refs d s)(b := b_refcnt nb)"
    using vc refs_buf [OF inv' ib] by (intro ext) (simp add: nth)
  show "blocked d s' = (blocked d s)(b := b_locked nb)"
    using vc blocked_buf [OF inv' ib] by (intro ext) (simp add: nth)
  have hold: "holdingsleep_buf j s' = holdingsleep_buf j s" if "j \<noteq> i" for j
    using that my'(1) by (simp add: holdingsleep_buf_def nth)
  show "owned d s' j c \<and> c \<noteq> b" if o: "owned d s j c"
  proof -
    have "j < 30" "b_locked (bufs s ! j)" using o by (auto simp: owned_def is_buf_def holdingsleep_buf_def)
    then have "j \<noteq> i" using d(5) [of j] i(2) by auto
    with o none isb hold show ?thesis by (auto simp: owned_def nth)
  qed
  show "owned d s j c" if o: "owned d s' j c" "c \<noteq> b"
  proof -
    have "j \<noteq> i" using o isb by (auto simp: owned_def)
    with o isb hold show ?thesis by (auto simp: owned_def nth)
  qed
  show "owned d s' i b \<longleftrightarrow> b_locked nb \<and> b_pid nb = mypid s \<and> b_valid nb"
    using ib my'(1) by (auto simp: owned_def holdingsleep_buf_def nth)
  show "Suc (free_bufs s') = free_bufs s"
    using length_filter_update [of i "bufs s" "\<lambda>b. b_refcnt b = 0" nb] d(1) i nb(3)
    by (simp add: free_bufs_def s'(1))
qed

section \<open>The contract\<close>

text \<open>What the users of the cache know of it, and what the operations do to that.\<close>

record bcache =
  c_view :: "nat \<Rightarrow> byte list"
  c_refs :: "nat \<Rightarrow> nat"
  c_lock :: "nat \<Rightarrow> bool"
  c_free :: nat
  c_disk :: "nat \<Rightarrow> byte list"
  c_trace :: "(nat \<times> byte list) list"

definition abs_bread :: "nat \<Rightarrow> bcache \<Rightarrow> bcache" where
  "abs_bread b a = a\<lparr>c_refs := (c_refs a)(b := Suc (c_refs a b)), c_lock := (c_lock a)(b := True),
     c_free := c_free a - (if c_refs a b = 0 then 1 else 0)\<rparr>"

definition abs_brelse :: "nat \<Rightarrow> bcache \<Rightarrow> bcache" where
  "abs_brelse b a = a\<lparr>c_refs := (c_refs a)(b := c_refs a b - 1), c_lock := (c_lock a)(b := False),
     c_free := c_free a + (if c_refs a b = 1 then 1 else 0)\<rparr>"

definition abs_store :: "nat \<Rightarrow> byte list \<Rightarrow> bcache \<Rightarrow> bcache" where
  "abs_store b x a = a\<lparr>c_view := (c_view a)(b := x)\<rparr>"

definition abs_bwrite :: "nat \<Rightarrow> bcache \<Rightarrow> bcache" where
  "abs_bwrite b a = a\<lparr>c_disk := (c_disk a)(b := c_view a b), c_trace := c_trace a @ [(b, c_view a b)]\<rparr>"

definition abs_bpin :: "nat \<Rightarrow> bcache \<Rightarrow> bcache" where
  "abs_bpin b a = a\<lparr>c_refs := (c_refs a)(b := Suc (c_refs a b))\<rparr>"

definition abs_bunpin :: "nat \<Rightarrow> bcache \<Rightarrow> bcache" where
  "abs_bunpin b a = a\<lparr>c_refs := (c_refs a)(b := c_refs a b - 1)\<rparr>"

lemmas abs_ops = abs_bread_def abs_brelse_def abs_store_def abs_bwrite_def abs_bpin_def abs_bunpin_def

text \<open>A block can be read when it is unlocked and a buffer can be found for it.\<close>

definition can_read :: "bcache \<Rightarrow> nat \<Rightarrow> bool" where
  "can_read a b \<longleftrightarrow> \<not> c_lock a b \<and> (0 < c_refs a b \<or> 0 < c_free a)"

text \<open>\<open>own s i b\<close>: the running process has locked buffer \<open>i\<close>, which holds block \<open>b\<close>.\<close>

locale block_cache =
  fixes inv :: "'s \<Rightarrow> bool"
    and abs :: "'s \<Rightarrow> bcache"
    and own :: "'s \<Rightarrow> nat \<Rightarrow> nat \<Rightarrow> bool"
    and frame :: "'s \<Rightarrow> 's \<Rightarrow> bool"
    and rd :: "nat \<Rightarrow> 's \<Rightarrow> (nat \<times> 's) res"
    and dat :: "'s \<Rightarrow> nat \<Rightarrow> byte list"
    and put :: "nat \<Rightarrow> byte list \<Rightarrow> 's \<Rightarrow> 's"
    and wr :: "nat \<Rightarrow> 's \<Rightarrow> 's res"
    and rel :: "nat \<Rightarrow> 's \<Rightarrow> 's res"
    and pin :: "nat \<Rightarrow> 's \<Rightarrow> 's"
    and unpin :: "nat \<Rightarrow> 's \<Rightarrow> 's"
  assumes frame_refl: "frame s s"
    and frame_trans: "frame s s1 \<Longrightarrow> frame s1 s2 \<Longrightarrow> frame s s2"
    and clean: "inv s \<Longrightarrow> c_refs (abs s) b = 0 \<Longrightarrow> c_view (abs s) b = c_disk (abs s) b"
    and own_locked: "inv s \<Longrightarrow> own s i b \<Longrightarrow> c_lock (abs s) b \<and> 0 < c_refs (abs s) b"
    and own_data: "inv s \<Longrightarrow> own s i b \<Longrightarrow> dat s i = c_view (abs s) b"
    and read_ok: "inv s \<Longrightarrow> can_read (abs s) b \<Longrightarrow>
      \<exists>i s'. rd b s = Ok (i, s') \<and> inv s' \<and> frame s s' \<and> abs s' = abs_bread b (abs s) \<and> own s' i b \<and>
        (\<forall>j c. c \<noteq> b \<longrightarrow> own s' j c = own s j c)"
    and read_panic: "inv s \<Longrightarrow> c_free (abs s) = 0 \<Longrightarrow> c_refs (abs s) b = 0 \<Longrightarrow> \<exists>m. rd b s = Panic m"
    and put_ok: "inv s \<Longrightarrow> own s i b \<Longrightarrow>
      inv (put i x s) \<and> frame s (put i x s) \<and> abs (put i x s) = abs_store b x (abs s) \<and> own (put i x s) = own s"
    and write_ok: "inv s \<Longrightarrow> own s i b \<Longrightarrow>
      \<exists>s'. wr i s = Ok s' \<and> inv s' \<and> frame s s' \<and> abs s' = abs_bwrite b (abs s) \<and> own s' = own s"
    and release_ok: "inv s \<Longrightarrow> own s i b \<Longrightarrow>
      (c_refs (abs s) b = 1 \<Longrightarrow> c_view (abs s) b = c_disk (abs s) b) \<Longrightarrow>
      \<exists>s'. rel i s = Ok s' \<and> inv s' \<and> frame s s' \<and> abs s' = abs_brelse b (abs s) \<and>
        (\<forall>j c. c \<noteq> b \<longrightarrow> own s' j c = own s j c)"
    and pin_ok: "inv s \<Longrightarrow> own s i b \<Longrightarrow>
      inv (pin i s) \<and> frame s (pin i s) \<and> abs (pin i s) = abs_bpin b (abs s) \<and> own (pin i s) = own s"
    and unpin_ok: "inv s \<Longrightarrow> own s i b \<Longrightarrow> 2 \<le> c_refs (abs s) b \<Longrightarrow>
      inv (unpin i s) \<and> frame s (unpin i s) \<and> abs (unpin i s) = abs_bunpin b (abs s) \<and> own (unpin i s) = own s"
begin

lemma read_release:
  assumes "inv s" "can_read (abs s) b"
  shows "\<exists>i s1 s'. rd b s = Ok (i, s1) \<and> dat s1 i = c_view (abs s) b \<and> frame s s1 \<and>
    rel i s1 = Ok s' \<and> inv s' \<and> frame s s' \<and> abs s' = abs s"
proof -
  from assms read_ok obtain i s1 where r: "rd b s = Ok (i, s1)" "inv s1" "frame s s1"
    "abs s1 = abs_bread b (abs s)" "own s1 i b"
    by blast
  have "c_view (abs s1) b = c_disk (abs s1) b" if "c_refs (abs s1) b = 1"
    using that r(4) clean [OF assms(1), of b] by (simp add: abs_ops)
  with release_ok [OF r(2,5)] obtain s' where rl: "rel i s1 = Ok s'" "inv s'" "frame s1 s'"
    "abs s' = abs_brelse b (abs s1)" by blast
  have "abs s' = abs s"
    using assms(2) by (cases "abs s") (auto simp: rl(4) r(4) abs_ops can_read_def fun_upd_idem_iff)
  moreover have "dat s1 i = c_view (abs s) b" using own_data [OF r(2,5)] r(4) by (simp add: abs_ops)
  ultimately show ?thesis using r rl frame_trans by blast
qed

text \<open>Reading a block, replacing its contents, writing it through to disk and releasing it.\<close>

lemma write_through:
  assumes "inv s" "can_read (abs s) b" "rd b s = Ok (i, s1)"
  shows "\<exists>s2 s'. wr i (put i x s1) = Ok s2 \<and> rel i s2 = Ok s' \<and> inv s' \<and> frame s s' \<and>
    abs s' = (abs s)\<lparr>c_view := (c_view (abs s))(b := x), c_disk := (c_disk (abs s))(b := x),
      c_trace := c_trace (abs s) @ [(b, x)]\<rparr>"
proof -
  from assms read_ok [of s b] have r: "inv s1" "frame s s1"
    "abs s1 = abs_bread b (abs s)" "own s1 i b"
    by auto
  from put_ok [OF r(1,4), of x] have p: "inv (put i x s1)" "frame s1 (put i x s1)"
    "abs (put i x s1) = abs_store b x (abs s1)" "own (put i x s1) i b" using r(4) by auto
  from write_ok [OF p(1,4)] p(4) obtain s2 where w: "wr i (put i x s1) = Ok s2" "inv s2" "frame (put i x s1) s2"
    "abs s2 = abs_bwrite b (abs (put i x s1))" "own s2 i b" by auto
  have "c_view (abs s2) b = c_disk (abs s2) b" by (simp add: w(4) abs_ops)
  with release_ok [OF w(2,5)] obtain s' where rl: "rel i s2 = Ok s'" "inv s'" "frame s2 s'"
    "abs s' = abs_brelse b (abs s2)" by blast
  have "abs s' = (abs s)\<lparr>c_view := (c_view (abs s))(b := x), c_disk := (c_disk (abs s))(b := x),
      c_trace := c_trace (abs s) @ [(b, x)]\<rparr>"
    using assms(2) by (cases "abs s") (auto simp: rl(4) w(4) p(3) r(3) abs_ops can_read_def fun_upd_idem_iff)
  moreover have "frame s s'" using r(2) p(2) w(3) rl(3) frame_trans by blast
  ultimately show ?thesis using w(1) rl(1,2) by blast
qed

end

section \<open>The cache fulfils the contract\<close>

definition babs :: "nat \<Rightarrow> 'a bstate_scheme \<Rightarrow> bcache" where
  "babs d s = \<lparr>c_view = view d s, c_refs = refs d s, c_lock = blocked d s, c_free = free_bufs s,
     c_disk = disk s, c_trace = dtrace s\<rparr>"

lemma upd_buf_simps [simp]:
  "bufs (upd_buf i f s) = (bufs s)[i := f (bufs s ! i)]" "lru (upd_buf i f s) = lru s"
  "disk (upd_buf i f s) = disk s" "dtrace (upd_buf i f s) = dtrace s" "procs (upd_buf i f s) = procs s"
  "myproc (upd_buf i f s) = myproc s" "mypid (upd_buf i f s) = mypid s"
  by (simp_all add: upd_buf_def myproc_def mypid_def)

lemma wakeup_bstate [simp]:
  "bufs (wakeup ch s) = bufs s" "lru (wakeup ch s) = lru s" "disk (wakeup ch s) = disk s"
  "dtrace (wakeup ch s) = dtrace s"
  by (simp_all add: wakeup_def)

lemma owned_D: "owned d s i b \<Longrightarrow> is_buf d s i b \<and> holdingsleep_buf i s \<and> b_valid (bufs s ! i) \<and> i < 30 \<and>
    b_locked (bufs s ! i) \<and> b_pid (bufs s ! i) = mypid s \<and> b_dev (bufs s ! i) = d \<and> b_blockno (bufs s ! i) = b"
  by (auto simp: owned_def is_buf_def holdingsleep_buf_def)

lemma owned_inj: "bio_inv d s \<Longrightarrow> owned d s i b \<Longrightarrow> owned d s j b \<Longrightarrow> i = j"
  using bio_invD(4) [of d s i j] owned_D [of d s i b] owned_D [of d s j b] by simp

lemma refs_pos: "bio_inv d s \<Longrightarrow> owned d s i b \<Longrightarrow> 0 < b_refcnt (bufs s ! i)"
  using bio_invD(5) [of d s i] owned_D [of d s i b] by simp

text \<open>An operation on an owned buffer that keeps it owned.\<close>

lemma owned_change:
  assumes inv: "bio_inv d s" and o: "owned d s i b"
    and s': "bufs s' = (bufs s)[i := nb]" "lru s' = lru s" "\<And>c. c \<noteq> b \<Longrightarrow> disk s' c = disk s c" "bframe s s'"
    and nb: "b_dev nb = d" "b_blockno nb = b" "b_locked nb" "b_pid nb = mypid s" "b_valid nb" "0 < b_refcnt nb"
  shows "bio_inv d s'" "owned d s' = owned d s"
    "babs d s' = (babs d s)\<lparr>c_view := (view d s)(b := b_data nb), c_refs := (refs d s)(b := b_refcnt nb),
       c_disk := disk s', c_trace := dtrace s'\<rparr>"
proof -
  note d = bio_invD [OF inv] and od = owned_D [OF o]
  have i: "is_buf d s i b" using od by blast
  have lr: "distinct (lru s')" "set (lru s') = {..<30}" using d s'(2) by simp_all
  have bc: "b_refcnt nb = 0 \<Longrightarrow> b_valid nb \<Longrightarrow> b_data nb = disk s' b" using nb(6) by simp
  note ch = buf_change [OF inv i s'(1) lr s'(3,4) nb(1,2) nb(6) bc]
  show "bio_inv d s'" by (rule ch(1))
  show "owned d s' = owned d s"
  proof (intro ext)
    fix j c
    show "owned d s' j c = owned d s j c"
    proof (cases "j = i")
      case True
      then show ?thesis
        using ch(5) [of j c] ch(7) nb(3,4,5) od by (cases "c = b") (auto simp: owned_def is_buf_def)
    qed (rule ch(6))
  qed
  have "free_bufs s' = free_bufs s" using ch(8) refs_pos [OF inv o] nb(6) by simp
  moreover have "blocked d s' = blocked d s"
    using ch(4) blocked_buf [OF inv i] od nb(3) by (auto simp: fun_upd_idem_iff)
  ultimately show "babs d s' = (babs d s)\<lparr>c_view := (view d s)(b := b_data nb), c_refs := (refs d s)(b := b_refcnt nb),
       c_disk := disk s', c_trace := dtrace s'\<rparr>"
    using ch(2,3) nb(5) by (simp add: babs_def)
qed

lemma free_bufs_pos:
  assumes inv: "bio_inv d s" and "0 < free_bufs s"
  shows "\<exists>i. find (\<lambda>i. b_refcnt (bufs s ! i) = 0) (rev (lru s)) = Some i \<and> i < 30 \<and> b_refcnt (bufs s ! i) = 0"
proof -
  note d = bio_invD [OF inv]
  from assms(2) have "filter (\<lambda>b. b_refcnt b = 0) (bufs s) \<noteq> []" by (simp add: free_bufs_def)
  then obtain b where "b \<in> set (bufs s)" "b_refcnt b = 0" by (auto simp: filter_empty_conv)
  then obtain k where k: "k < 30" "b_refcnt (bufs s ! k) = 0" using d(1) by (auto simp: in_set_conv_nth)
  then have "find (\<lambda>i. b_refcnt (bufs s ! i) = 0) (rev (lru s)) \<noteq> None"
    using d(3) by (auto simp: find_None_iff)
  then obtain i where i: "find (\<lambda>i. b_refcnt (bufs s ! i) = 0) (rev (lru s)) = Some i" by blast
  moreover have "i \<in> set (lru s) \<and> b_refcnt (bufs s ! i) = 0"
    using i nth_mem by (fastforce simp: find_Some_iff rev_nth)
  ultimately show ?thesis using d(3) by blast
qed

lemma free_bufs_0:
  assumes inv: "bio_inv d s" and "free_bufs s = 0"
  shows "find (\<lambda>i. b_refcnt (bufs s ! i) = 0) (rev (lru s)) = None"
proof -
  note d = bio_invD [OF inv]
  have "b_refcnt (bufs s ! i) \<noteq> 0" if "i < 30" for i
    using assms(2) that d(1) by (auto simp: free_bufs_def filter_empty_conv)
  then show ?thesis using d(3) by (auto simp: find_None_iff)
qed

text \<open>\<^verbatim>\<open>bread\<close> when the block has a buffer, and when one is recycled.\<close>

lemma bread_hit:
  assumes inv: "bio_inv d s" and i: "is_buf d s i b" and l: "\<not> b_locked (bufs s ! i)"
  defines "nb \<equiv> (bufs s ! i)\<lparr>b_refcnt := b_refcnt (bufs s ! i) + 1, b_locked := True, b_pid := mypid s,
      b_data := if b_valid (bufs s ! i) then b_data (bufs s ! i) else disk s b, b_valid := True\<rparr>"
  shows "bread d b s = Ok (i, s\<lparr>bufs := (bufs s)[i := nb]\<rparr>)"
proof -
  have f: "find (\<lambda>i. b_dev (bufs s ! i) = d \<and> b_blockno (bufs s ! i) = b) (lru s) = Some i"
    using cached_Some [OF inv, of b i] i by (simp add: cached_def)
  have i30: "i < length (bufs s)" using i bio_invD(1) [OF inv] by (simp add: is_buf_def)
  show ?thesis using i30 l i
    by (cases "bufs s ! i") (simp add: bread_def bget_def f acquiresleep_buf_def virtio_disk_rw_def Let_def nb_def is_buf_def
        upd_buf_def mypid_def myproc_def)
qed

lemma bread_miss:
  assumes inv: "bio_inv d s" and none: "\<And>j. \<not> is_buf d s j b"
    and i: "find (\<lambda>i. b_refcnt (bufs s ! i) = 0) (rev (lru s)) = Some i" "i < 30" "b_refcnt (bufs s ! i) = 0"
  defines "nb \<equiv> \<lparr>b_valid = True, b_dev = d, b_blockno = b, b_locked = True, b_pid = mypid s, b_refcnt = 1,
      b_data = disk s b\<rparr>"
  shows "bread d b s = Ok (i, s\<lparr>bufs := (bufs s)[i := nb]\<rparr>)"
proof -
  have f: "find (\<lambda>i. b_dev (bufs s ! i) = d \<and> b_blockno (bufs s ! i) = b) (lru s) = None"
    using cached_None [OF inv, of b] none by (simp add: cached_def)
  have i30: "i < length (bufs s)" using i bio_invD(1) [OF inv] by simp
  have l: "\<not> b_locked (bufs s ! i)" using bio_invD(5) [OF inv, of i] i by auto
  show ?thesis using i30 l i
    by (cases "bufs s ! i") (simp add: bread_def bget_def f acquiresleep_buf_def virtio_disk_rw_def Let_def nb_def
        upd_buf_def mypid_def myproc_def)
qed

lemma bread_ok:
  assumes inv: "bio_inv d s" and c: "can_read (babs d s) b"
  shows "\<exists>i s'. bread d b s = Ok (i, s') \<and> bio_inv d s' \<and> bframe s s' \<and> babs d s' = abs_bread b (babs d s) \<and>
    owned d s' i b \<and> (\<forall>j c. c \<noteq> b \<longrightarrow> owned d s' j c = owned d s j c)"
proof (cases "\<exists>i. is_buf d s i b")
  case True
  then obtain i where i: "is_buf d s i b" by blast
  have c': "\<not> b_locked (bufs s ! i)" "refs d s b = b_refcnt (bufs s ! i)"
    "0 < b_refcnt (bufs s ! i) \<or> 0 < free_bufs s"
    using c blocked_buf [OF inv i] refs_buf [OF inv i] by (auto simp: can_read_def babs_def)
  define nb where "nb = (bufs s ! i)\<lparr>b_refcnt := b_refcnt (bufs s ! i) + 1, b_locked := True, b_pid := mypid s,
      b_data := if b_valid (bufs s ! i) then b_data (bufs s ! i) else disk s b, b_valid := True\<rparr>"
  let ?s = "s\<lparr>bufs := (bufs s)[i := nb]\<rparr>"
  note r = bread_hit [OF inv i c'(1), folded nb_def]
  note d = bio_invD [OF inv]
  have fr: "bframe s ?s" by (simp add: bframe_def)
  have nbs: "b_dev nb = d" "b_blockno nb = b" "0 < b_refcnt nb" "b_locked nb" "b_valid nb" "b_pid nb = mypid s"
    using i by (simp_all add: nb_def is_buf_def)
  have ss: "bufs ?s = (bufs s)[i := nb]" "distinct (lru ?s)" "set (lru ?s) = {..<30}" "\<And>c. disk ?s c = disk s c"
    using d by simp_all
  have clean: "b_refcnt nb = 0 \<Longrightarrow> b_valid nb \<Longrightarrow> b_data nb = disk ?s b" using nbs(3) by simp
  note ch = buf_change [OF inv i ss fr nbs(1,2,3) clean]
  have "view d ?s = view d s" using ch(2) view_buf [OF inv i] nbs
    by (auto simp: fun_upd_idem_iff nb_def)
  then have a: "babs d ?s = abs_bread b (babs d s)"
    using ch(3,4,8) c' nbs by (auto simp: babs_def abs_bread_def nb_def)
  have o: "owned d ?s j c = owned d s j c" if "c \<noteq> b" for j c
    using ch(6) [of j c] ch(5) [of j c] that i by (cases "j = i") (auto simp: owned_def is_buf_def)
  show ?thesis using r ch(1,7) a o fr nbs by blast
next
  case False
  have f: "0 < free_bufs s"
    using c no_buf [OF inv] False by (auto simp: can_read_def babs_def)
  from free_bufs_pos [OF inv f] obtain i where
    i: "find (\<lambda>i. b_refcnt (bufs s ! i) = 0) (rev (lru s)) = Some i" "i < 30" "b_refcnt (bufs s ! i) = 0" by blast
  define nb where "nb = \<lparr>b_valid = True, b_dev = d, b_blockno = b, b_locked = True, b_pid = mypid s, b_refcnt = 1,
      b_data = disk s b\<rparr>"
  let ?s = "s\<lparr>bufs := (bufs s)[i := nb]\<rparr>"
  have none: "\<And>j. \<not> is_buf d s j b" using False by blast
  note r = bread_miss [OF inv none i, folded nb_def]
  have fr: "bframe s ?s" by (simp add: bframe_def)
  have nbs: "b_dev nb = d" "b_blockno nb = b" "0 < b_refcnt nb" by (simp_all add: nb_def)
  have ss: "bufs ?s = (bufs s)[i := nb]" "lru ?s = lru s" "disk ?s = disk s" by simp_all
  note ch = buf_recycle [OF inv i(2,3) none ss fr nbs]
  note n0 = no_buf [OF inv none]
  have "view d ?s = view d s" using ch(2) n0(1) by (auto simp: fun_upd_idem_iff nb_def)
  then have a: "babs d ?s = abs_bread b (babs d s)"
    using ch(3,4,9) n0 by (auto simp: babs_def abs_bread_def nb_def)
  have o: "owned d ?s j c = owned d s j c" if "c \<noteq> b" for j c
    using ch(6) [of j c] ch(7) [of j c] that by blast
  have "owned d ?s i b" using ch(8) by (simp add: nb_def)
  then show ?thesis using r ch(1) a o fr by blast
qed

lemma owned_abs:
  assumes "bio_inv d s" "owned d s i b"
  shows "refs d s b = b_refcnt (bufs s ! i)" "view d s b = b_data (bufs s ! i)"
  using owned_D [OF assms(2)] refs_buf [OF assms(1), of i b] view_buf [OF assms(1), of i b] by simp_all

lemma bread_panic:
  assumes inv: "bio_inv d s" and z: "free_bufs s = 0" "refs d s b = 0"
  shows "bread d b s = Panic ''bget: no buffers''"
proof -
  have none: "\<not> is_buf d s j b" for j
  proof
    assume j: "is_buf d s j b"
    then have "bufs s ! j \<in> set (bufs s)" using bio_invD(1) [OF inv] by (simp add: is_buf_def)
    with z(1) refs_buf [OF inv j] z(2) show False by (auto simp: free_bufs_def filter_empty_conv)
  qed
  have "find (\<lambda>i. b_dev (bufs s ! i) = d \<and> b_blockno (bufs s ! i) = b) (lru s) = None"
    using cached_None [OF inv, of b] none by (simp add: cached_def)
  then show ?thesis using free_bufs_0 [OF inv z(1)] by (simp add: bread_def bget_def)
qed

lemma set_data_ok:
  assumes inv: "bio_inv d s" and o: "owned d s i b"
  shows "bio_inv d (set_data i x s) \<and> bframe s (set_data i x s) \<and>
    babs d (set_data i x s) = abs_store b x (babs d s) \<and> owned d (set_data i x s) = owned d s"
proof -
  note od = owned_D [OF o] and rp = refs_pos [OF inv o]
  note r = owned_abs(1) [OF inv o]
  show ?thesis
    using owned_change [OF inv o, of "set_data i x s" "(bufs s ! i)\<lparr>b_data := x\<rparr>"] od rp r
    by (simp add: set_data_def babs_def abs_store_def fun_upd_idem_iff)
qed

lemma bwrite_ok:
  assumes inv: "bio_inv d s" and o: "owned d s i b"
  shows "\<exists>s'. bwrite i s = Ok s' \<and> bio_inv d s' \<and> bframe s s' \<and> babs d s' = abs_bwrite b (babs d s) \<and>
    owned d s' = owned d s"
proof -
  note od = owned_D [OF o] and rp = refs_pos [OF inv o]
  note r = owned_abs(1) [OF inv o] and v = owned_abs(2) [OF inv o]
  let ?s = "virtio_disk_rw i True s"
  have fr: "bframe s ?s" by (simp add: virtio_disk_rw_def Let_def)
  have "bio_inv d ?s \<and> babs d ?s = abs_bwrite b (babs d s) \<and> owned d ?s = owned d s"
    using owned_change [OF inv o, of ?s "bufs s ! i"] od rp r v fr
    by (simp add: virtio_disk_rw_def Let_def babs_def abs_bwrite_def fun_upd_idem_iff)
  then show ?thesis using od fr by (simp add: bwrite_def)
qed

lemma bpin_ok:
  assumes inv: "bio_inv d s" and o: "owned d s i b"
  shows "bio_inv d (bpin i s) \<and> bframe s (bpin i s) \<and> babs d (bpin i s) = abs_bpin b (babs d s) \<and>
    owned d (bpin i s) = owned d s"
proof -
  note od = owned_D [OF o] and rp = refs_pos [OF inv o]
  note r = owned_abs(1) [OF inv o] and v = owned_abs(2) [OF inv o]
  show ?thesis
    using owned_change [OF inv o, of "bpin i s" "(bufs s ! i)\<lparr>b_refcnt := b_refcnt (bufs s ! i) + 1\<rparr>"] od rp r v
    by (simp add: bpin_def babs_def abs_bpin_def fun_upd_idem_iff)
qed

lemma bunpin_ok:
  assumes inv: "bio_inv d s" and o: "owned d s i b" and two: "2 \<le> refs d s b"
  shows "bio_inv d (bunpin i s) \<and> bframe s (bunpin i s) \<and> babs d (bunpin i s) = abs_bunpin b (babs d s) \<and>
    owned d (bunpin i s) = owned d s"
proof -
  note od = owned_D [OF o]
  note r = owned_abs(1) [OF inv o] and v = owned_abs(2) [OF inv o]
  have dc: "dec32 (b_refcnt (bufs s ! i)) = b_refcnt (bufs s ! i) - 1" "0 < b_refcnt (bufs s ! i) - 1"
    using two r by (simp_all add: dec32_def)
  show ?thesis
    using owned_change [OF inv o, of "bunpin i s" "(bufs s ! i)\<lparr>b_refcnt := dec32 (b_refcnt (bufs s ! i))\<rparr>"] od r v dc
    by (simp add: bunpin_def babs_def abs_bunpin_def fun_upd_idem_iff)
qed

lemma brelse_ok:
  assumes inv: "bio_inv d s" and o: "owned d s i b"
    and clean: "refs d s b = 1 \<Longrightarrow> view d s b = disk s b"
  shows "\<exists>s'. brelse i s = Ok s' \<and> bio_inv d s' \<and> bframe s s' \<and> babs d s' = abs_brelse b (babs d s) \<and>
    (\<forall>j c. c \<noteq> b \<longrightarrow> owned d s' j c = owned d s j c)"
proof -
  note d = bio_invD [OF inv] and od = owned_D [OF o] and rp = refs_pos [OF inv o]
  have i: "is_buf d s i b" using od by blast
  note r = owned_abs(1) [OF inv o] and v = owned_abs(2) [OF inv o]
  define nb where "nb = (bufs s ! i)\<lparr>b_locked := False, b_pid := 0, b_refcnt := b_refcnt (bufs s ! i) - 1\<rparr>"
  define l where "l = (if b_refcnt nb = 0 then i # remove1 i (lru s) else lru s)"
  let ?s1 = "wakeup (ChBufLock i) (upd_buf i (\<lambda>b. b\<lparr>b_locked := False, b_pid := 0\<rparr>) s)"
  let ?s = "(upd_buf i (\<lambda>b. b\<lparr>b_refcnt := dec32 (b_refcnt b)\<rparr>) ?s1)\<lparr>lru := l\<rparr>"
  have dc: "dec32 (b_refcnt (bufs s ! i)) = b_refcnt (bufs s ! i) - 1" using rp by (simp add: dec32_def)
  have i30: "i < length (bufs s)" using od d(1) by simp
  have "brelse i s = Ok ?s"
    using od i30 by (simp add: brelse_def releasesleep_buf_def Let_def l_def nb_def dc upd_buf_def)
  moreover have fr: "bframe s ?s"
    by (rule bframe_trans [OF _ bframe_fields(1)], rule bframe_trans [OF _ bframe_upd_buf],
        rule bframe_trans [OF bframe_upd_buf bframe_wakeup])
  have bs: "bufs ?s = (bufs s)[i := nb]" using i30 by (simp add: nb_def dc)
  have lr: "distinct (lru ?s)" "set (lru ?s) = {..<30}"
    using d od by (auto simp: l_def)
  have dk: "\<And>c. disk ?s c = disk s c" by simp
  have nbs: "b_dev nb = d" "b_blockno nb = b" "b_locked nb \<Longrightarrow> 0 < b_refcnt nb" "\<not> b_locked nb"
    using od by (simp_all add: nb_def)
  have cl: "b_refcnt nb = 0 \<Longrightarrow> b_valid nb \<Longrightarrow> b_data nb = disk ?s b"
    using clean v r rp by (simp add: nb_def)
  note ch = buf_change [OF inv i bs lr dk fr nbs(1,2,3) cl]
  have "babs d ?s = abs_brelse b (babs d s)"
    using ch(2,3,4,8) v r rp od by (auto simp: babs_def abs_brelse_def nb_def fun_upd_idem_iff)
  moreover have "owned d ?s j c = owned d s j c" if "c \<noteq> b" for j c
    using ch(6) [of j c] ch(5) [of j c] that i by (cases "j = i") (auto simp: owned_def is_buf_def)
  ultimately show ?thesis using ch(1) fr by blast
qed

interpretation bc: block_cache "bio_inv d" "babs d" "owned d" bframe "bread d" "\<lambda>s i. b_data (bufs s ! i)"
    set_data bwrite brelse bpin bunpin for d
proof
  fix s :: "'a bstate_scheme" and b i x
  show "bframe s s" by simp
  show "bframe s s2" if "bframe s s1" "bframe s1 s2" for s1 s2 using that by (rule bframe_trans)
  assume inv: "bio_inv d s"
  show "c_view (babs d s) b = c_disk (babs d s) b" if "c_refs (babs d s) b = 0"
    using refs_0_view [OF inv] that by (simp add: babs_def)
  show "\<exists>i s'. bread d b s = Ok (i, s') \<and> bio_inv d s' \<and> bframe s s' \<and> babs d s' = abs_bread b (babs d s) \<and>
      owned d s' i b \<and> (\<forall>j c. c \<noteq> b \<longrightarrow> owned d s' j c = owned d s j c)" if "can_read (babs d s) b"
    using bread_ok [OF inv that] .
  show "\<exists>m. bread d b s = Panic m" if "c_free (babs d s) = 0" "c_refs (babs d s) b = 0"
    using bread_panic [OF inv, of b] that by (simp add: babs_def)
  assume o: "owned d s i b"
  note od = owned_D [OF o]
  have ib: "is_buf d s i b" using od by blast
  show "c_lock (babs d s) b \<and> 0 < c_refs (babs d s) b"
    using blocked_buf [OF inv ib] refs_buf [OF inv ib] od refs_pos [OF inv o] by (simp add: babs_def)
  show "b_data (bufs s ! i) = c_view (babs d s) b" using view_buf [OF inv ib] od by (simp add: babs_def)
  show "bio_inv d (set_data i x s) \<and> bframe s (set_data i x s) \<and> babs d (set_data i x s) = abs_store b x (babs d s) \<and>
      owned d (set_data i x s) = owned d s" using set_data_ok [OF inv o] .
  show "\<exists>s'. bwrite i s = Ok s' \<and> bio_inv d s' \<and> bframe s s' \<and> babs d s' = abs_bwrite b (babs d s) \<and>
      owned d s' = owned d s" using bwrite_ok [OF inv o] .
  show "\<exists>s'. brelse i s = Ok s' \<and> bio_inv d s' \<and> bframe s s' \<and> babs d s' = abs_brelse b (babs d s) \<and>
      (\<forall>j c. c \<noteq> b \<longrightarrow> owned d s' j c = owned d s j c)"
    if "c_refs (babs d s) b = 1 \<Longrightarrow> c_view (babs d s) b = c_disk (babs d s) b"
    using brelse_ok [OF inv o] that by (simp add: babs_def)
  show "bio_inv d (bpin i s) \<and> bframe s (bpin i s) \<and> babs d (bpin i s) = abs_bpin b (babs d s) \<and>
      owned d (bpin i s) = owned d s" using bpin_ok [OF inv o] .
  show "bio_inv d (bunpin i s) \<and> bframe s (bunpin i s) \<and> babs d (bunpin i s) = abs_bunpin b (babs d s) \<and>
      owned d (bunpin i s) = owned d s" if "2 \<le> c_refs (babs d s) b"
    using bunpin_ok [OF inv o] that by (simp add: babs_def)
qed

section \<open>Initialisation\<close>

text \<open>A buffer of the zeroed data segment.\<close>

definition buf0 :: buf where
  "buf0 = \<lparr>b_valid = False, b_dev = 0, b_blockno = 0, b_locked = False, b_pid = 0, b_refcnt = 0,
     b_data = replicate 1024 0\<rparr>"

lemma binit_loop:
  assumes "\<And>b. b \<in> set (bufs s) \<Longrightarrow> b\<lparr>b_locked := False, b_pid := 0\<rparr> = b" "set xs \<subseteq> {..<length (bufs s)}"
  shows "foldl (\<lambda>s i. (upd_buf i (\<lambda>b. b\<lparr>b_locked := False, b_pid := 0\<rparr>) s)\<lparr>lru := i # lru s\<rparr>) s xs =
    s\<lparr>lru := rev xs @ lru s\<rparr>"
  using assms
proof (induction xs arbitrary: s)
  case (Cons i xs)
  have "upd_buf i (\<lambda>b. b\<lparr>b_locked := False, b_pid := 0\<rparr>) s = s"
    using Cons.prems by (simp add: upd_buf_def)
  then show ?case using Cons.IH [of "s\<lparr>lru := i # lru s\<rparr>"] Cons.prems by simp
qed simp

lemma binit_eq: "bufs s = replicate 30 buf0 \<Longrightarrow> binit s = s\<lparr>lru := rev [0..<30]\<rparr>"
  using binit_loop [of "s\<lparr>lru := []\<rparr>" "[0..<30]"] by (auto simp: binit_def buf0_def subset_iff)

lemma binit_ok:
  assumes "bufs s = replicate 30 buf0" "d \<noteq> 0" "myproc s = Some p" "p < length (procs s)"
  shows "bio_inv d (binit s)"
    and "babs d (binit s) = \<lparr>c_view = disk s, c_refs = (\<lambda>_. 0), c_lock = (\<lambda>_. False), c_free = 30, c_disk = disk s,
      c_trace = dtrace s\<rparr>"
proof -
  note e = binit_eq [OF assms(1)]
  show inv: "bio_inv d (binit s)"
    using assms by (auto simp: bio_inv_def e myproc_def buf0_def)
  have none: "\<not> is_buf d (binit s) i b" for i b using assms(2) by (auto simp: is_buf_def e assms(1) buf0_def)
  have "view d (binit s) = disk s" "refs d (binit s) = (\<lambda>_. 0)" "blocked d (binit s) = (\<lambda>_. False)"
    using no_buf [OF inv none] by (auto intro!: ext simp: e)
  moreover have "free_bufs (binit s) = 30" by (simp add: free_bufs_def e assms(1) buf0_def)
  ultimately show "babs d (binit s) = \<lparr>c_view = disk s, c_refs = (\<lambda>_. 0), c_lock = (\<lambda>_. False), c_free = 30,
      c_disk = disk s, c_trace = dtrace s\<rparr>"
    by (simp add: babs_def e)
qed

definition demo_bs :: bstate where
  "demo_bs = \<lparr>mem = (\<lambda>_. 0), freelist = 0, kend = 0, procs = [proc0], cpus = [Some 0], hart = 0, initproc = None,
     nextpid = 2, trampoline = 0, forkret = 0, disk = (\<lambda>_. replicate 1024 0), dtrace = [],
     bufs = replicate 30 buf0, lru = []\<rparr>"

lemma demo_bs_ok:
  "bio_inv 1 (binit demo_bs)" "can_read (babs 1 (binit demo_bs)) b"
  "bufs demo_bs = replicate 30 buf0" "myproc demo_bs = Some 0" "disk demo_bs = (\<lambda>_. replicate 1024 0)"
  using binit_ok [of demo_bs 1 0] by (simp_all add: demo_bs_def myproc_def can_read_def)

section \<open>Properties\<close>

text \<open>
  \<^verbatim>\<open>binit\<close> on the zeroed buffers establishes the cache's invariant for every device but 0,
  and every block reads as on disk, with all 30 buffers free.
\<close>

lemma binit_establishes_inv:
  assumes "bufs s = replicate 30 buf0" "d \<noteq> 0" "myproc s = Some p" "p < length (procs s)"
  shows "bio_inv d (binit s) \<and> (\<forall>b. view d (binit s) b = disk s b \<and> can_read (babs d (binit s)) b)"
  using binit_ok [OF assms] by (simp add: babs_def can_read_def)

text \<open>
  C5. Reading a block whose lock is free and that has a buffer or can get one returns its current
  contents in a buffer locked by the caller; storing new contents, \<^verbatim>\<open>bwrite\<close> and \<^verbatim>\<open>brelse\<close> then
  change what readers see and the disk at that block only, append one disk write, and
  restore every reference count and lock.
\<close>

theorem bread_bwrite_correct:
  assumes "bio_inv d s" "can_read (babs d s) b"
  shows "\<exists>i s1 s2 s3. bread d b s = Ok (i, s1) \<and> b_data (bufs s1 ! i) = view d s b \<and>
    bwrite i (set_data i x s1) = Ok s2 \<and> brelse i s2 = Ok s3 \<and> bio_inv d s3 \<and>
    view d s3 = (view d s)(b := x) \<and> disk s3 = (disk s)(b := x) \<and> dtrace s3 = dtrace s @ [(b, x)] \<and>
    refs d s3 = refs d s \<and> blocked d s3 = blocked d s \<and> free_bufs s3 = free_bufs s"
proof -
  from bc.read_release [OF assms] obtain i s1 where r: "bread d b s = Ok (i, s1)"
    "b_data (bufs s1 ! i) = view d s b" by (auto simp: babs_def)
  from bc.write_through [OF assms r(1), of x] obtain s2 s3 where w:
    "bwrite i (set_data i x s1) = Ok s2" "brelse i s2 = Ok s3" "bio_inv d s3"
    "babs d s3 = (babs d s)\<lparr>c_view := (view d s)(b := x), c_disk := (disk s)(b := x),
      c_trace := dtrace s @ [(b, x)]\<rparr>" by (auto simp: babs_def)
  from w(4) have "view d s3 = (view d s)(b := x) \<and> disk s3 = (disk s)(b := x) \<and> dtrace s3 = dtrace s @ [(b, x)] \<and>
    refs d s3 = refs d s \<and> blocked d s3 = blocked d s \<and> free_bufs s3 = free_bufs s"
    by (simp add: babs_def)
  with r w(1-3) show ?thesis by blast
qed

theorem bread_bwrite_correct_witness:
  "\<exists>i s1 s2 s3. bread 1 7 (binit demo_bs) = Ok (i, s1) \<and> b_data (bufs s1 ! i) = view 1 (binit demo_bs) 7 \<and>
    bwrite i (set_data i [1, 2] s1) = Ok s2 \<and> brelse i s2 = Ok s3 \<and> bio_inv 1 s3 \<and>
    view 1 s3 = (view 1 (binit demo_bs))(7 := [1, 2]) \<and> disk s3 = (disk (binit demo_bs))(7 := [1, 2]) \<and>
    dtrace s3 = dtrace (binit demo_bs) @ [(7, [1, 2])] \<and>
    refs 1 s3 = refs 1 (binit demo_bs) \<and> blocked 1 s3 = blocked 1 (binit demo_bs) \<and>
    free_bufs s3 = free_bufs (binit demo_bs)"
  using demo_bs_ok by (intro bread_bwrite_correct)

end
