(* ===== verification/Log.thy ===== *)
theory Log
  imports Bio
begin

text \<open>
  \<^verbatim>\<open>kernel/log.c\<close>: the redo log that makes the block writes of file-system calls atomic
  with respect to crashes. \<open>log_lh\<close> is the list of the first \<^verbatim>\<open>lh.n\<close> entries of
  \<^verbatim>\<open>lh.block\<close>. A crash keeps a prefix of the disk writes recorded in \<open>dtrace\<close>
  and loses everything in memory; each block write is taken to be atomic.

  The main results: whatever prefix of the writes of \<^verbatim>\<open>commit\<close> reaches the disk,
  \<^verbatim>\<open>recover_from_log\<close> at the next boot leaves either all home blocks as before the
  transaction or all as after it; and \<^verbatim>\<open>begin_op\<close> admits no more operations than fit in
  \<^verbatim>\<open>LOGSIZE\<close> blocks, which is one more than \<^verbatim>\<open>log_write\<close> accepts on a log
  of \<^verbatim>\<open>LOGSIZE\<close> blocks.
\<close>

section \<open>State\<close>

record logst = bstate +
  log_start :: nat
  log_size :: nat
  log_outstanding :: int
  log_committing :: bool
  log_dev :: nat
  log_lh :: "nat list"

abbreviation LOGSIZE :: nat where "LOGSIZE \<equiv> 30"
abbreviation MAXOPBLOCKS :: nat where "MAXOPBLOCKS \<equiv> 10"
abbreviation BSIZE :: nat where "BSIZE \<equiv> 1024"

text \<open>A 32-bit field of a block, as unsigned and as signed integer.\<close>

definition get32 :: "nat \<Rightarrow> byte list \<Rightarrow> nat" where
  "get32 off bs = le_val (slice off 4 bs)"

definition put32 :: "nat \<Rightarrow> nat \<Rightarrow> byte list \<Rightarrow> byte list" where
  "put32 off v bs = splice off (le_bytes 4 v) bs"

definition sint32 :: "nat \<Rightarrow> int" where
  "sint32 v = (if v < 2 ^ 31 then int v else int v - 2 ^ 32)"

section \<open>Operations\<close>

fun install_trans :: "bool \<Rightarrow> nat \<Rightarrow> nat list \<Rightarrow> 'a logst_scheme \<Rightarrow> 'a logst_scheme res" where
  "install_trans recovering tail [] s = Ok s"
| "install_trans recovering tail (b # bs) s =
     rbind (bread (log_dev s) (log_start s + tail + 1) s) (\<lambda>(lbuf, s1).
     rbind (bread (log_dev s) b s1) (\<lambda>(dbuf, s2).
     rbind (bwrite dbuf (set_data dbuf (b_data (bufs s2 ! lbuf)) s2)) (\<lambda>s3.
     let s4 = (if recovering then s3 else bunpin dbuf s3) in
     rbind (brelse lbuf s4) (\<lambda>s5.
     rbind (brelse dbuf s5) (\<lambda>s6. install_trans recovering (tail + 1) bs s6)))))"

text \<open>
  The header on disk: \<^verbatim>\<open>n\<close> and then \<^verbatim>\<open>block[]\<close>. Copying more than \<^verbatim>\<open>LOGSIZE\<close>
  entries would overrun \<^verbatim>\<open>log.lh.block\<close>: undefined behaviour, here a panic.
\<close>

definition head_blocks :: "nat \<Rightarrow> byte list \<Rightarrow> nat list" where
  "head_blocks n bs = map (\<lambda>i. get32 (4 + 4 * i) bs) [0..<n]"

definition read_head :: "'a logst_scheme \<Rightarrow> 'a logst_scheme res" where
  "read_head s =
     rbind (bread (log_dev s) (log_start s) s) (\<lambda>(b, s1).
       let n = sint32 (get32 0 (b_data (bufs s1 ! b))) in
       if n > int LOGSIZE then Panic ''read_head: lh.block overrun''
       else brelse b (s1\<lparr>log_lh := head_blocks (nat n) (b_data (bufs s1 ! b))\<rparr>))"

definition enc_head :: "nat list \<Rightarrow> byte list \<Rightarrow> byte list" where
  "enc_head lh bs = splice 0 (concat (map (le_bytes 4) (length lh # lh))) bs"

definition write_head :: "'a logst_scheme \<Rightarrow> 'a logst_scheme res" where
  "write_head s =
     rbind (bread (log_dev s) (log_start s) s) (\<lambda>(b, s1).
     rbind (bwrite b (set_data b (enc_head (log_lh s) (b_data (bufs s1 ! b))) s1)) (\<lambda>s2. brelse b s2))"

definition recover_from_log :: "'a logst_scheme \<Rightarrow> 'a logst_scheme res" where
  "recover_from_log s =
     rbind (read_head s) (\<lambda>s1.
     rbind (install_trans True 0 (log_lh s1) s1) (\<lambda>s2. write_head (s2\<lparr>log_lh := []\<rparr>)))"

text \<open>The superblock's \<^verbatim>\<open>logstart\<close> and \<^verbatim>\<open>nlog\<close> are the parameters. \<^verbatim>\<open>sizeof(struct logheader)\<close> is 124.\<close>

definition initlog :: "nat \<Rightarrow> nat \<Rightarrow> nat \<Rightarrow> 'a logst_scheme \<Rightarrow> 'a logst_scheme res" where
  "initlog dev logstart nlog s =
     (if 4 + 4 * LOGSIZE \<ge> BSIZE then Panic ''initlog: too big logheader''
      else recover_from_log (s\<lparr>log_start := logstart, log_size := nlog, log_dev := dev\<rparr>))"

definition begin_op :: "'a logst_scheme \<Rightarrow> 'a logst_scheme res" where
  "begin_op s =
     (if log_committing s then Sleep ''log''
      else if int (length (log_lh s)) + (log_outstanding s + 1) * int MAXOPBLOCKS > int LOGSIZE then Sleep ''log''
      else Ok (s\<lparr>log_outstanding := log_outstanding s + 1\<rparr>))"

fun write_log :: "nat \<Rightarrow> nat list \<Rightarrow> 'a logst_scheme \<Rightarrow> 'a logst_scheme res" where
  "write_log tail [] s = Ok s"
| "write_log tail (b # bs) s =
     rbind (bread (log_dev s) (log_start s + tail + 1) s) (\<lambda>(to, s1).
     rbind (bread (log_dev s) b s1) (\<lambda>(from, s2).
     rbind (bwrite to (set_data to (b_data (bufs s2 ! from)) s2)) (\<lambda>s3.
     rbind (brelse from s3) (\<lambda>s4.
     rbind (brelse to s4) (\<lambda>s5. write_log (tail + 1) bs s5)))))"

definition commit :: "'a logst_scheme \<Rightarrow> 'a logst_scheme res" where
  "commit s =
     (if log_lh s \<noteq> [] then
        rbind (write_log 0 (log_lh s) s) (\<lambda>s1.
        rbind (write_head s1) (\<lambda>s2.
        rbind (install_trans False 0 (log_lh s2) s2) (\<lambda>s3. write_head (s3\<lparr>log_lh := []\<rparr>))))
      else Ok s)"

definition end_op :: "'a logst_scheme \<Rightarrow> 'a logst_scheme res" where
  "end_op s =
     (let s1 = s\<lparr>log_outstanding := log_outstanding s - 1\<rparr> in
      if log_committing s1 then Panic ''log.committing''
      else if log_outstanding s1 = 0 then
        rbind (commit (s1\<lparr>log_committing := True\<rparr>)) (\<lambda>s2. Ok (wakeup ChLog (s2\<lparr>log_committing := False\<rparr>)))
      else Ok (wakeup ChLog s1))"

definition log_write :: "nat \<Rightarrow> 'a logst_scheme \<Rightarrow> 'a logst_scheme res" where
  "log_write b s =
     (let n = int (length (log_lh s)) in
      if n \<ge> int LOGSIZE \<or> n \<ge> int (log_size s) - 1 then Panic ''too big a transaction''
      else if log_outstanding s < 1 then Panic ''log_write outside of trans''
      else if b_blockno (bufs s ! b) \<in> set (log_lh s) then Ok s
      else Ok (bpin b (s\<lparr>log_lh := log_lh s @ [b_blockno (bufs s ! b)]\<rparr>)))"

section \<open>Crashes\<close>

text \<open>Performing a list of block writes.\<close>

definition writes :: "(nat \<times> byte list) list \<Rightarrow> (nat \<Rightarrow> byte list) \<Rightarrow> nat \<Rightarrow> byte list" where
  "writes ws m = foldl (\<lambda>m (b, x). m(b := x)) m ws"

lemma writes_simps [simp]:
  "writes [] m = m" "writes ((b, x) # ws) m = writes ws (m(b := x))"
  "writes (ws @ ws') m = writes ws' (writes ws m)"
  by (simp_all add: writes_def)

lemma writes_other: "b \<notin> fst ` set ws \<Longrightarrow> writes ws m b = m b"
  by (induction ws arbitrary: m) auto

lemma writes_in:
  "distinct (map fst ws) \<Longrightarrow> (b, x) \<in> set ws \<Longrightarrow> writes ws m b = x"
proof (induction ws arbitrary: m)
  case (Cons w ws)
  obtain c y where w: "w = (c, y)" by (cases w)
  show ?case
  proof (cases "w = (b, x)")
    case True
    with Cons.prems have "b \<notin> fst ` set ws" by auto
    with True show ?thesis by (simp add: writes_other)
  qed (use Cons w in auto)
qed simp

section \<open>Copying one block to another\<close>

context block_cache
begin

text \<open>Two blocks read one after the other, as \<^verbatim>\<open>write_log\<close> and \<^verbatim>\<open>install_trans\<close> do.\<close>

lemma read_two:
  assumes "inv s" "a \<noteq> b" "can_read (abs s) a" "can_read (abs_bread a (abs s)) b"
  shows "\<exists>i s1 j s2. rd a s = Ok (i, s1) \<and> rd b s1 = Ok (j, s2) \<and> inv s2 \<and> frame s s1 \<and> frame s s2 \<and>
    abs s2 = abs_bread b (abs_bread a (abs s)) \<and> own s2 i a \<and> own s2 j b \<and>
    dat s2 i = c_view (abs s) a \<and> dat s2 j = c_view (abs s) b"
proof -
  from read_ok [OF assms(1,3)] obtain i s1 where r1: "rd a s = Ok (i, s1)" "inv s1" "frame s s1"
    "abs s1 = abs_bread a (abs s)" "own s1 i a" by blast
  from read_ok [OF r1(2), of b] assms(4) r1(4) obtain j s2 where r2: "rd b s1 = Ok (j, s2)" "inv s2" "frame s1 s2"
    "abs s2 = abs_bread b (abs s1)" "own s2 j b" and o: "\<forall>k c. c \<noteq> b \<longrightarrow> own s2 k c = own s1 k c" by auto
  have o1: "own s2 i a" using o r1(5) assms(2) by blast
  show ?thesis
    using r1 r2 o1 frame_trans [OF r1(3) r2(3)] own_data [OF r2(2) o1] own_data [OF r2(2,5)]
    by (auto simp: abs_ops)
qed

lemma copy_to_first:
  assumes "inv s" "a \<noteq> b" "can_read (abs s) a" "\<not> c_lock (abs s) b" "0 < c_refs (abs s) b"
  shows "\<exists>i s1 j s2 s3 s4 s5. rd a s = Ok (i, s1) \<and> rd b s1 = Ok (j, s2) \<and> frame s s1 \<and> frame s s2 \<and>
    wr i (put i (dat s2 j) s2) = Ok s3 \<and> rel j s3 = Ok s4 \<and> rel i s4 = Ok s5 \<and> inv s5 \<and> frame s s5 \<and>
    abs s5 = (abs s)\<lparr>c_view := (c_view (abs s))(a := c_view (abs s) b),
      c_disk := (c_disk (abs s))(a := c_view (abs s) b), c_trace := c_trace (abs s) @ [(a, c_view (abs s) b)]\<rparr>"
proof -
  define x where "x = c_view (abs s) b"
  have "can_read (abs_bread a (abs s)) b" using assms by (simp add: can_read_def abs_ops)
  from read_two [OF assms(1,2,3) this] obtain i s1 j s2 where r: "rd a s = Ok (i, s1)" "rd b s1 = Ok (j, s2)"
    "inv s2" "frame s s1" "frame s s2" "abs s2 = abs_bread b (abs_bread a (abs s))" "own s2 i a" "own s2 j b"
    "dat s2 j = x" by (auto simp: x_def)
  from put_ok [OF r(3,7), of x] r have p: "inv (put i x s2)" "frame s2 (put i x s2)"
    "abs (put i x s2) = abs_store a x (abs s2)" "own (put i x s2) i a" "own (put i x s2) j b" by auto
  from write_ok [OF p(1,4)] p(4,5) obtain s3 where w: "wr i (put i x s2) = Ok s3" "inv s3" "frame (put i x s2) s3"
    "abs s3 = abs_bwrite a (abs (put i x s2))" "own s3 i a" "own s3 j b" by auto
  have "c_refs (abs s3) b \<noteq> 1" using w(4) p(3) r(6) assms(2,5) by (simp add: abs_ops)
  with release_ok [OF w(2,6)] obtain s4 where l: "rel j s3 = Ok s4" "inv s4" "frame s3 s4"
    "abs s4 = abs_brelse b (abs s3)" and o: "\<forall>k c. c \<noteq> b \<longrightarrow> own s4 k c = own s3 k c" by auto
  have o4: "own s4 i a" using o w(5) assms(2) by blast
  have "c_view (abs s4) a = c_disk (abs s4) a" by (simp add: l(4) w(4) abs_ops)
  with release_ok [OF l(2) o4] obtain s5 where q: "rel i s4 = Ok s5" "inv s5" "frame s4 s5"
    "abs s5 = abs_brelse a (abs s4)" by auto
  have "abs s5 = (abs s)\<lparr>c_view := (c_view (abs s))(a := x), c_disk := (c_disk (abs s))(a := x),
      c_trace := c_trace (abs s) @ [(a, x)]\<rparr>"
    using assms(2-5)
    by (cases "abs s") (auto simp: q(4) l(4) w(4) p(3) r(6) abs_ops can_read_def fun_eq_iff)
  moreover have "frame s s5" using r(5) p(2) w(3) l(3) q(3) frame_trans by meson
  moreover have "wr i (put i (dat s2 j) s2) = Ok s3" using w(1) r(9) by simp
  ultimately show ?thesis using r(1,2,4,5) l(1) q(1,2) unfolding x_def by blast
qed

lemma copy_to_second:
  assumes "inv s" "a \<noteq> b" "can_read (abs s) a" "can_read (abs_bread a (abs s)) b" "u \<longrightarrow> 0 < c_refs (abs s) b"
  shows "\<exists>i s1 j s2 s3 s4 s5. rd a s = Ok (i, s1) \<and> rd b s1 = Ok (j, s2) \<and> frame s s1 \<and> frame s s2 \<and>
    wr j (put j (dat s2 i) s2) = Ok s3 \<and> rel i (if u then unpin j s3 else s3) = Ok s4 \<and> rel j s4 = Ok s5 \<and>
    inv s5 \<and> frame s s5 \<and>
    abs s5 = (abs s)\<lparr>c_view := (c_view (abs s))(b := c_view (abs s) a),
      c_disk := (c_disk (abs s))(b := c_view (abs s) a), c_trace := c_trace (abs s) @ [(b, c_view (abs s) a)],
      c_refs := (c_refs (abs s))(b := c_refs (abs s) b - (if u then 1 else 0)),
      c_free := c_free (abs s) + (if u \<and> c_refs (abs s) b = 1 then 1 else 0)\<rparr>"
proof -
  define x where "x = c_view (abs s) a"
  from read_two [OF assms(1-4)] obtain i s1 j s2 where r: "rd a s = Ok (i, s1)" "rd b s1 = Ok (j, s2)"
    "inv s2" "frame s s1" "frame s s2" "abs s2 = abs_bread b (abs_bread a (abs s))" "own s2 i a" "own s2 j b"
    "dat s2 i = x" by (auto simp: x_def)
  from put_ok [OF r(3,8), of x] r have p: "inv (put j x s2)" "frame s2 (put j x s2)"
    "abs (put j x s2) = abs_store b x (abs s2)" "own (put j x s2) i a" "own (put j x s2) j b" by auto
  from write_ok [OF p(1,5)] p(4,5) obtain s3 where w: "wr j (put j x s2) = Ok s3" "inv s3" "frame (put j x s2) s3"
    "abs s3 = abs_bwrite b (abs (put j x s2))" "own s3 i a" "own s3 j b" by auto
  define s3' where "s3' = (if u then unpin j s3 else s3)"
  have rb: "2 \<le> c_refs (abs s3) b" if u
    using w(4) p(3) r(6) assms(2) assms(5) that by (simp add: abs_ops)
  have u: "inv s3'" "frame s3 s3'" "abs s3' = (if u then abs_bunpin b (abs s3) else abs s3)" "own s3' i a" "own s3' j b"
    using unpin_ok [OF w(2,6) rb] w frame_refl by (auto simp: s3'_def)
  have "c_refs (abs s3') a = 1 \<Longrightarrow> c_view (abs s3') a = c_disk (abs s3') a"
    using clean [OF assms(1), of a] assms(2) by (auto simp: u(3) w(4) p(3) r(6) abs_ops split: if_splits)
  with release_ok [OF u(1,4)] obtain s4 where l: "rel i s3' = Ok s4" "inv s4" "frame s3' s4"
    "abs s4 = abs_brelse a (abs s3')" and o: "\<forall>k c. c \<noteq> a \<longrightarrow> own s4 k c = own s3' k c" by blast
  have o4: "own s4 j b" using o u(5) assms(2) by auto
  have "c_view (abs s4) b = c_disk (abs s4) b" by (simp add: l(4) u(3) w(4) abs_ops)
  with release_ok [OF l(2) o4] obtain s5 where q: "rel j s4 = Ok s5" "inv s5" "frame s4 s5"
    "abs s5 = abs_brelse b (abs s4)" by auto
  have "abs s5 = (abs s)\<lparr>c_view := (c_view (abs s))(b := x), c_disk := (c_disk (abs s))(b := x),
      c_trace := c_trace (abs s) @ [(b, x)], c_refs := (c_refs (abs s))(b := c_refs (abs s) b - (if u then 1 else 0)),
      c_free := c_free (abs s) + (if u \<and> c_refs (abs s) b = 1 then 1 else 0)\<rparr>"
    using assms(2-5)
    by (cases "abs s")
      (auto simp: q(4) l(4) u(3) w(4) p(3) r(6) abs_ops can_read_def fun_eq_iff)
  moreover have "frame s s5" using r(5) p(2) w(3) u(2) l(3) q(3) frame_trans by meson
  moreover have "wr j (put j (dat s2 i) s2) = Ok s3" using w(1) r(9) by simp
  ultimately show ?thesis using r(1,2,4,5) l(1) q(1,2) unfolding x_def s3'_def by blast
qed

end

section \<open>The log's steps over the cache\<close>

lemma bframe_log:
  assumes "bframe s s'"
  shows "log_start s' = log_start s" "log_size s' = log_size s" "log_outstanding s' = log_outstanding s"
    "log_committing s' = log_committing s" "log_dev s' = log_dev s" "log_lh s' = log_lh s"
proof -
  have "bstate.more s' = bstate.more s" by (rule bframe_pstate(9) [OF assms])
  then show "log_start s' = log_start s" "log_size s' = log_size s" "log_outstanding s' = log_outstanding s"
    "log_committing s' = log_committing s" "log_dev s' = log_dev s" "log_lh s' = log_lh s"
    by (cases s; cases s'; simp)+
qed

lemma bframe_upd_lh: "bframe s s' \<Longrightarrow> bframe (s\<lparr>log_lh := l\<rparr>) (s'\<lparr>log_lh := l\<rparr>)"
  by (cases s; cases s') (auto simp: bframe_def)

text \<open>No buffer is locked, and \<open>n\<close> buffers are unreferenced.\<close>

definition quiet :: "nat \<Rightarrow> nat \<Rightarrow> 'a bstate_scheme \<Rightarrow> bool" where
  "quiet d n s \<longleftrightarrow> (\<forall>b. \<not> blocked d s b) \<and> n \<le> free_bufs s"

lemma quiet_can_read: "quiet d 1 s \<Longrightarrow> can_read (babs d s) b"
  by (simp add: quiet_def can_read_def babs_def)

text \<open>The writes that copy the blocks \<open>bs\<close> into the log from block \<open>st\<close> on, and back.\<close>

definition to_log :: "nat \<Rightarrow> (nat \<Rightarrow> byte list) \<Rightarrow> nat list \<Rightarrow> (nat \<times> byte list) list" where
  "to_log st vw bs = zip [st..<st + length bs] (map vw bs)"

definition from_log :: "nat \<Rightarrow> (nat \<Rightarrow> byte list) \<Rightarrow> nat list \<Rightarrow> (nat \<times> byte list) list" where
  "from_log st vw bs = zip bs (map vw [st..<st + length bs])"

lemma to_log_simps [simp]:
  "to_log st vw [] = []" "to_log st vw (b # bs) = (st, vw b) # to_log (Suc st) vw bs"
  by (simp_all add: to_log_def upt_conv_Cons del: upt_Suc)

lemma from_log_simps [simp]:
  "from_log st vw [] = []" "from_log st vw (b # bs) = (b, vw st) # from_log (Suc st) vw bs"
  by (simp_all add: from_log_def upt_conv_Cons del: upt_Suc)

lemma to_log_cong: "(\<And>b. b \<in> set bs \<Longrightarrow> vw b = vw' b) \<Longrightarrow> to_log st vw bs = to_log st vw' bs"
  by (simp add: to_log_def cong: map_cong)

lemma from_log_cong:
  "(\<And>b. st \<le> b \<Longrightarrow> b < st + length bs \<Longrightarrow> vw b = vw' b) \<Longrightarrow> from_log st vw bs = from_log st vw' bs"
  unfolding from_log_def by (intro arg_cong [where f = "zip bs"] map_cong) auto

lemma write_log_spec:
  assumes "bio_inv d s" "log_dev s = d" "quiet d 1 s" "\<forall>b\<in>set bs. 0 < refs d s b"
    "\<forall>b\<in>set bs. b \<le> log_start s + tail \<or> log_start s + tail + length bs < b"
  shows "\<exists>s'. write_log tail bs s = Ok s' \<and> bio_inv d s' \<and> bframe s s' \<and>
    babs d s' = (let ws = to_log (log_start s + tail + 1) (view d s) bs in
      (babs d s)\<lparr>c_view := writes ws (view d s), c_disk := writes ws (disk s), c_trace := dtrace s @ ws\<rparr>)"
  using assms
proof (induction bs arbitrary: tail s)
  case Nil
  then show ?case by (simp add: babs_def Let_def)
next
  case (Cons b bs)
  let ?a = "log_start s + tail + 1"
  have ne: "?a \<noteq> b" using Cons.prems(5) by auto
  have fb: "can_read (babs d s) ?a" "\<not> c_lock (babs d s) b" "0 < c_refs (babs d s) b"
    using Cons.prems(3,4) quiet_can_read by (auto simp: quiet_def babs_def)
  from bc.copy_to_first [OF Cons.prems(1) ne fb] obtain i s1 j s2 s3 s4 s5 where
    r: "bread d ?a s = Ok (i, s1)" "bread d b s1 = Ok (j, s2)" "bwrite i (set_data i (b_data (bufs s2 ! j)) s2) = Ok s3"
      "brelse j s3 = Ok s4" "brelse i s4 = Ok s5" and s5: "bio_inv d s5" "bframe s s5"
    and a5: "babs d s5 = (babs d s)\<lparr>c_view := (view d s)(?a := view d s b), c_disk := (disk s)(?a := view d s b),
      c_trace := dtrace s @ [(?a, view d s b)]\<rparr>" by (auto simp: babs_def)
  note lf = bframe_log [OF s5(2)]
  have a5': "view d s5 = (view d s)(?a := view d s b)" "refs d s5 = refs d s" "blocked d s5 = blocked d s"
    "free_bufs s5 = free_bufs s" "disk s5 = (disk s)(?a := view d s b)" "dtrace s5 = dtrace s @ [(?a, view d s b)]"
    using a5 by (simp_all add: babs_def)
  have pre: "log_dev s5 = d" "quiet d 1 s5" "\<forall>b\<in>set bs. 0 < refs d s5 b"
    "\<forall>b\<in>set bs. b \<le> log_start s5 + (tail + 1) \<or> log_start s5 + (tail + 1) + length bs < b"
    using Cons.prems lf a5' by (force simp: quiet_def)+
  from Cons.IH [OF s5(1) pre] obtain s' where s': "write_log (tail + 1) bs s5 = Ok s'" "bio_inv d s'" "bframe s5 s'"
    "babs d s' = (let ws = to_log (log_start s + (tail + 1) + 1) (view d s5) bs in
      (babs d s5)\<lparr>c_view := writes ws (view d s5), c_disk := writes ws (disk s5), c_trace := dtrace s5 @ ws\<rparr>)"
    using lf by auto
  have "to_log (log_start s + (tail + 1) + 1) (view d s5) bs = to_log (Suc ?a) (view d s) bs"
    using Cons.prems(5) by (auto simp: a5' intro!: to_log_cong)
  then have "babs d s' = (let ws = to_log ?a (view d s) (b # bs) in
      (babs d s)\<lparr>c_view := writes ws (view d s), c_disk := writes ws (disk s), c_trace := dtrace s @ ws\<rparr>)"
    by (simp add: s'(4) a5 Let_def) (simp add: babs_def a5')
  moreover have "write_log tail (b # bs) s = Ok s'" using r s'(1) Cons.prems(2) by simp
  ultimately show ?case using s'(2) bframe_trans [OF s5(2) s'(3)] by blast
qed

lemma install_trans_spec:
  assumes "bio_inv d s" "log_dev s = d" "quiet d (if rcv then 2 else 1) s"
    "\<not> rcv \<Longrightarrow> distinct bs \<and> (\<forall>b\<in>set bs. 0 < refs d s b)"
    "\<forall>b\<in>set bs. b \<le> log_start s + tail \<or> log_start s + tail + length bs < b"
  shows "\<exists>s' f. install_trans rcv tail bs s = Ok s' \<and> bio_inv d s' \<and> bframe s s' \<and> free_bufs s \<le> f \<and>
    babs d s' = (let ws = from_log (log_start s + tail + 1) (view d s) bs in
      (babs d s)\<lparr>c_view := writes ws (view d s), c_disk := writes ws (disk s), c_trace := dtrace s @ ws,
        c_refs := (\<lambda>b. if \<not> rcv \<and> b \<in> set bs then refs d s b - 1 else refs d s b), c_free := f\<rparr>)"
  using assms
proof (induction bs arbitrary: tail s)
  case Nil
  then show ?case by (simp add: babs_def Let_def)
next
  case (Cons b bs)
  let ?a = "log_start s + tail + 1"
  have ne: "?a \<noteq> b" using Cons.prems(5) by auto
  have fb: "can_read (babs d s) ?a" "can_read (abs_bread ?a (babs d s)) b" "\<not> rcv \<longrightarrow> 0 < c_refs (babs d s) b"
    using Cons.prems(3,4) ne by (cases rcv; simp add: quiet_def babs_def can_read_def abs_ops)+
  from bc.copy_to_second [where u = "\<not> rcv", OF Cons.prems(1) ne fb] obtain i s1 j s2 s3 s4 s5 where
    r: "bread d ?a s = Ok (i, s1)" "bread d b s1 = Ok (j, s2)" "bwrite j (set_data j (b_data (bufs s2 ! i)) s2) = Ok s3"
      "brelse i (if \<not> rcv then bunpin j s3 else s3) = Ok s4" "brelse j s4 = Ok s5" and s5: "bio_inv d s5" "bframe s s5"
    and a5: "babs d s5 = (babs d s)\<lparr>c_view := (view d s)(b := view d s ?a), c_disk := (disk s)(b := view d s ?a),
      c_trace := dtrace s @ [(b, view d s ?a)], c_refs := (refs d s)(b := refs d s b - (if \<not> rcv then 1 else 0)),
      c_free := free_bufs s + (if \<not> rcv \<and> refs d s b = 1 then 1 else 0)\<rparr>"
    unfolding babs_def by auto
  note lf = bframe_log [OF s5(2)]
  have a5': "view d s5 = (view d s)(b := view d s ?a)" "refs d s5 = (refs d s)(b := refs d s b - (if \<not> rcv then 1 else 0))"
    "blocked d s5 = blocked d s" "free_bufs s5 = free_bufs s + (if \<not> rcv \<and> refs d s b = 1 then 1 else 0)"
    "disk s5 = (disk s)(b := view d s ?a)" "dtrace s5 = dtrace s @ [(b, view d s ?a)]"
    using a5 by (simp_all add: babs_def)
  have pre: "log_dev s5 = d" "quiet d (if rcv then 2 else 1) s5" "\<not> rcv \<Longrightarrow> distinct bs \<and> (\<forall>b\<in>set bs. 0 < refs d s5 b)"
    "\<forall>b\<in>set bs. b \<le> log_start s5 + (tail + 1) \<or> log_start s5 + (tail + 1) + length bs < b"
    using Cons.prems lf a5' by (force simp: quiet_def)+
  from Cons.IH [OF s5(1) pre] obtain s' f where s': "install_trans rcv (tail + 1) bs s5 = Ok s'" "bio_inv d s'"
    "bframe s5 s'" "free_bufs s5 \<le> f"
    "babs d s' = (let ws = from_log (log_start s + (tail + 1) + 1) (view d s5) bs in
      (babs d s5)\<lparr>c_view := writes ws (view d s5), c_disk := writes ws (disk s5), c_trace := dtrace s5 @ ws,
        c_refs := (\<lambda>b. if \<not> rcv \<and> b \<in> set bs then refs d s5 b - 1 else refs d s5 b), c_free := f\<rparr>)"
    using lf by auto
  have w: "from_log (log_start s + (tail + 1) + 1) (view d s5) bs = from_log (Suc ?a) (view d s) bs"
    using Cons.prems(5) by (auto simp: a5' intro!: from_log_cong)
  have rf: "(\<lambda>c. if \<not> rcv \<and> c \<in> set bs then refs d s5 c - 1 else refs d s5 c) =
      (\<lambda>c. if \<not> rcv \<and> c \<in> set (b # bs) then refs d s c - 1 else refs d s c)"
    using Cons.prems(4) by (auto simp: a5' fun_eq_iff)
  have "babs d s' = (let ws = from_log ?a (view d s) (b # bs) in
      (babs d s)\<lparr>c_view := writes ws (view d s), c_disk := writes ws (disk s), c_trace := dtrace s @ ws,
        c_refs := (\<lambda>c. if \<not> rcv \<and> c \<in> set (b # bs) then refs d s c - 1 else refs d s c), c_free := f\<rparr>)"
    unfolding s'(5) w rf by (simp add: a5 Let_def) (simp add: babs_def a5')
  moreover have "install_trans rcv tail (b # bs) s = Ok s'" using r s'(1) Cons.prems(2) by (cases rcv) (simp_all add: Let_def)
  moreover have "free_bufs s \<le> f" using s'(4) a5'(4) by simp
  ultimately show ?case using s'(2) bframe_trans [OF s5(2) s'(3)] by blast
qed

lemma write_head_spec:
  assumes "bio_inv d s" "log_dev s = d" "quiet d 1 s"
  shows "\<exists>s'. write_head s = Ok s' \<and> bio_inv d s' \<and> bframe s s' \<and>
    babs d s' = (let h = enc_head (log_lh s) (view d s (log_start s)) in
      (babs d s)\<lparr>c_view := (view d s)(log_start s := h), c_disk := (disk s)(log_start s := h),
        c_trace := dtrace s @ [(log_start s, h)]\<rparr>)"
proof -
  note cr = quiet_can_read [OF assms(3), of "log_start s"]
  from bc.read_release [OF assms(1) cr] obtain i s1 where r: "bread d (log_start s) s = Ok (i, s1)"
    "b_data (bufs s1 ! i) = view d s (log_start s)" by (auto simp: babs_def)
  from bc.write_through [OF assms(1) cr r(1), of "enc_head (log_lh s) (view d s (log_start s))"] obtain s2 s3 where
    w: "bwrite i (set_data i (enc_head (log_lh s) (view d s (log_start s))) s1) = Ok s2" "brelse i s2 = Ok s3"
      "bio_inv d s3" "bframe s s3"
      "babs d s3 = (let h = enc_head (log_lh s) (view d s (log_start s)) in
      (babs d s)\<lparr>c_view := (view d s)(log_start s := h), c_disk := (disk s)(log_start s := h),
        c_trace := dtrace s @ [(log_start s, h)]\<rparr>)" by (auto simp: babs_def Let_def)
  have "write_head s = Ok s3" using assms(2) r w(1,2) by (simp add: write_head_def)
  with w(3-5) show ?thesis by blast
qed

section \<open>The header block\<close>

lemma slice_splice0: "o' + n \<le> length c \<Longrightarrow> slice o' n (splice 0 c bs) = slice o' n c"
  by (simp add: slice_def splice_def)

lemma length_concat_le4 [simp]: "length (concat (map (le_bytes 4) xs)) = 4 * length xs"
  by (induction xs) auto

lemma slice_concat_le4:
  "k < length xs \<Longrightarrow> slice (4 * k) 4 (concat (map (le_bytes 4) xs)) = le_bytes 4 (xs ! k)"
proof (induction xs arbitrary: k)
  case (Cons x xs)
  show ?case
  proof (cases k)
    case 0
    then show ?thesis by (simp add: slice_def)
  next
    case (Suc j)
    then have "slice (4 * k) 4 (concat (map (le_bytes 4) (x # xs))) = slice (4 * j) 4 (concat (map (le_bytes 4) xs))"
      by (simp add: slice_def)
    with Suc Cons show ?thesis by simp
  qed
qed simp

text \<open>What \<^verbatim>\<open>read_head\<close> makes of a header block.\<close>

definition parse_head :: "byte list \<Rightarrow> nat list option" where
  "parse_head bs = (let n = sint32 (get32 0 bs) in if n > int LOGSIZE then None else Some (head_blocks (nat n) bs))"

lemma get32_enc_head:
  "k \<le> length lh \<Longrightarrow> get32 (4 * k) (enc_head lh bs) = (length lh # lh) ! k mod 2 ^ 32"
  using slice_concat_le4 [of k "length lh # lh"]
  by (simp add: get32_def enc_head_def slice_splice0 le_val_le_bytes del: concat.simps list.map)

lemma parse_enc_head:
  assumes "length lh \<le> LOGSIZE" "\<forall>b\<in>set lh. b < 2 ^ 32"
  shows "parse_head (enc_head lh bs) = Some lh"
proof -
  have n: "sint32 (get32 0 (enc_head lh bs)) = int (length lh)"
    using get32_enc_head [of 0 lh bs] assms(1) by (simp add: sint32_def)
  have "head_blocks (length lh) (enc_head lh bs) = lh"
  proof (rule nth_equalityI)
    fix i assume "i < length (head_blocks (length lh) (enc_head lh bs))"
    then have i: "i < length lh" by (simp add: head_blocks_def)
    moreover have "lh ! i < 2 ^ 32" using i assms(2) by simp
    ultimately show "head_blocks (length lh) (enc_head lh bs) ! i = lh ! i"
      using get32_enc_head [of "Suc i" lh bs] by (simp add: head_blocks_def)
  qed (simp add: head_blocks_def)
  with n assms(1) show ?thesis by (simp add: parse_head_def)
qed

section \<open>Recovery\<close>

lemma bstate_cong:
  assumes "bufs s' = bufs s" "lru s' = lru s" "disk s' = disk s"
  shows "view d s' = view d s" "refs d s' = refs d s" "blocked d s' = blocked d s" "free_bufs s' = free_bufs s"
  using assms by (auto simp: view_def refs_def blocked_def free_bufs_def cached_def fun_eq_iff split: option.splits)

lemma bstate_upd_log [simp]:
  "view d (s\<lparr>log_lh := l\<rparr>) = view d s" "refs d (s\<lparr>log_lh := l\<rparr>) = refs d s" "blocked d (s\<lparr>log_lh := l\<rparr>) = blocked d s"
  "free_bufs (s\<lparr>log_lh := l\<rparr>) = free_bufs s" "babs d (s\<lparr>log_lh := l\<rparr>) = babs d s"
  "bio_inv d (s\<lparr>log_lh := l\<rparr>) = bio_inv d s" "quiet d n (s\<lparr>log_lh := l\<rparr>) = quiet d n s"
  using bstate_cong [of "s\<lparr>log_lh := l\<rparr>" s] by (simp_all add: babs_def bio_inv_def quiet_def myproc_def)

text \<open>\<open>owned\<close> and the release of a buffer do not depend on the log's fields.\<close>

lemma brelse_upd_lh: "brelse i s = Ok s' \<Longrightarrow> brelse i (s\<lparr>log_lh := l\<rparr>) = Ok (s'\<lparr>log_lh := l\<rparr>)"
  by (auto simp: brelse_def releasesleep_buf_def holdingsleep_buf_def Let_def upd_buf_def wakeup_def mypid_def myproc_def
      split: if_splits)

lemma read_head_spec:
  assumes "bio_inv d s" "log_dev s = d" "quiet d 1 s" "parse_head (view d s (log_start s)) = Some bs"
  shows "\<exists>s'. read_head s = Ok (s'\<lparr>log_lh := bs\<rparr>) \<and> bio_inv d s' \<and> bframe s s' \<and> babs d s' = babs d s"
proof -
  note cr = quiet_can_read [OF assms(3), of "log_start s"]
  from bc.read_release [OF assms(1) cr] obtain i s1 s2 where r: "bread d (log_start s) s = Ok (i, s1)"
    "b_data (bufs s1 ! i) = view d s (log_start s)" "brelse i s1 = Ok s2" "bio_inv d s2" "bframe s s2"
    "babs d s2 = babs d s" by (auto simp: babs_def)
  have "read_head s = Ok (s2\<lparr>log_lh := bs\<rparr>)"
    using assms(2,4) r(1,2) brelse_upd_lh [OF r(3), of bs]
    by (auto simp: read_head_def parse_head_def Let_def split: if_splits)
  with r show ?thesis by blast
qed

text \<open>The disk after recovery, from the disk before it.\<close>

definition recover_writes :: "nat \<Rightarrow> (nat \<Rightarrow> byte list) \<Rightarrow> nat list \<Rightarrow> (nat \<times> byte list) list" where
  "recover_writes st dk bs = from_log (st + 1) dk bs @ [(st, enc_head [] (dk st))]"

lemma fst_from_log [simp]: "fst ` set (from_log st vw bs) = set bs"
  by (simp add: from_log_def flip: set_map)

lemma fst_to_log [simp]: "fst ` set (to_log st vw bs) = {st..<st + length bs}"
  by (simp add: to_log_def flip: set_map)

lemma recover_spec:
  assumes "bio_inv d s" "log_dev s = d" "quiet d 2 s" "parse_head (view d s (log_start s)) = Some bs"
    "\<forall>b\<in>set bs. b \<notin> {log_start s..log_start s + length bs}"
  shows "\<exists>s'. recover_from_log s = Ok s' \<and> bio_inv d s' \<and> log_lh s' = [] \<and> bframe (s\<lparr>log_lh := []\<rparr>) s' \<and>
    refs d s' = refs d s \<and> blocked d s' = blocked d s \<and>
    (let ws = recover_writes (log_start s) (view d s) bs in
      view d s' = writes ws (view d s) \<and> disk s' = writes ws (disk s) \<and> dtrace s' = dtrace s @ ws)"
proof -
  have q1: "quiet d 1 s" using assms(3) by (simp add: quiet_def)
  from read_head_spec [OF assms(1,2) q1 assms(4)] obtain s1 where s1: "read_head s = Ok (s1\<lparr>log_lh := bs\<rparr>)"
    "bio_inv d s1" "bframe s s1" "babs d s1 = babs d s" by blast
  note lf1 = bframe_log [OF s1(3)]
  let ?s1 = "s1\<lparr>log_lh := bs\<rparr>"
  have a1: "view d s1 = view d s" "refs d s1 = refs d s" "blocked d s1 = blocked d s" "free_bufs s1 = free_bufs s"
    "disk s1 = disk s" "dtrace s1 = dtrace s" using s1(4) by (simp_all add: babs_def)
  have pre: "bio_inv d ?s1" "log_dev ?s1 = d" "quiet d (if True then 2 else 1) ?s1"
    "\<not> True \<Longrightarrow> distinct bs \<and> (\<forall>b\<in>set bs. 0 < refs d ?s1 b)"
    "\<forall>b\<in>set bs. b \<le> log_start ?s1 + 0 \<or> log_start ?s1 + 0 + length bs < b"
    using s1 lf1 a1 assms by (auto simp: quiet_def)
  from install_trans_spec [OF pre] obtain s2 f where s2: "install_trans True 0 bs ?s1 = Ok s2" "bio_inv d s2"
    "bframe ?s1 s2" "free_bufs s1 \<le> f"
    "babs d s2 = (let ws = from_log (log_start s + 1) (view d s) bs in
      (babs d s)\<lparr>c_view := writes ws (view d s), c_disk := writes ws (disk s), c_trace := dtrace s @ ws, c_free := f\<rparr>)"
    using a1 lf1 by (auto simp: Let_def babs_def)
  define ws where "ws = from_log (log_start s + 1) (view d s) bs"
  have a2: "view d s2 = writes ws (view d s)" "refs d s2 = refs d s" "blocked d s2 = blocked d s" "free_bufs s2 = f"
    "disk s2 = writes ws (disk s)" "dtrace s2 = dtrace s @ ws" using s2(5) by (simp_all add: babs_def Let_def ws_def)
  note lf2 = bframe_log [OF s2(3)]
  have st: "log_start s \<notin> set bs" using assms(5) by auto
  have h: "view d s2 (log_start s) = view d s (log_start s)"
    using st by (simp add: a2 ws_def writes_other)
  have pre2: "bio_inv d (s2\<lparr>log_lh := []\<rparr>)" "log_dev (s2\<lparr>log_lh := []\<rparr>) = d" "quiet d 1 (s2\<lparr>log_lh := []\<rparr>)"
    using s2 lf2 lf1 a2 a1 assms(2,3) by (auto simp: quiet_def)
  from write_head_spec [OF pre2] obtain s3 where s3: "write_head (s2\<lparr>log_lh := []\<rparr>) = Ok s3" "bio_inv d s3"
    "bframe (s2\<lparr>log_lh := []\<rparr>) s3"
    "babs d s3 = (let h = enc_head [] (view d s (log_start s)) in
      (babs d s2)\<lparr>c_view := (view d s2)(log_start s := h), c_disk := (disk s2)(log_start s := h),
        c_trace := dtrace s2 @ [(log_start s, h)]\<rparr>)"
    using lf2 lf1 h by (auto simp: Let_def)
  have a3: "refs d s3 = refs d s" "blocked d s3 = blocked d s"
    "view d s3 = writes (recover_writes (log_start s) (view d s) bs) (view d s)"
    "disk s3 = writes (recover_writes (log_start s) (view d s) bs) (disk s)"
    "dtrace s3 = dtrace s @ recover_writes (log_start s) (view d s) bs"
    using s3(4) a2 by (simp_all add: babs_def Let_def recover_writes_def ws_def)
  have "recover_from_log s = Ok s3"
    using s1(1) s2(1) s3(1) by (simp add: recover_from_log_def)
  moreover have "bframe (s\<lparr>log_lh := []\<rparr>) s3"
  proof -
    note lh = bframe_upd_lh [of _ _ "[]"]
    have "bframe (s\<lparr>log_lh := []\<rparr>) (s1\<lparr>log_lh := []\<rparr>)" using lh [OF s1(3)] .
    moreover have "bframe (s1\<lparr>log_lh := []\<rparr>) (s2\<lparr>log_lh := []\<rparr>)" using lh [OF s2(3)] by simp
    ultimately show ?thesis using s3(3) by (blast intro: bframe_trans)
  qed
  moreover have "log_lh s3 = []" using bframe_log(6) [OF s3(3)] by simp
  ultimately show ?thesis using s3(2) a3 by (auto simp: Let_def)
qed

section \<open>Commit\<close>

text \<open>
  The log is ready to commit: its blocks are distinct, pinned, lie outside the log's area on
  disk, and fit into it.
\<close>

definition log_ok :: "nat \<Rightarrow> 'a logst_scheme \<Rightarrow> bool" where
  "log_ok d s \<longleftrightarrow> distinct (log_lh s) \<and> length (log_lh s) \<le> LOGSIZE \<and> length (log_lh s) < log_size s \<and>
     (\<forall>b\<in>set (log_lh s). b < 2 ^ 32 \<and> 0 < refs d s b \<and> b \<notin> {log_start s..<log_start s + log_size s})"

definition commit_writes :: "nat \<Rightarrow> (nat \<Rightarrow> byte list) \<Rightarrow> nat list \<Rightarrow> (nat \<times> byte list) list" where
  "commit_writes st vw lh = to_log (st + 1) vw lh @ [(st, enc_head lh (vw st))] @
     zip lh (map vw lh) @ [(st, enc_head [] (enc_head lh (vw st)))]"

lemma writes_to_log:
  assumes "k < length bs"
  shows "writes (to_log st vw bs) m (st + k) = vw (bs ! k)"
proof (rule writes_in)
  have "map fst (to_log st vw bs) = [st..<st + length bs]" by (simp add: to_log_def)
  then show "distinct (map fst (to_log st vw bs))" by simp
  show "(st + k, vw (bs ! k)) \<in> set (to_log st vw bs)"
    using assms by (auto simp: to_log_def set_zip intro!: exI [of _ k])
qed

lemma from_log_to_log:
  assumes "\<And>k. k < length bs \<Longrightarrow> m (st + k) = vw (bs ! k)"
  shows "from_log st m bs = zip bs (map vw bs)"
  by (rule nth_equalityI) (simp_all add: from_log_def assms)

lemma writes_zip_map:
  assumes "distinct bs"
  shows "writes (zip bs (map vw bs)) m c = (if c \<in> set bs then vw c else m c)"
proof (cases "c \<in> set bs")
  case True
  then have "(c, vw c) \<in> set (zip bs (map vw bs))" by (auto simp: set_zip in_set_conv_nth)
  with True assms show ?thesis using writes_in [of "zip bs (map vw bs)" c "vw c" m] by simp
next
  case False
  then have "c \<notin> fst ` set (zip bs (map vw bs))" by (simp flip: set_map)
  with False show ?thesis by (simp add: writes_other)
qed

lemma commit_spec:
  assumes "bio_inv d s" "log_dev s = d" "quiet d 1 s" "log_ok d s" "log_lh s \<noteq> []"
  shows "\<exists>s'. commit s = Ok s' \<and> bio_inv d s' \<and> log_lh s' = [] \<and> bframe (s\<lparr>log_lh := []\<rparr>) s' \<and> quiet d 1 s' \<and>
    (\<forall>b. refs d s' b = (if b \<in> set (log_lh s) then refs d s b - 1 else refs d s b)) \<and>
    view d s' = writes (commit_writes (log_start s) (view d s) (log_lh s)) (view d s) \<and>
    disk s' = writes (commit_writes (log_start s) (view d s) (log_lh s)) (disk s) \<and>
    dtrace s' = dtrace s @ commit_writes (log_start s) (view d s) (log_lh s)"
proof -
  let ?bs = "log_lh s" and ?st = "log_start s"
  define w1 where "w1 = to_log (?st + 1) (view d s) ?bs"
  define h where "h = enc_head ?bs (view d s ?st)"
  have ok: "distinct ?bs" "\<forall>b\<in>set ?bs. 0 < refs d s b" "\<forall>b\<in>set ?bs. b < ?st \<or> ?st + length ?bs < b"
    using assms(4) by (fastforce simp: log_ok_def not_less)+
  have rng: "\<forall>b\<in>set ?bs. b \<le> ?st + 0 \<or> ?st + 0 + length ?bs < b" using ok(3) by auto
  from write_log_spec [OF assms(1-3) ok(2) rng] obtain s1 where s1: "write_log 0 ?bs s = Ok s1" "bio_inv d s1"
    "bframe s s1" "babs d s1 = (babs d s)\<lparr>c_view := writes w1 (view d s), c_disk := writes w1 (disk s),
      c_trace := dtrace s @ w1\<rparr>" by (auto simp: w1_def Let_def)
  have a1: "view d s1 = writes w1 (view d s)" "refs d s1 = refs d s" "blocked d s1 = blocked d s"
    "free_bufs s1 = free_bufs s" "disk s1 = writes w1 (disk s)" "dtrace s1 = dtrace s @ w1"
    using s1(4) by (simp_all add: babs_def)
  note lf1 = bframe_log [OF s1(3)]
  have q1: "log_dev s1 = d" "quiet d 1 s1" using assms(2,3) lf1 a1 by (simp_all add: quiet_def)
  have v1: "view d s1 ?st = view d s ?st" by (simp add: a1 w1_def writes_other)
  from write_head_spec [OF s1(2) q1] obtain s2 where s2: "write_head s1 = Ok s2" "bio_inv d s2" "bframe s1 s2"
    "babs d s2 = (babs d s1)\<lparr>c_view := (view d s1)(?st := h), c_disk := (disk s1)(?st := h),
      c_trace := dtrace s1 @ [(?st, h)]\<rparr>" using lf1 v1 by (auto simp: Let_def h_def)
  have a2: "view d s2 = (writes w1 (view d s))(?st := h)" "refs d s2 = refs d s" "blocked d s2 = blocked d s"
    "free_bufs s2 = free_bufs s" "disk s2 = (writes w1 (disk s))(?st := h)" "dtrace s2 = dtrace s @ w1 @ [(?st, h)]"
    using s2(4) a1 by (simp_all add: babs_def)
  note lf2 = bframe_log [OF s2(3)]
  have pre: "log_dev s2 = d" "quiet d (if False then 2 else 1) s2"
    "\<not> False \<Longrightarrow> distinct ?bs \<and> (\<forall>b\<in>set ?bs. 0 < refs d s2 b)"
    "\<forall>b\<in>set ?bs. b \<le> log_start s2 + 0 \<or> log_start s2 + 0 + length ?bs < b"
    using assms(2,3) lf1 lf2 a2 ok rng by (simp_all add: quiet_def)
  have fl: "from_log (?st + 1) (view d s2) ?bs = zip ?bs (map (view d s) ?bs)"
    by (rule from_log_to_log) (use writes_to_log [of _ ?bs "?st + 1" "view d s"] in \<open>simp add: a2 w1_def\<close>)
  from install_trans_spec [OF s2(2) pre] obtain s3 f where s3: "install_trans False 0 ?bs s2 = Ok s3" "bio_inv d s3"
    "bframe s2 s3" "free_bufs s2 \<le> f"
    "babs d s3 = (let ws = zip ?bs (map (view d s) ?bs) in
      (babs d s2)\<lparr>c_view := writes ws (view d s2), c_disk := writes ws (disk s2), c_trace := dtrace s2 @ ws,
        c_refs := (\<lambda>b. if b \<in> set ?bs then refs d s2 b - 1 else refs d s2 b), c_free := f\<rparr>)"
    using lf1 lf2 fl by (auto simp: Let_def)
  have a3: "view d s3 = writes (w1 @ (?st, h) # zip ?bs (map (view d s) ?bs)) (view d s)"
    "refs d s3 = (\<lambda>b. if b \<in> set ?bs then refs d s b - 1 else refs d s b)" "blocked d s3 = blocked d s"
    "free_bufs s3 = f" "disk s3 = writes (w1 @ (?st, h) # zip ?bs (map (view d s) ?bs)) (disk s)"
    "dtrace s3 = dtrace s @ w1 @ (?st, h) # zip ?bs (map (view d s) ?bs)"
    using s3(5) a2 by (simp_all add: babs_def Let_def cong: if_cong)
  note lf3 = bframe_log [OF s3(3)]
  have st: "?st \<notin> set ?bs" using ok(3) by auto
  then have v3: "view d s3 ?st = h" by (simp add: a3 writes_other flip: set_map)
  have pre3: "bio_inv d (s3\<lparr>log_lh := []\<rparr>)" "log_dev (s3\<lparr>log_lh := []\<rparr>) = d" "quiet d 1 (s3\<lparr>log_lh := []\<rparr>)"
    using s3 lf3 lf2 lf1 a3 a2 assms(2,3) by (auto simp: quiet_def)
  from write_head_spec [OF pre3] obtain s4 where s4: "write_head (s3\<lparr>log_lh := []\<rparr>) = Ok s4" "bio_inv d s4"
    "bframe (s3\<lparr>log_lh := []\<rparr>) s4"
    "babs d s4 = (babs d s3)\<lparr>c_view := (view d s3)(?st := enc_head [] h), c_disk := (disk s3)(?st := enc_head [] h),
        c_trace := dtrace s3 @ [(?st, enc_head [] h)]\<rparr>"
    using lf3 lf2 lf1 v3 by (auto simp: Let_def)
  have a4: "refs d s4 = (\<lambda>b. if b \<in> set ?bs then refs d s b - 1 else refs d s b)" "quiet d 1 s4"
    "view d s4 = writes (commit_writes ?st (view d s) ?bs) (view d s)"
    "disk s4 = writes (commit_writes ?st (view d s) ?bs) (disk s)"
    "dtrace s4 = dtrace s @ commit_writes ?st (view d s) ?bs"
    using s4(4) a3 a2 s3(4) assms(3) by (simp_all add: babs_def quiet_def commit_writes_def w1_def h_def)
  have "commit s = Ok s4"
    using assms(5) s1(1) s2(1) s3(1) s4(1) lf1 lf2 by (simp add: commit_def)
  moreover have "bframe (s\<lparr>log_lh := []\<rparr>) s4"
  proof -
    note lh = bframe_upd_lh [of _ _ "[]"]
    show ?thesis using lh [OF s1(3)] lh [OF s2(3)] lh [OF s3(3)] s4(3) by (blast intro: bframe_trans)
  qed
  moreover have "log_lh s4 = []" using bframe_log(6) [OF s4(3)] by simp
  ultimately show ?thesis using s4(2) a4 by auto
qed

text \<open>The pins keep the logged blocks apart from the log and the header; a reader sees no change.\<close>

lemma commit_writes_view:
  assumes "distinct lh" "\<forall>b\<in>set lh. b < st \<or> st + length lh < b" "c < st \<or> st + length lh < c"
  shows "writes (commit_writes st vw lh) m c = (if c \<in> set lh then vw c else m c)"
proof -
  have "c \<noteq> st" "writes (to_log (st + 1) vw lh) m c = m c"
    using assms(3) by (auto simp: writes_other)
  then show ?thesis using assms(1) by (simp add: commit_writes_def writes_zip_map)
qed

section \<open>Crash safety\<close>

text \<open>The machine after a reset: zeroed buffers, and a disk that holds what was written before.\<close>

definition booted :: "nat \<Rightarrow> (nat \<Rightarrow> byte list) \<Rightarrow> 'a bstate_scheme \<Rightarrow> bool" where
  "booted d dk s \<longleftrightarrow> bufs s = replicate 30 buf0 \<and> d \<noteq> 0 \<and> disk s = dk \<and>
     (\<exists>p. myproc s = Some p \<and> p < length (procs s))"

lemma bio_inv_cong:
  assumes "bufs s' = bufs s" "lru s' = lru s" "disk s' = disk s" "procs s' = procs s" "myproc s' = myproc s"
  shows "bio_inv d s' = bio_inv d s"
  using assms by (simp add: bio_inv_def)

lemma initlog_spec:
  assumes "booted d dk s" "parse_head (dk st) = Some bs" "\<forall>b\<in>set bs. b \<notin> {st..st + length bs}"
  shows "\<exists>s'. initlog d st n (binit s) = Ok s' \<and> bio_inv d s' \<and> log_lh s' = [] \<and> view d s' = disk s' \<and>
    log_dev s' = d \<and> log_start s' = st \<and> log_size s' = n \<and> (\<forall>b. refs d s' b = 0) \<and> (\<forall>b. \<not> blocked d s' b) \<and>
    disk s' = writes (recover_writes st dk bs) dk"
proof -
  from assms(1) obtain p where b: "bufs s = replicate 30 buf0" "d \<noteq> 0" "myproc s = Some p" "p < length (procs s)" "disk s = dk"
    by (auto simp: booted_def)
  let ?s = "(binit s)\<lparr>log_start := st, log_size := n, log_dev := d\<rparr>"
  have inv: "bio_inv d ?s" using binit_ok(1) [OF b(1-4)] bio_inv_cong [of ?s "binit s" d] by (simp add: myproc_def)
  have "babs d (binit s) = \<lparr>c_view = dk, c_refs = (\<lambda>_. 0), c_lock = (\<lambda>_. False), c_free = 30, c_disk = dk,
      c_trace = dtrace s\<rparr>" using binit_ok(2) [OF b(1-4)] b(5) by simp
  then have a: "view d ?s = dk" "refs d ?s = (\<lambda>_. 0)" "blocked d ?s = (\<lambda>_. False)" "free_bufs ?s = 30" "disk ?s = dk"
    using bstate_cong [of ?s "binit s"] by (simp_all add: babs_def)
  have "log_dev ?s = d" "quiet d 2 ?s" "parse_head (view d ?s (log_start ?s)) = Some bs"
    "\<forall>b\<in>set bs. b \<notin> {log_start ?s..log_start ?s + length bs}"
    using a assms(2,3) by (simp_all add: quiet_def)
  from recover_spec [OF inv this] obtain s' where s': "recover_from_log ?s = Ok s'" "bio_inv d s'" "log_lh s' = []"
    "bframe (?s\<lparr>log_lh := []\<rparr>) s'" "refs d s' = (\<lambda>_. 0)" "blocked d s' = (\<lambda>_. False)"
    "view d s' = writes (recover_writes st dk bs) dk" "disk s' = writes (recover_writes st dk bs) dk"
    using a by (auto simp: Let_def)
  have "initlog d st n (binit s) = Ok s'" using s'(1) by (simp add: initlog_def)
  with s' bframe_log [OF s'(4)] show ?thesis by auto
qed

text \<open>Every prefix of the writes of a commit recovers to the old or to the new contents.\<close>

lemma crash_cases:
  assumes ok: "distinct lh" "length lh \<le> LOGSIZE" "\<forall>b\<in>set lh. b < 2 ^ 32" "\<forall>b\<in>set lh. b < st \<or> st + length lh < b"
    and clean: "parse_head (m st) = Some []"
    and ws: "commit_writes st vw lh = ws @ rest"
  shows "\<exists>bs. parse_head (writes ws m st) = Some bs \<and> (\<forall>b\<in>set bs. b \<notin> {st..st + length bs}) \<and>
    ((\<forall>c. c < st \<or> st + length lh < c \<longrightarrow> writes (recover_writes st (writes ws m) bs) (writes ws m) c = m c) \<or>
     (\<forall>c. c < st \<or> st + length lh < c \<longrightarrow>
        writes (recover_writes st (writes ws m) bs) (writes ws m) c = (if c \<in> set lh then vw c else m c)))"
proof -
  define w1 where "w1 = to_log (st + 1) vw lh"
  define h where "h = enc_head lh (vw st)"
  define w3 where "w3 = zip lh (map vw lh)"
  have st: "st \<notin> set lh" using ok(4) by auto
  have tr: "ws @ rest = w1 @ (st, h) # w3 @ [(st, enc_head [] h)]"
    using ws by (simp add: commit_writes_def w1_def h_def w3_def)
  have f3: "fst ` set w3 = set lh" by (simp add: w3_def flip: set_map)
  have f1: "fst ` set w1 = {st + 1..<st + 1 + length lh}" by (simp add: w1_def)
  from tr consider (A) us where "ws @ us = w1"
    | (B) ws2 us where "ws = w1 @ (st, h) # ws2" "ws2 @ us = w3"
    | (C) "ws = w1 @ (st, h) # w3 @ [(st, enc_head [] h)]"
    by (auto simp: append_eq_append_conv2 Cons_eq_append_conv append_eq_Cons_conv)
  then show ?thesis
  proof cases
    case A
    then have sub: "fst ` set ws \<subseteq> {st + 1..<st + 1 + length lh}" unfolding f1 [symmetric] by auto
    then have "writes ws m st = m st" by (intro writes_other) auto
    moreover have "writes ws m c = m c" if "c < st \<or> st + length lh < c" for c
      using sub that by (intro writes_other) auto
    ultimately show ?thesis using clean by (auto simp: recover_writes_def)
  next
    case B
    have f2: "fst ` set ws2 \<subseteq> set lh" unfolding f3 [symmetric] B(2) [symmetric] by auto
    have other: "writes ws m c = ((writes w1 m)(st := h)) c" if "c \<notin> set lh" for c
    proof -
      have "c \<notin> fst ` set ws2" using f2 that by blast
      then show ?thesis by (simp add: B(1) writes_other)
    qed
    have p: "parse_head (writes ws m st) = Some lh"
      using other [of st] st parse_enc_head [OF ok(2,3)] by (simp add: h_def)
    have fl: "from_log (st + 1) (writes ws m) lh = w3"
      unfolding w3_def
    proof (rule from_log_to_log)
      fix k assume k: "k < length lh"
      then have "st + 1 + k \<notin> set lh" using ok(4) by auto
      with k show "writes ws m (st + 1 + k) = vw (lh ! k)"
        using other [of "st + 1 + k"] writes_to_log [of k lh "st + 1" vw m] by (simp add: w1_def)
    qed
    have "writes (recover_writes st (writes ws m) lh) (writes ws m) c = (if c \<in> set lh then vw c else m c)"
      if "c < st \<or> st + length lh < c" for c
    proof -
      have "writes w1 m c = m c" using that f1 by (intro writes_other) auto
      then show ?thesis using that other [of c] ok(1)
        unfolding recover_writes_def fl by (auto simp: w3_def writes_zip_map)
    qed
    moreover have "\<forall>b\<in>set lh. b \<notin> {st..st + length lh}" using ok(4) by auto
    ultimately show ?thesis using p by blast
  next
    case C
    have "writes ws m st = enc_head [] h" by (simp add: C)
    moreover have "writes ws m c = (if c \<in> set lh then vw c else m c)" if "c < st \<or> st + length lh < c" for c
    proof -
      have "writes w1 m c = m c" using that f1 by (intro writes_other) auto
      then show ?thesis using that ok(1) by (auto simp: C w3_def writes_zip_map)
    qed
    ultimately show ?thesis using parse_enc_head [of "[]" h] by (auto simp: recover_writes_def)
  qed
qed

text \<open>Booting from the disk that a crash within the writes of a commit leaves.\<close>

lemma crash_recovers:
  fixes s :: "'a logst_scheme" and boot :: "'b logst_scheme"
  assumes "log_ok d s" "parse_head (disk s (log_start s)) = Some []"
    and "\<forall>c. c \<notin> set (log_lh s) \<longrightarrow> c \<notin> {log_start s..<log_start s + log_size s} \<longrightarrow> view d s c = disk s c"
    and "commit_writes (log_start s) (view d s) (log_lh s) = ws @ rest" "booted d (writes ws (disk s)) boot"
  shows "\<exists>r. initlog d (log_start s) (log_size s) (binit boot) = Ok r \<and> view d r = disk r \<and>
    ((\<forall>c. c \<notin> {log_start s..<log_start s + log_size s} \<longrightarrow> disk r c = disk s c) \<or>
     (\<forall>c. c \<notin> {log_start s..<log_start s + log_size s} \<longrightarrow> disk r c = view d s c))"
proof -
  let ?lh = "log_lh s" and ?st = "log_start s"
  let ?new = "\<lambda>bs. writes (recover_writes ?st (writes ws (disk s)) bs) (writes ws (disk s))"
  have ok: "distinct ?lh" "length ?lh \<le> LOGSIZE" "\<forall>b\<in>set ?lh. b < 2 ^ 32" "\<forall>b\<in>set ?lh. b < ?st \<or> ?st + length ?lh < b"
    "length ?lh < log_size s"
    using assms(1) by (fastforce simp: log_ok_def not_less)+
  from crash_cases [where m = "disk s", OF ok(1-4) assms(2,4)] obtain bs where bs: "parse_head (writes ws (disk s) ?st) = Some bs"
    "\<forall>b\<in>set bs. b \<notin> {?st..?st + length bs}"
    and cs: "(\<forall>c. c < ?st \<or> ?st + length ?lh < c \<longrightarrow> ?new bs c = disk s c) \<or>
      (\<forall>c. c < ?st \<or> ?st + length ?lh < c \<longrightarrow> ?new bs c = (if c \<in> set ?lh then view d s c else disk s c))" by blast
  from initlog_spec [OF assms(5) bs, of "log_size s"] obtain r where
    r: "initlog d ?st (log_size s) (binit boot) = Ok r" "view d r = disk r" "disk r = ?new bs" by blast
  have out: "c < ?st \<or> ?st + length ?lh < c" if "c \<notin> {?st..<?st + log_size s}" for c
    using that ok(5) by auto
  from cs show ?thesis
  proof
    assume "\<forall>c. c < ?st \<or> ?st + length ?lh < c \<longrightarrow> ?new bs c = disk s c"
    with out r show ?thesis by auto
  next
    assume new: "\<forall>c. c < ?st \<or> ?st + length ?lh < c \<longrightarrow> ?new bs c = (if c \<in> set ?lh then view d s c else disk s c)"
    have "disk r c = view d s c" if "c \<notin> {?st..<?st + log_size s}" for c
      using new out [OF that] assms(3) that r(3) by auto
    with r(1,2) show ?thesis by blast
  qed
qed

section \<open>Properties\<close>

text \<open>
  C6. Crash safety of \<^verbatim>\<open>commit\<close>. When a transaction is complete (its blocks are
  pinned in unlocked buffers, every other home block is as on disk, and the log on disk is empty),
  \<^verbatim>\<open>commit\<close> succeeds, and if the machine stops after any number of its disk writes,
  then \<^verbatim>\<open>initlog\<close> at the next boot succeeds and leaves on disk, outside the log,
  either the contents from before the transaction or those from after it.
\<close>

theorem commit_crash_safe:
  fixes s :: "'a logst_scheme"
  assumes "bio_inv d s" "log_dev s = d" "quiet d 1 s" "log_ok d s" "log_lh s \<noteq> []"
    and "parse_head (disk s (log_start s)) = Some []"
    and "\<forall>c. c \<notin> set (log_lh s) \<longrightarrow> c \<notin> {log_start s..<log_start s + log_size s} \<longrightarrow> view d s c = disk s c"
  shows "\<exists>s' tr. commit s = Ok s' \<and> dtrace s' = dtrace s @ tr \<and> disk s' = writes tr (disk s) \<and>
    (\<forall>ws rest (boot :: 'b logst_scheme). tr = ws @ rest \<longrightarrow> booted d (writes ws (disk s)) boot \<longrightarrow>
      (\<exists>r. initlog d (log_start s) (log_size s) (binit boot) = Ok r \<and> view d r = disk r \<and>
        ((\<forall>c. c \<notin> {log_start s..<log_start s + log_size s} \<longrightarrow> disk r c = disk s c) \<or>
         (\<forall>c. c \<notin> {log_start s..<log_start s + log_size s} \<longrightarrow> disk r c = view d s c))))"
proof -
  from commit_spec [OF assms(1-5)] obtain s' where "commit s = Ok s'" "dtrace s' = dtrace s @ commit_writes (log_start s) (view d s) (log_lh s)"
    "disk s' = writes (commit_writes (log_start s) (view d s) (log_lh s)) (disk s)" by blast
  then show ?thesis using crash_recovers [OF assms(4,6,7)] by blast
qed

text \<open>A transaction of one block, 40, in a log at blocks 2 to 31.\<close>

definition demo_log :: "buf list \<Rightarrow> nat list \<Rightarrow> nat list \<Rightarrow> logst" where
  "demo_log bs l lh = \<lparr>mem = (\<lambda>_. 0), freelist = 0, kend = 0, procs = [proc0], cpus = [Some 0], hart = 0, initproc = None,
     nextpid = 2, trampoline = 0, forkret = 0, disk = (\<lambda>_. replicate 1024 0), dtrace = [], bufs = bs, lru = l,
     log_start = 2, log_size = 30, log_outstanding = 0, log_committing = True, log_dev = 1, log_lh = lh\<rparr>"

definition demo_tx :: logst where
  "demo_tx = demo_log (buf0\<lparr>b_valid := True, b_dev := 1, b_blockno := 40, b_refcnt := 1, b_data := replicate 1024 7\<rparr> #
     replicate 29 buf0) [0..<30] [40]"

lemma demo_tx_is_buf: "is_buf 1 demo_tx i b \<longleftrightarrow> i = 0 \<and> b = 40"
  by (auto simp: is_buf_def demo_tx_def demo_log_def buf0_def nth_Cons' split: if_splits)

lemma demo_tx_inv: "bio_inv 1 demo_tx"
  by (auto simp: bio_inv_def demo_tx_def demo_log_def myproc_def buf0_def nth_Cons' split: if_splits)

lemma demo_tx_abs:
  "view 1 demo_tx c = (if c = 40 then replicate 1024 7 else replicate 1024 0)"
  "refs 1 demo_tx c = (if c = 40 then 1 else 0)" "\<not> blocked 1 demo_tx c"
proof -
  have "view 1 demo_tx c = (if c = 40 then replicate 1024 7 else replicate 1024 0) \<and>
    refs 1 demo_tx c = (if c = 40 then 1 else 0) \<and> \<not> blocked 1 demo_tx c"
  proof (cases "c = 40")
    case True
    have b: "is_buf 1 demo_tx 0 40" using demo_tx_is_buf by blast
    show ?thesis
      using True view_buf [OF demo_tx_inv b] refs_buf [OF demo_tx_inv b] blocked_buf [OF demo_tx_inv b]
      by (simp add: demo_tx_def demo_log_def buf0_def)
  next
    case False
    then have n: "\<not> is_buf 1 demo_tx i c" for i using demo_tx_is_buf by blast
    show ?thesis using False no_buf [OF demo_tx_inv n] by (simp add: demo_tx_def demo_log_def)
  qed
  then show "view 1 demo_tx c = (if c = 40 then replicate 1024 7 else replicate 1024 0)"
    "refs 1 demo_tx c = (if c = 40 then 1 else 0)" "\<not> blocked 1 demo_tx c" by blast+
qed

lemma le_val_replicate_0: "le_val (replicate n 0) = 0"
  by (induction n) auto

theorem commit_crash_safe_witness:
  "\<exists>s' r. commit demo_tx = Ok s' \<and> initlog 1 2 30 (binit (demo_log (replicate 30 buf0) [] [])) = Ok r \<and> view 1 r = disk r"
proof -
  have f: "log_dev demo_tx = 1" "log_lh demo_tx = [40]" "log_start demo_tx = 2" "log_size demo_tx = 30"
    "disk demo_tx = (\<lambda>_. replicate 1024 0)" "free_bufs demo_tx = 29"
    by (simp_all add: demo_tx_def demo_log_def free_bufs_def buf0_def)
  have pre: "log_dev demo_tx = 1" "quiet 1 1 demo_tx" "log_ok 1 demo_tx" "log_lh demo_tx \<noteq> []"
    "parse_head (disk demo_tx (log_start demo_tx)) = Some []"
    "\<forall>c. c \<notin> set (log_lh demo_tx) \<longrightarrow> c \<notin> {log_start demo_tx..<log_start demo_tx + log_size demo_tx} \<longrightarrow>
       view 1 demo_tx c = disk demo_tx c"
    unfolding quiet_def log_ok_def f
    by (simp_all add: demo_tx_abs del: One_nat_def)
      (simp add: parse_head_def get32_def sint32_def slice_def head_blocks_def le_val_replicate_0)
  have b: "booted 1 (writes [] (disk demo_tx)) (demo_log (replicate 30 buf0) [] [])"
    by (simp add: booted_def demo_log_def demo_tx_def myproc_def)
  from commit_crash_safe [OF demo_tx_inv pre] obtain s' tr where s': "commit demo_tx = Ok s'"
    and cr: "\<forall>ws rest (boot :: logst). tr = ws @ rest \<longrightarrow> booted 1 (writes ws (disk demo_tx)) boot \<longrightarrow>
      (\<exists>r. initlog 1 (log_start demo_tx) (log_size demo_tx) (binit boot) = Ok r \<and> view 1 r = disk r \<and>
        ((\<forall>c. c \<notin> {log_start demo_tx..<log_start demo_tx + log_size demo_tx} \<longrightarrow> disk r c = disk demo_tx c) \<or>
         (\<forall>c. c \<notin> {log_start demo_tx..<log_start demo_tx + log_size demo_tx} \<longrightarrow> disk r c = view 1 demo_tx c)))"
    by blast
  from cr b have "\<exists>r. initlog 1 (log_start demo_tx) (log_size demo_tx) (binit (demo_log (replicate 30 buf0) [] [])) = Ok r \<and>
      view 1 r = disk r" by (metis append_Nil)
  with s' show ?thesis by (auto simp: demo_tx_def demo_log_def)
qed

section \<open>Admission of operations\<close>

lemma install_trans_frame: "install_trans rcv t bs s = Ok s' \<Longrightarrow> bframe s s'"
proof (induction bs arbitrary: t s)
  case (Cons b bs)
  from Cons.prems obtain i s1 j s2 s3 s4 s5 where r: "bread (log_dev s) (log_start s + t + 1) s = Ok (i, s1)"
    "bread (log_dev s) b s1 = Ok (j, s2)" "bwrite j (set_data j (b_data (bufs s2 ! i)) s2) = Ok s3"
    "brelse i (if rcv then s3 else bunpin j s3) = Ok s4" "brelse j s4 = Ok s5" "install_trans rcv (t + 1) bs s5 = Ok s'"
    by (auto simp: Let_def)
  have "bframe s3 (if rcv then s3 else bunpin j s3)" by (simp add: pin_frame)
  then show ?case
    by (rule bframe_trans [OF bread_frame [OF r(1)] bframe_trans [OF bread_frame [OF r(2)]
        bframe_trans [OF pin_frame(3) bframe_trans [OF bwrite_frame [OF r(3)] bframe_trans
        [OF _ bframe_trans [OF brelse_frame [OF r(4)] bframe_trans [OF brelse_frame [OF r(5)] Cons.IH [OF r(6)]]]]]]]])
qed simp

lemma write_log_frame: "write_log t bs s = Ok s' \<Longrightarrow> bframe s s'"
proof (induction bs arbitrary: t s)
  case (Cons b bs)
  from Cons.prems obtain i s1 j s2 s3 s4 s5 where r: "bread (log_dev s) (log_start s + t + 1) s = Ok (i, s1)"
    "bread (log_dev s) b s1 = Ok (j, s2)" "bwrite i (set_data i (b_data (bufs s2 ! j)) s2) = Ok s3"
    "brelse j s3 = Ok s4" "brelse i s4 = Ok s5" "write_log (t + 1) bs s5 = Ok s'"
    by auto
  show ?case
    by (rule bframe_trans [OF bread_frame [OF r(1)] bframe_trans [OF bread_frame [OF r(2)]
        bframe_trans [OF pin_frame(3) bframe_trans [OF bwrite_frame [OF r(3)]
        bframe_trans [OF brelse_frame [OF r(4)] bframe_trans [OF brelse_frame [OF r(5)] Cons.IH [OF r(6)]]]]]]])
qed simp

lemma write_head_frame: "write_head s = Ok s' \<Longrightarrow> bframe s s'"
  unfolding write_head_def
  by (auto dest!: bread_frame bwrite_frame brelse_frame intro: bframe_trans bframe_trans [OF bframe_trans [OF _ pin_frame(3)]])

text \<open>A commit empties the log and changes none of its other fields.\<close>

lemma commit_log:
  assumes "commit s = Ok s'"
  shows "log_lh s' = []" "log_outstanding s' = log_outstanding s" "log_committing s' = log_committing s"
    "log_size s' = log_size s"
proof -
  have "log_lh s' = [] \<and> log_outstanding s' = log_outstanding s \<and> log_committing s' = log_committing s \<and>
    log_size s' = log_size s"
  proof (cases "log_lh s = []")
    case False
    with assms obtain s1 s2 s3 where r: "write_log 0 (log_lh s) s = Ok s1" "write_head s1 = Ok s2"
      "install_trans False 0 (log_lh s2) s2 = Ok s3" "write_head (s3\<lparr>log_lh := []\<rparr>) = Ok s'"
      by (auto simp: commit_def)
    show ?thesis
      using bframe_log [OF write_log_frame [OF r(1)]] bframe_log [OF write_head_frame [OF r(2)]]
        bframe_log [OF install_trans_frame [OF r(3)]] bframe_log [OF write_head_frame [OF r(4)]] by simp
  qed (use assms in \<open>simp add: commit_def\<close>)
  then show "log_lh s' = []" "log_outstanding s' = log_outstanding s" "log_committing s' = log_committing s"
    "log_size s' = log_size s" by blast+
qed

text \<open>
  Runs of the log: \<open>bud\<close> holds, for every operation between its \<^verbatim>\<open>begin_op\<close> and
  \<^verbatim>\<open>end_op\<close>, how many further blocks it may log. All other kernel activity leaves the
  log's fields alone.
\<close>

inductive log_reach :: "'a logst_scheme \<Rightarrow> nat list \<Rightarrow> bool" where
  init: "log_lh s = [] \<Longrightarrow> log_outstanding s = 0 \<Longrightarrow> \<not> log_committing s \<Longrightarrow> log_reach s []"
| begins: "log_reach s bud \<Longrightarrow> begin_op s = Ok s' \<Longrightarrow> log_reach s' (MAXOPBLOCKS # bud)"
| logs: "log_reach s bud \<Longrightarrow> i < length bud \<Longrightarrow> 0 < bud ! i \<Longrightarrow> log_write b s = Ok s' \<Longrightarrow>
    log_reach s' (bud[i := bud ! i - 1])"
| absorbs: "log_reach s bud \<Longrightarrow> b_blockno (bufs s ! b) \<in> set (log_lh s) \<Longrightarrow> log_write b s = Ok s' \<Longrightarrow> log_reach s' bud"
| ends: "log_reach s bud \<Longrightarrow> i < length bud \<Longrightarrow> end_op s = Ok s' \<Longrightarrow> log_reach s' (take i bud @ drop (Suc i) bud)"
| other: "log_reach s bud \<Longrightarrow> log_lh s' = log_lh s \<Longrightarrow> log_outstanding s' = log_outstanding s \<Longrightarrow>
    log_committing s' = log_committing s \<Longrightarrow> log_size s' = log_size s \<Longrightarrow> log_reach s' bud"

lemma sum_list_le: "(\<forall>x\<in>set xs. x \<le> k) \<Longrightarrow> sum_list xs \<le> k * length (xs :: nat list)"
  by (induction xs) auto

lemma end_op_log:
  assumes "end_op s = Ok s'"
  shows "log_lh s' = (if log_outstanding s = 1 then [] else log_lh s)" "log_outstanding s' = log_outstanding s - 1"
    "\<not> log_committing s'" "log_size s' = log_size s"
proof -
  have w: "log_lh (wakeup c t) = log_lh t" "log_outstanding (wakeup c t) = log_outstanding t"
    "log_committing (wakeup c t) = log_committing t" "log_size (wakeup c t) = log_size t" for c and t :: "'a logst_scheme"
    using bframe_log [OF bframe_wakeup [of t c]] by auto
  show "log_lh s' = (if log_outstanding s = 1 then [] else log_lh s)" "log_outstanding s' = log_outstanding s - 1"
    "\<not> log_committing s'" "log_size s' = log_size s"
    using assms by (auto simp: end_op_def Let_def w split: if_splits dest: commit_log)
qed

lemma log_write_log:
  assumes "log_write b s = Ok s'"
  shows "log_lh s' = (if b_blockno (bufs s ! b) \<in> set (log_lh s) then log_lh s else log_lh s @ [b_blockno (bufs s ! b)])"
    "log_outstanding s' = log_outstanding s" "log_committing s' = log_committing s" "log_size s' = log_size s"
  using assms by (auto simp: log_write_def Let_def bpin_def upd_buf_def split: if_splits)

lemma log_reach_inv:
  "log_reach s bud \<Longrightarrow> length (log_lh s) + sum_list bud \<le> LOGSIZE \<and> log_outstanding s = int (length bud) \<and>
     (\<forall>x\<in>set bud. x \<le> MAXOPBLOCKS) \<and> \<not> log_committing s"
proof (induction rule: log_reach.induct)
  case (begins s bud s')
  then have "sum_list bud \<le> 10 * length bud" using sum_list_le [of bud 10] by blast
  with begins show ?case by (auto simp: begin_op_def split: if_splits)
next
  case (logs s bud i b s')
  have "sum_list (bud[i := bud ! i - 1]) + 1 = sum_list bud"
    using logs(2,3) sum_list_update [of i bud "bud ! i - 1"] member_le_sum_list [of "bud ! i" bud] by simp
  moreover have "\<forall>x\<in>set (bud[i := bud ! i - 1]). x \<le> MAXOPBLOCKS"
  proof
    fix x assume "x \<in> set (bud[i := bud ! i - 1])"
    then have "x = bud ! i - 1 \<or> x \<in> set bud" using set_update_subset_insert by fastforce
    then show "x \<le> MAXOPBLOCKS" using logs(2,5) nth_mem [of i bud] by fastforce
  qed
  ultimately show ?case using log_write_log [OF logs(4)] logs(5) by auto
next
  case (absorbs s bud b s')
  then show ?case using log_write_log [OF absorbs(3)] by auto
next
  case (ends s bud i s')
  have b: "bud = take i bud @ bud ! i # drop (Suc i) bud" using ends(2) by (simp add: id_take_nth_drop)
  have "sum_list bud = sum_list (take i bud) + bud ! i + sum_list (drop (Suc i) bud)"
    by (subst b) simp
  moreover have "set (take i bud @ drop (Suc i) bud) \<subseteq> set bud"
    using set_take_subset set_drop_subset by fastforce
  ultimately show ?case using end_op_log [OF ends(3)] ends(2,4) by (auto split: if_splits)
qed auto

text \<open>
  C21. \<^verbatim>\<open>begin_op\<close> reserves enough log space: in every run in which each operation logs
  at most \<^verbatim>\<open>MAXOPBLOCKS\<close> new blocks, the logged blocks and the blocks still reserved never
  exceed \<^verbatim>\<open>LOGSIZE\<close>, and an operation that has reserved blocks left can log one without a
  panic if the log on disk has more than \<^verbatim>\<open>LOGSIZE\<close> blocks.
\<close>

theorem begin_op_reserves:
  assumes "log_reach s bud"
  shows "length (log_lh s) + sum_list bud \<le> LOGSIZE \<and>
    (LOGSIZE < log_size s \<longrightarrow> (\<forall>i<length bud. 0 < bud ! i \<longrightarrow> is_Ok (log_write b s)))"
proof (intro conjI impI allI)
  note inv = log_reach_inv [OF assms]
  then show "length (log_lh s) + sum_list bud \<le> LOGSIZE" by blast
  fix i assume i: "LOGSIZE < log_size s" "i < length bud" "0 < bud ! i"
  then have "0 < sum_list bud" using member_le_sum_list [of "bud ! i" bud] by simp
  moreover have "\<not> log_outstanding s < 1" using inv i(2) by (cases bud) auto
  ultimately show "is_Ok (log_write b s)" using inv i(1) by (simp add: log_write_def Let_def)
qed

text \<open>Logging the first \<open>n\<close> buffers, which hold distinct blocks.\<close>

lemma log_first_bufs:
  assumes "log_lh s = []" "1 \<le> log_outstanding s" "log_size s = LOGSIZE" "inj_on (\<lambda>i. b_blockno (bufs s ! i)) {..<30}"
    "length (bufs s) = 30" "n \<le> 29"
  shows "\<exists>s'. foldl (\<lambda>r b. rbind r (log_write b)) (Ok s) [0..<n] = Ok s' \<and>
    log_lh s' = map (\<lambda>i. b_blockno (bufs s ! i)) [0..<n] \<and> log_outstanding s' = log_outstanding s \<and>
    log_size s' = LOGSIZE \<and> (\<forall>i<30. b_blockno (bufs s' ! i) = b_blockno (bufs s ! i)) \<and> length (bufs s') = 30"
  using assms(6)
proof (induction n)
  case 0
  then show ?case using assms by simp
next
  case (Suc n)
  then obtain s' where s': "foldl (\<lambda>r b. rbind r (log_write b)) (Ok s) [0..<n] = Ok s'"
    "log_lh s' = map (\<lambda>i. b_blockno (bufs s ! i)) [0..<n]" "log_outstanding s' = log_outstanding s"
    "log_size s' = LOGSIZE" "\<forall>i<30. b_blockno (bufs s' ! i) = b_blockno (bufs s ! i)" "length (bufs s') = 30" by auto
  have "b_blockno (bufs s' ! n) \<notin> set (log_lh s')"
    using s'(2,5) Suc.prems inj_onD [OF assms(4), of n] by fastforce
  then have "log_write n s' = Ok (bpin n (s'\<lparr>log_lh := log_lh s' @ [b_blockno (bufs s' ! n)]\<rparr>))"
    using s' Suc.prems assms(2) by (simp add: log_write_def Let_def)
  then show ?case using s' Suc.prems by (auto simp: bpin_def upd_buf_def nth_list_update)
qed

text \<open>
  C22. The reservation is one block too generous for the file system that \<^verbatim>\<open>mkfs\<close> builds, whose
  log has \<^verbatim>\<open>LOGSIZE\<close> blocks with one taken by the header: three operations are admitted to an
  empty log, and when together they log 30 different blocks, 10 each, the last
  \<^verbatim>\<open>log_write\<close> panics.
\<close>

theorem log_one_block_short:
  assumes "log_lh s = []" "log_outstanding s = 0" "\<not> log_committing s" "log_size s = LOGSIZE"
    "inj_on (\<lambda>i. b_blockno (bufs s ! i)) {..<30}" "length (bufs s) = 30"
  shows "\<exists>s1 s2 s3. begin_op s = Ok s1 \<and> begin_op s1 = Ok s2 \<and> begin_op s2 = Ok s3 \<and>
    is_Ok (foldl (\<lambda>r b. rbind r (log_write b)) (Ok s3) [0..<29]) \<and>
    foldl (\<lambda>r b. rbind r (log_write b)) (Ok s3) [0..<30] = Panic ''too big a transaction''"
proof -
  let ?o = "\<lambda>n. s\<lparr>log_outstanding := n\<rparr>"
  have b: "begin_op s = Ok (?o 1)" "begin_op (?o 1) = Ok (?o 2)" "begin_op (?o 2) = Ok (?o 3)"
    using assms by (simp_all add: begin_op_def)
  from log_first_bufs [of "?o 3" 29] assms obtain s' where
    s': "foldl (\<lambda>r b. rbind r (log_write b)) (Ok (?o 3)) [0..<29] = Ok s'"
      "log_lh s' = map (\<lambda>i. b_blockno (bufs s ! i)) [0..<29]" "log_size s' = LOGSIZE" by auto
  have "log_write 29 s' = Panic ''too big a transaction''" using s'(2,3) by (simp add: log_write_def Let_def)
  moreover have "[0..<30] = [0..<29] @ [29 :: nat]" using upt_Suc_append [of 0 29] by simp
  ultimately have "foldl (\<lambda>r b. rbind r (log_write b)) (Ok (?o 3)) [0..<30] = Panic ''too big a transaction''"
    using s'(1) by simp
  with b s'(1) show ?thesis by fastforce
qed

definition demo_full :: logst where
  "demo_full = (demo_log (map (\<lambda>i. buf0\<lparr>b_dev := 1, b_blockno := 100 + i\<rparr>) [0..<30]) [0..<30] [])\<lparr>log_committing := False\<rparr>"

theorem begin_op_reserves_witness:
  "is_Ok (log_write 4 (demo_full\<lparr>log_size := 31, log_outstanding := 1\<rparr>))"
proof -
  have "log_reach (demo_full\<lparr>log_size := 31\<rparr>) []" by (rule log_reach.init) (simp_all add: demo_full_def demo_log_def)
  then have "log_reach (demo_full\<lparr>log_size := 31, log_outstanding := 1\<rparr>) [10]"
    by (rule log_reach.begins) (simp add: demo_full_def demo_log_def begin_op_def)
  from begin_op_reserves [OF this, of 4] show ?thesis by (simp add: demo_full_def demo_log_def)
qed

theorem log_one_block_short_witness:
  "\<exists>s1 s2 s3. begin_op demo_full = Ok s1 \<and> begin_op s1 = Ok s2 \<and> begin_op s2 = Ok s3 \<and>
    is_Ok (foldl (\<lambda>r b. rbind r (log_write b)) (Ok s3) [0..<29]) \<and>
    foldl (\<lambda>r b. rbind r (log_write b)) (Ok s3) [0..<30] = Panic ''too big a transaction''"
  by (rule log_one_block_short) (simp_all add: demo_full_def demo_log_def inj_on_def)

end
