(* ===== verification/Fs.thy ===== *)
theory Fs
  imports Log CString
begin

text \<open>
  \<^verbatim>\<open>kernel/fs.c\<close>: block allocation, inodes, file contents, directories and path names,
  over the buffer cache and the log. A pointer to an in-memory inode is its index in \<open>itable\<close>.
  The fields of an on-disk inode and of a directory entry are read from and written to the
  bytes of the buffer at the offsets of the C structures. \<^verbatim>\<open>uint\<close> values are naturals below
  \<open>2 ^ 32\<close>; where the code adds them and tests the sum, the wrap-around is written out.
  A C string is given by its characters without the terminating NUL.
\<close>

section \<open>State\<close>

record superblock =
  sb_magic :: nat
  sb_size :: nat
  sb_nblocks :: nat
  sb_ninodes :: nat
  sb_nlog :: nat
  sb_logstart :: nat
  sb_inodestart :: nat
  sb_bmapstart :: nat

record inode =
  i_dev :: nat
  i_inum :: nat
  i_ref :: int
  i_locked :: bool
  i_pid :: int
  i_valid :: bool
  i_type :: int
  i_major :: int
  i_minor :: int
  i_nlink :: int
  i_size :: nat
  i_addrs :: "nat list"

record fsst = logst +
  sb :: superblock
  itable :: "inode list"

abbreviation FSMAGIC :: nat where "FSMAGIC \<equiv> 0x10203040"
abbreviation NDIRECT :: nat where "NDIRECT \<equiv> 12"
abbreviation NINDIRECT :: nat where "NINDIRECT \<equiv> 256"
abbreviation MAXFILE :: nat where "MAXFILE \<equiv> 268"
abbreviation IPB :: nat where "IPB \<equiv> 16"
abbreviation BPB :: nat where "BPB \<equiv> 8192"
abbreviation DIRSIZ :: nat where "DIRSIZ \<equiv> 14"
abbreviation T_DIR :: int where "T_DIR \<equiv> 1"
abbreviation T_FILE :: int where "T_FILE \<equiv> 2"
abbreviation T_DEVICE :: int where "T_DEVICE \<equiv> 3"

definition IBLOCK :: "nat \<Rightarrow> superblock \<Rightarrow> nat" where
  "IBLOCK i sp = i div IPB + sb_inodestart sp"

definition BBLOCK :: "nat \<Rightarrow> superblock \<Rightarrow> nat" where
  "BBLOCK b sp = b div BPB + sb_bmapstart sp"

definition upd_inode :: "nat \<Rightarrow> (inode \<Rightarrow> inode) \<Rightarrow> 'a fsst_scheme \<Rightarrow> 'a fsst_scheme" where
  "upd_inode ip f s = s\<lparr>itable := (itable s)[ip := f (itable s ! ip)]\<rparr>"

text \<open>\<^verbatim>\<open>bp->data\<close>.\<close>

abbreviation bdata :: "'a bstate_scheme \<Rightarrow> nat \<Rightarrow> byte list" where
  "bdata s bp \<equiv> b_data (bufs s ! bp)"

text \<open>16-bit fields are \<^verbatim>\<open>short\<close>.\<close>

definition get16 :: "nat \<Rightarrow> byte list \<Rightarrow> int" where
  "get16 off bs = (let v = le_val (slice off 2 bs) in if v < 2 ^ 15 then int v else int v - 2 ^ 16)"

definition bytes16 :: "int \<Rightarrow> byte list" where
  "bytes16 v = le_bytes 2 (nat (v mod 2 ^ 16))"

section \<open>Super block and free map\<close>

definition readsb :: "nat \<Rightarrow> 'a fsst_scheme \<Rightarrow> 'a fsst_scheme res" where
  "readsb dev s =
     rbind (bread dev 1 s) (\<lambda>(bp, s1).
       let d = bdata s1 bp in
       brelse bp (s1\<lparr>sb := \<lparr>sb_magic = get32 0 d, sb_size = get32 4 d, sb_nblocks = get32 8 d, sb_ninodes = get32 12 d,
         sb_nlog = get32 16 d, sb_logstart = get32 20 d, sb_inodestart = get32 24 d, sb_bmapstart = get32 28 d\<rparr>\<rparr>))"

definition fsinit :: "nat \<Rightarrow> 'a fsst_scheme \<Rightarrow> 'a fsst_scheme res" where
  "fsinit dev s =
     rbind (readsb dev s) (\<lambda>s1.
       if sb_magic (sb s1) \<noteq> FSMAGIC then Panic ''invalid file system''
       else initlog dev (sb_logstart (sb s1)) (sb_nlog (sb s1)) s1)"

definition bzero :: "nat \<Rightarrow> nat \<Rightarrow> 'a logst_scheme \<Rightarrow> 'a logst_scheme res" where
  "bzero dev bno s =
     rbind (bread dev bno s) (\<lambda>(bp, s1).
     rbind (log_write bp (set_data bp (replicate BSIZE 0) s1)) (\<lambda>s2. brelse bp s2))"

text \<open>Bit \<open>bi\<close> of a block of the free map.\<close>

definition bit_free :: "nat \<Rightarrow> byte list \<Rightarrow> bool" where
  "bit_free bi d \<longleftrightarrow> (d ! (bi div 8)) AND push_bit (bi mod 8) 1 = 0"

definition mark_used :: "nat \<Rightarrow> byte list \<Rightarrow> byte list" where
  "mark_used bi d = d[bi div 8 := (d ! (bi div 8)) OR push_bit (bi mod 8) 1]"

definition mark_free :: "nat \<Rightarrow> byte list \<Rightarrow> byte list" where
  "mark_free bi d = d[bi div 8 := (d ! (bi div 8)) AND NOT (push_bit (bi mod 8) 1)]"

text \<open>\<open>balloc_from dev bs\<close> is the outer loop, \<open>bs\<close> the values of \<^verbatim>\<open>b\<close> to come.\<close>

fun balloc_from :: "nat \<Rightarrow> nat list \<Rightarrow> 'a fsst_scheme \<Rightarrow> (nat \<times> 'a fsst_scheme) res" where
  "balloc_from dev [] s = Panic ''balloc: out of blocks''"
| "balloc_from dev (b # bs) s =
     rbind (bread dev (BBLOCK b (sb s)) s) (\<lambda>(bp, s1).
       case find (\<lambda>bi. bit_free bi (bdata s1 bp)) [0..<min BPB (sb_size (sb s1) - b)] of
         Some bi \<Rightarrow>
           rbind (log_write bp (set_data bp (mark_used bi (bdata s1 bp)) s1)) (\<lambda>s2.
           rbind (brelse bp s2) (\<lambda>s3.
           rbind (bzero dev (b + bi) s3) (\<lambda>s4. Ok (b + bi, s4))))
       | None \<Rightarrow> rbind (brelse bp s1) (\<lambda>s2. balloc_from dev bs s2))"

definition balloc :: "nat \<Rightarrow> 'a fsst_scheme \<Rightarrow> (nat \<times> 'a fsst_scheme) res" where
  "balloc dev s = balloc_from dev (map (\<lambda>k. k * BPB) [0..<(sb_size (sb s) + BPB - 1) div BPB]) s"

definition bfree :: "nat \<Rightarrow> nat \<Rightarrow> 'a fsst_scheme \<Rightarrow> 'a fsst_scheme res" where
  "bfree dev b s =
     rbind (bread dev (BBLOCK b (sb s)) s) (\<lambda>(bp, s1).
       let bi = b mod BPB in
       if bit_free bi (bdata s1 bp) then Panic ''freeing free block''
       else rbind (log_write bp (set_data bp (mark_free bi (bdata s1 bp)) s1)) (\<lambda>s2. brelse bp s2))"

section \<open>Inodes\<close>

definition iinit :: "'a fsst_scheme \<Rightarrow> 'a fsst_scheme" where
  "iinit s = s\<lparr>itable := map (\<lambda>i. i\<lparr>i_locked := False, i_pid := 0\<rparr>) (itable s)\<rparr>"

text \<open>\<^verbatim>\<open>acquiresleep\<close>, \<^verbatim>\<open>releasesleep\<close> and \<^verbatim>\<open>holdingsleep\<close> on \<^verbatim>\<open>ip->lock\<close>.\<close>

definition acquiresleep_inode :: "nat \<Rightarrow> 'a fsst_scheme \<Rightarrow> 'a fsst_scheme res" where
  "acquiresleep_inode ip s =
     (if i_locked (itable s ! ip) then Sleep ''inode''
      else Ok (upd_inode ip (\<lambda>i. i\<lparr>i_locked := True, i_pid := mypid s\<rparr>) s))"

definition releasesleep_inode :: "nat \<Rightarrow> 'a fsst_scheme \<Rightarrow> 'a fsst_scheme" where
  "releasesleep_inode ip s = wakeup (ChInodeLock ip) (upd_inode ip (\<lambda>i. i\<lparr>i_locked := False, i_pid := 0\<rparr>) s)"

definition holdingsleep_inode :: "nat \<Rightarrow> 'a fsst_scheme \<Rightarrow> bool" where
  "holdingsleep_inode ip s \<longleftrightarrow> i_locked (itable s ! ip) \<and> i_pid (itable s ! ip) = mypid s"

definition iget :: "nat \<Rightarrow> nat \<Rightarrow> 'a fsst_scheme \<Rightarrow> (nat \<times> 'a fsst_scheme) res" where
  "iget dev inum s =
     (case find_index (\<lambda>i. i_ref i > 0 \<and> i_dev i = dev \<and> i_inum i = inum) (itable s) of
        Some ip \<Rightarrow> Ok (ip, upd_inode ip (\<lambda>i. i\<lparr>i_ref := i_ref i + 1\<rparr>) s)
      | None \<Rightarrow>
          (case find_index (\<lambda>i. i_ref i = 0) (itable s) of
             None \<Rightarrow> Panic ''iget: no inodes''
           | Some ip \<Rightarrow>
               Ok (ip, upd_inode ip (\<lambda>i. i\<lparr>i_dev := dev, i_inum := inum, i_ref := 1, i_valid := False\<rparr>) s)))"

text \<open>\<^verbatim>\<open>struct dinode\<close> is 64 bytes: four \<^verbatim>\<open>short\<close>s, the size and 13 block addresses.\<close>

definition dinode_off :: "nat \<Rightarrow> nat" where
  "dinode_off inum = 64 * (inum mod IPB)"

definition enc_dinode :: "int \<Rightarrow> int \<Rightarrow> int \<Rightarrow> int \<Rightarrow> nat \<Rightarrow> nat list \<Rightarrow> byte list" where
  "enc_dinode type major minor nlink sz addrs =
     bytes16 type @ bytes16 major @ bytes16 minor @ bytes16 nlink @ le_bytes 4 sz @ concat (map (le_bytes 4) addrs)"

definition load_dinode :: "byte list \<Rightarrow> inode \<Rightarrow> inode" where
  "load_dinode d i =
     (let off = dinode_off (i_inum i) in
      i\<lparr>i_type := get16 off d, i_major := get16 (off + 2) d, i_minor := get16 (off + 4) d,
        i_nlink := get16 (off + 6) d, i_size := get32 (off + 8) d,
        i_addrs := map (\<lambda>k. get32 (off + 12 + 4 * k) d) [0..<13]\<rparr>)"

definition store_dinode :: "inode \<Rightarrow> byte list \<Rightarrow> byte list" where
  "store_dinode i d =
     splice (dinode_off (i_inum i)) (enc_dinode (i_type i) (i_major i) (i_minor i) (i_nlink i) (i_size i) (i_addrs i)) d"

text \<open>\<open>ialloc_from\<close> is the loop over \<^verbatim>\<open>inum\<close>.\<close>

fun ialloc_from :: "nat \<Rightarrow> int \<Rightarrow> nat list \<Rightarrow> 'a fsst_scheme \<Rightarrow> (nat \<times> 'a fsst_scheme) res" where
  "ialloc_from dev type [] s = Panic ''ialloc: no inodes''"
| "ialloc_from dev type (inum # inums) s =
     rbind (bread dev (IBLOCK inum (sb s)) s) (\<lambda>(bp, s1).
       if get16 (dinode_off inum) (bdata s1 bp) = 0 then
         rbind (log_write bp (set_data bp (splice (dinode_off inum) (bytes16 type @ replicate 62 0) (bdata s1 bp)) s1)) (\<lambda>s2.
         rbind (brelse bp s2) (\<lambda>s3. iget dev inum s3))
       else rbind (brelse bp s1) (\<lambda>s2. ialloc_from dev type inums s2))"

definition ialloc :: "nat \<Rightarrow> int \<Rightarrow> 'a fsst_scheme \<Rightarrow> (nat \<times> 'a fsst_scheme) res" where
  "ialloc dev type s = ialloc_from dev type [1..<sb_ninodes (sb s)] s"

definition iupdate :: "nat \<Rightarrow> 'a fsst_scheme \<Rightarrow> 'a fsst_scheme res" where
  "iupdate ip s =
     rbind (bread (i_dev (itable s ! ip)) (IBLOCK (i_inum (itable s ! ip)) (sb s)) s) (\<lambda>(bp, s1).
     rbind (log_write bp (set_data bp (store_dinode (itable s1 ! ip) (bdata s1 bp)) s1)) (\<lambda>s2. brelse bp s2))"

definition idup :: "nat \<Rightarrow> 'a fsst_scheme \<Rightarrow> 'a fsst_scheme" where
  "idup ip s = upd_inode ip (\<lambda>i. i\<lparr>i_ref := i_ref i + 1\<rparr>) s"

definition ilock :: "nat \<Rightarrow> 'a fsst_scheme \<Rightarrow> 'a fsst_scheme res" where
  "ilock ip s =
     (if i_ref (itable s ! ip) < 1 then Panic ''ilock''
      else rbind (acquiresleep_inode ip s) (\<lambda>s1.
        if i_valid (itable s1 ! ip) then Ok s1
        else rbind (bread (i_dev (itable s1 ! ip)) (IBLOCK (i_inum (itable s1 ! ip)) (sb s1)) s1) (\<lambda>(bp, s2).
          rbind (brelse bp (upd_inode ip (load_dinode (bdata s2 bp)) s2)) (\<lambda>s3.
            let s4 = upd_inode ip (\<lambda>i. i\<lparr>i_valid := True\<rparr>) s3 in
            if i_type (itable s4 ! ip) = 0 then Panic ''ilock: no type'' else Ok s4))))"

definition iunlock :: "nat \<Rightarrow> 'a fsst_scheme \<Rightarrow> 'a fsst_scheme res" where
  "iunlock ip s =
     (if \<not> holdingsleep_inode ip s \<or> i_ref (itable s ! ip) < 1 then Panic ''iunlock''
      else Ok (releasesleep_inode ip s))"

section \<open>Inode contents\<close>

definition set_addr :: "nat \<Rightarrow> nat \<Rightarrow> nat \<Rightarrow> 'a fsst_scheme \<Rightarrow> 'a fsst_scheme" where
  "set_addr ip k addr s = upd_inode ip (\<lambda>i. i\<lparr>i_addrs := (i_addrs i)[k := addr]\<rparr>) s"

text \<open>\<^verbatim>\<open>if((addr = ip->addrs[k]) == 0) ip->addrs[k] = addr = balloc(ip->dev);\<close>\<close>

definition bmap_addr :: "nat \<Rightarrow> nat \<Rightarrow> 'a fsst_scheme \<Rightarrow> (nat \<times> 'a fsst_scheme) res" where
  "bmap_addr ip k s =
     (let addr = i_addrs (itable s ! ip) ! k in
      if addr = 0 then rbind (balloc (i_dev (itable s ! ip)) s) (\<lambda>(addr, s1). Ok (addr, set_addr ip k addr s1))
      else Ok (addr, s))"

definition bmap :: "nat \<Rightarrow> nat \<Rightarrow> 'a fsst_scheme \<Rightarrow> (nat \<times> 'a fsst_scheme) res" where
  "bmap ip bn s =
     (if bn < NDIRECT then bmap_addr ip bn s
      else let bn = bn - NDIRECT in
        if bn < NINDIRECT then
          rbind (bmap_addr ip NDIRECT s) (\<lambda>(ind, s1).
          rbind (bread (i_dev (itable s1 ! ip)) ind s1) (\<lambda>(bp, s2).
            let addr = get32 (4 * bn) (bdata s2 bp) in
            if addr = 0 then
              rbind (balloc (i_dev (itable s2 ! ip)) s2) (\<lambda>(addr, s3).
              rbind (log_write bp (set_data bp (put32 (4 * bn) addr (bdata s3 bp)) s3)) (\<lambda>s4.
              rbind (brelse bp s4) (\<lambda>s5. Ok (addr, s5))))
            else rbind (brelse bp s2) (\<lambda>s3. Ok (addr, s3))))
        else Panic ''bmap: out of range'')"

definition itrunc :: "nat \<Rightarrow> 'a fsst_scheme \<Rightarrow> 'a fsst_scheme res" where
  "itrunc ip s =
     rbind (rfold (\<lambda>k s. if i_addrs (itable s ! ip) ! k \<noteq> 0
         then rbind (bfree (i_dev (itable s ! ip)) (i_addrs (itable s ! ip) ! k) s) (\<lambda>s1. Ok (set_addr ip k 0 s1))
         else Ok s) [0..<NDIRECT] s) (\<lambda>s1.
     rbind (if i_addrs (itable s1 ! ip) ! NDIRECT \<noteq> 0 then
         rbind (bread (i_dev (itable s1 ! ip)) (i_addrs (itable s1 ! ip) ! NDIRECT) s1) (\<lambda>(bp, s2).
         rbind (rfold (\<lambda>j s. let a = get32 (4 * j) (bdata s bp) in
             if a \<noteq> 0 then bfree (i_dev (itable s ! ip)) a s else Ok s) [0..<NINDIRECT] s2) (\<lambda>s3.
         rbind (brelse bp s3) (\<lambda>s4.
         rbind (bfree (i_dev (itable s4 ! ip)) (i_addrs (itable s4 ! ip) ! NDIRECT) s4) (\<lambda>s5.
           Ok (set_addr ip NDIRECT 0 s5)))))
       else Ok s1) (\<lambda>s6.
     iupdate ip (upd_inode ip (\<lambda>i. i\<lparr>i_size := 0\<rparr>) s6)))"

definition iput :: "nat \<Rightarrow> 'a fsst_scheme \<Rightarrow> 'a fsst_scheme res" where
  "iput ip s =
     rbind (if i_ref (itable s ! ip) = 1 \<and> i_valid (itable s ! ip) \<and> i_nlink (itable s ! ip) = 0 then
         rbind (acquiresleep_inode ip s) (\<lambda>s1.
         rbind (itrunc ip s1) (\<lambda>s2.
         rbind (iupdate ip (upd_inode ip (\<lambda>i. i\<lparr>i_type := 0\<rparr>) s2)) (\<lambda>s3.
           Ok (releasesleep_inode ip (upd_inode ip (\<lambda>i. i\<lparr>i_valid := False\<rparr>) s3)))))
       else Ok s)
     (\<lambda>s4. Ok (upd_inode ip (\<lambda>i. i\<lparr>i_ref := i_ref i - 1\<rparr>) s4))"

definition iunlockput :: "nat \<Rightarrow> 'a fsst_scheme \<Rightarrow> 'a fsst_scheme res" where
  "iunlockput ip s = rbind (iunlock ip s) (\<lambda>s1. iput ip s1)"

record stat =
  st_dev :: nat
  st_ino :: nat
  st_type :: int
  st_nlink :: int
  st_size :: nat

definition stati :: "nat \<Rightarrow> 'a fsst_scheme \<Rightarrow> stat" where
  "stati ip s = (let i = itable s ! ip in
     \<lparr>st_dev = i_dev i, st_ino = i_inum i, st_type = i_type i, st_nlink = i_nlink i, st_size = i_size i\<rparr>)"

text \<open>
  The destination of \<^verbatim>\<open>readi\<close> and the source of \<^verbatim>\<open>writei\<close>: a user address, an
  address in the kernel's direct map, or a variable on the kernel stack, given by its bytes.
\<close>

datatype dest = ToUser uint64 | ToKernel uint64 | ToStack "byte list"

datatype source = FromUser uint64 | FromKernel uint64 | FromStack "byte list"

fun copy_to :: "dest \<Rightarrow> byte list \<Rightarrow> 'a pstate_scheme \<Rightarrow> int \<times> dest \<times> 'a pstate_scheme" where
  "copy_to (ToUser a) bs s = (let (r, s1) = either_copyout True a bs s in (r, ToUser (a + of_nat (length bs)), s1))"
| "copy_to (ToKernel a) bs s = (let (r, s1) = either_copyout False a bs s in (r, ToKernel (a + of_nat (length bs)), s1))"
| "copy_to (ToStack cs) bs s = (0, ToStack (cs @ bs), s)"

fun copy_from :: "source \<Rightarrow> nat \<Rightarrow> 'a pstate_scheme \<Rightarrow> int \<times> byte list \<times> source" where
  "copy_from (FromUser a) m s = (let (r, bs) = either_copyin True a m s in (r, bs, FromUser (a + of_nat m)))"
| "copy_from (FromKernel a) m s = (let (r, bs) = either_copyin False a m s in (r, bs, FromKernel (a + of_nat m)))"
| "copy_from (FromStack cs) m s = (0, take m cs, FromStack (drop m cs))"

definition chunk_len :: "nat \<Rightarrow> nat \<Rightarrow> nat" where
  "chunk_len left off = min left (BSIZE - off mod BSIZE)"

lemma chunk_len_pos [simp]: "0 < left \<Longrightarrow> 0 < chunk_len left off"
  by (simp add: chunk_len_def)

function readi_loop :: "nat \<Rightarrow> dest \<Rightarrow> nat \<Rightarrow> nat \<Rightarrow> nat \<Rightarrow> 'a fsst_scheme \<Rightarrow> (int \<times> dest \<times> 'a fsst_scheme) res" where
  "readi_loop ip dst off n tot s =
     (if tot < n then
        rbind (bmap ip (off div BSIZE) s) (\<lambda>(addr, s1).
        rbind (bread (i_dev (itable s1 ! ip)) addr s1) (\<lambda>(bp, s2).
          let m = chunk_len (n - tot) off;
              (r, dst1, s3) = copy_to dst (slice (off mod BSIZE) m (bdata s2 bp)) s2
          in rbind (brelse bp s3) (\<lambda>s4.
               if r = -1 then Ok (-1, dst1, s4) else readi_loop ip dst1 (off + m) n (tot + m) s4)))
      else Ok (int tot, dst, s))"
  by pat_completeness auto
termination
  by (relation "measure (\<lambda>(ip, dst, off, n, tot, s). n - tot)") (auto simp: chunk_len_def)

declare readi_loop.simps [simp del]

definition readi :: "nat \<Rightarrow> dest \<Rightarrow> nat \<Rightarrow> nat \<Rightarrow> 'a fsst_scheme \<Rightarrow> (int \<times> dest \<times> 'a fsst_scheme) res" where
  "readi ip dst off n s =
     (let sz = i_size (itable s ! ip); e = (off + n) mod 2 ^ 32 in
      if off > sz \<or> e < off then Ok (0, dst, s)
      else readi_loop ip dst off (if e > sz then sz - off else n) 0 s)"

text \<open>The loop of \<^verbatim>\<open>writei\<close> returns \<^verbatim>\<open>tot\<close> and the final \<^verbatim>\<open>off\<close>.\<close>

function writei_loop :: "nat \<Rightarrow> source \<Rightarrow> nat \<Rightarrow> nat \<Rightarrow> nat \<Rightarrow> 'a fsst_scheme \<Rightarrow> (nat \<times> nat \<times> 'a fsst_scheme) res" where
  "writei_loop ip src off n tot s =
     (if tot < n then
        rbind (bmap ip (off div BSIZE) s) (\<lambda>(addr, s1).
        rbind (bread (i_dev (itable s1 ! ip)) addr s1) (\<lambda>(bp, s2).
          let m = chunk_len (n - tot) off;
              (r, bs, src1) = copy_from src m s2;
              s3 = set_data bp (splice (off mod BSIZE) bs (bdata s2 bp)) s2
          in if r = -1 then rbind (brelse bp s3) (\<lambda>s4. Ok (tot, off, s4))
             else rbind (log_write bp s3) (\<lambda>s4.
                  rbind (brelse bp s4) (\<lambda>s5. writei_loop ip src1 (off + m) n (tot + m) s5))))
      else Ok (tot, off, s))"
  by pat_completeness auto
termination
  by (relation "measure (\<lambda>(ip, src, off, n, tot, s). n - tot)") (auto simp: chunk_len_def)

declare writei_loop.simps [simp del]

definition writei :: "nat \<Rightarrow> source \<Rightarrow> nat \<Rightarrow> nat \<Rightarrow> 'a fsst_scheme \<Rightarrow> (int \<times> 'a fsst_scheme) res" where
  "writei ip src off n s =
     (let e = (off + n) mod 2 ^ 32 in
      if off > i_size (itable s ! ip) \<or> e < off then Ok (-1, s)
      else if e > MAXFILE * BSIZE then Ok (-1, s)
      else rbind (writei_loop ip src off n 0 s) (\<lambda>(tot, off1, s1).
        let s2 = (if off1 > i_size (itable s1 ! ip) then upd_inode ip (\<lambda>i. i\<lparr>i_size := off1\<rparr>) s1 else s1)
        in rbind (iupdate ip s2) (\<lambda>s3. Ok (int tot, s3))))"

end
