(* ===== verification/Dir.thy ===== *)
theory Dir
  imports Fs
begin

text \<open>
  Directories and path names of \<^verbatim>\<open>kernel/fs.c\<close>. A directory entry is 16 bytes: the
  inode number and 14 bytes of name, padded with NULs. A path is the list of its characters; the
  element copied out of it is the 14-byte array \<^verbatim>\<open>name\<close>, whose bytes behind the NUL are
  whatever they were.
\<close>

section \<open>Directories\<close>

definition namecmp :: "byte list \<Rightarrow> byte list \<Rightarrow> int option" where
  "namecmp a b = strncmp a b DIRSIZ"

fun stack_bytes :: "dest \<Rightarrow> byte list" where
  "stack_bytes (ToStack bs) = bs"
| "stack_bytes _ = []"

definition de_inum :: "byte list \<Rightarrow> nat" where
  "de_inum de = le_val (take 2 de)"

definition de_name :: "byte list \<Rightarrow> byte list" where
  "de_name de = drop 2 de"

text \<open>The offsets of the entries of a directory of \<open>n\<close> bytes.\<close>

definition de_offs :: "nat \<Rightarrow> nat list" where
  "de_offs n = map (\<lambda>k. 16 * k) [0..<(n + 15) div 16]"

fun dirlookup_loop :: "nat \<Rightarrow> byte list \<Rightarrow> nat list \<Rightarrow> 'a fsst_scheme \<Rightarrow> ((nat \<times> nat) option \<times> 'a fsst_scheme) res" where
  "dirlookup_loop dp name [] s = Ok (None, s)"
| "dirlookup_loop dp name (off # offs) s =
     rbind (readi dp (ToStack []) off 16 s) (\<lambda>(r, dst, s1).
       if r \<noteq> 16 then Panic ''dirlookup read''
       else let de = stack_bytes dst in
         if de_inum de = 0 then dirlookup_loop dp name offs s1
         else if namecmp name (de_name de) = Some 0 then
           rbind (iget (i_dev (itable s1 ! dp)) (de_inum de) s1) (\<lambda>(ip, s2). Ok (Some (ip, off), s2))
         else dirlookup_loop dp name offs s1)"

text \<open>The result is the inode found and the value of \<^verbatim>\<open>*poff\<close>.\<close>

definition dirlookup :: "nat \<Rightarrow> byte list \<Rightarrow> 'a fsst_scheme \<Rightarrow> ((nat \<times> nat) option \<times> 'a fsst_scheme) res" where
  "dirlookup dp name s =
     (if i_type (itable s ! dp) \<noteq> T_DIR then Panic ''dirlookup not DIR''
      else dirlookup_loop dp name (de_offs (i_size (itable s ! dp))) s)"

text \<open>The search of \<^verbatim>\<open>dirlink\<close> for an empty entry: its offset, or the end of the directory.\<close>

fun dirlink_slot :: "nat \<Rightarrow> nat list \<Rightarrow> nat \<Rightarrow> 'a fsst_scheme \<Rightarrow> (nat \<times> 'a fsst_scheme) res" where
  "dirlink_slot dp [] end s = Ok (end, s)"
| "dirlink_slot dp (off # offs) end s =
     rbind (readi dp (ToStack []) off 16 s) (\<lambda>(r, dst, s1).
       if r \<noteq> 16 then Panic ''dirlink read''
       else if de_inum (stack_bytes dst) = 0 then Ok (off, s1)
       else dirlink_slot dp offs end s1)"

definition dirlink :: "nat \<Rightarrow> byte list \<Rightarrow> nat \<Rightarrow> 'a fsst_scheme \<Rightarrow> (int \<times> 'a fsst_scheme) res" where
  "dirlink dp name inum s =
     rbind (dirlookup dp name s) (\<lambda>(found, s1).
       case found of
         Some (ip, _) \<Rightarrow> rbind (iput ip s1) (\<lambda>s2. Ok (-1, s2))
       | None \<Rightarrow>
           let n = i_size (itable s1 ! dp) in
           rbind (dirlink_slot dp (de_offs n) (16 * ((n + 15) div 16)) s1) (\<lambda>(off, s2).
             case strncpy (replicate DIRSIZ 0) name DIRSIZ of
               None \<Rightarrow> Panic ''dirlink: name overrun''
             | Some nm \<Rightarrow>
                 rbind (writei dp (FromStack (le_bytes 2 inum @ nm)) off 16 s2) (\<lambda>(r, s3).
                   if r \<noteq> 16 then Panic ''dirlink'' else Ok (0, s3))))"

section \<open>Paths\<close>

abbreviation SLASH :: byte where "SLASH \<equiv> 47"

definition set_name :: "byte list \<Rightarrow> byte list \<Rightarrow> byte list" where
  "set_name elem name = (if length elem \<ge> DIRSIZ then take DIRSIZ elem else splice 0 (elem @ [0]) name)"

definition skipelem :: "byte list \<Rightarrow> byte list \<Rightarrow> (byte list \<times> byte list) option" where
  "skipelem path name =
     (let p = dropWhile (\<lambda>c. c = SLASH) path in
      if p = [] then None
      else Some (dropWhile (\<lambda>c. c = SLASH) (dropWhile (\<lambda>c. c \<noteq> SLASH) p),
                 set_name (takeWhile (\<lambda>c. c \<noteq> SLASH) p) name))"

lemma skipelem_shorter:
  assumes "skipelem path name = Some (path', name')"
  shows "length path' < length path"
proof -
  let ?p = "dropWhile (\<lambda>c. c = SLASH) path"
  from assms have p: "?p \<noteq> []" "path' = dropWhile (\<lambda>c. c = SLASH) (dropWhile (\<lambda>c. c \<noteq> SLASH) ?p)"
    by (auto simp: skipelem_def Let_def split: if_splits)
  have "hd ?p \<noteq> SLASH" using p(1) by (rule hd_dropWhile)
  then have "length (dropWhile (\<lambda>c. c \<noteq> SLASH) ?p) < length ?p"
    using p(1) by (cases ?p) (auto simp: length_dropWhile_le le_imp_less_Suc)
  moreover have "length ?p \<le> length path" by (rule length_dropWhile_le)
  moreover have "length path' \<le> length (dropWhile (\<lambda>c. c \<noteq> SLASH) ?p)"
    unfolding p(2) by (rule length_dropWhile_le)
  ultimately show ?thesis by linarith
qed

text \<open>The loop of \<^verbatim>\<open>namex\<close>; the result is the inode, and \<^verbatim>\<open>name\<close>.\<close>

function namex_loop :: "bool \<Rightarrow> byte list \<Rightarrow> byte list \<Rightarrow> nat \<Rightarrow> 'a fsst_scheme \<Rightarrow>
    (nat option \<times> byte list \<times> 'a fsst_scheme) res" where
  "namex_loop parent path name ip s =
     (case skipelem path name of
        None \<Rightarrow>
          if parent then rbind (iput ip s) (\<lambda>s1. Ok (None, name, s1)) else Ok (Some ip, name, s)
      | Some (path1, name1) \<Rightarrow>
          rbind (ilock ip s) (\<lambda>s1.
            if i_type (itable s1 ! ip) \<noteq> T_DIR then rbind (iunlockput ip s1) (\<lambda>s2. Ok (None, name1, s2))
            else if parent \<and> path1 = [] then rbind (iunlock ip s1) (\<lambda>s2. Ok (Some ip, name1, s2))
            else rbind (dirlookup ip name1 s1) (\<lambda>(found, s2).
                 rbind (iunlockput ip s2) (\<lambda>s3.
                   case found of
                     None \<Rightarrow> Ok (None, name1, s3)
                   | Some (nxt, _) \<Rightarrow> namex_loop parent path1 name1 nxt s3))))"
  by pat_completeness auto
termination
  by (relation "measure (\<lambda>(parent, path, name, ip, s). length path)") (auto dest: skipelem_shorter)

declare namex_loop.simps [simp del]

abbreviation ROOTDEV :: nat where "ROOTDEV \<equiv> 1"
abbreviation ROOTINO :: nat where "ROOTINO \<equiv> 1"

definition namex :: "byte list \<Rightarrow> bool \<Rightarrow> byte list \<Rightarrow> 'a fsst_scheme \<Rightarrow> (nat option \<times> byte list \<times> 'a fsst_scheme) res" where
  "namex path parent name s =
     rbind (if path \<noteq> [] \<and> hd path = SLASH then iget ROOTDEV ROOTINO s
            else let cwd = the (p_cwd (procs s ! the (myproc s))) in Ok (cwd, idup cwd s))
       (\<lambda>(ip, s1). namex_loop parent path name ip s1)"

definition namei :: "byte list \<Rightarrow> 'a fsst_scheme \<Rightarrow> (nat option \<times> 'a fsst_scheme) res" where
  "namei path s = rbind (namex path False (replicate DIRSIZ 0) s) (\<lambda>(ip, _, s1). Ok (ip, s1))"

definition nameiparent :: "byte list \<Rightarrow> byte list \<Rightarrow> 'a fsst_scheme \<Rightarrow> (nat option \<times> byte list \<times> 'a fsst_scheme) res" where
  "nameiparent path name s = namex path True name s"

end
