(* ===== verification/Ring.thy ===== *)
theory Ring
  imports Xv6_Prelude
begin

text \<open>
  Ring buffers with free-running counters, the representation shared by the pipe
  (\<^verbatim>\<open>pi->data\<close>, \<^verbatim>\<open>nread\<close>, \<^verbatim>\<open>nwrite\<close>), the console input
  (\<^verbatim>\<open>cons.buf\<close>, \<^verbatim>\<open>r\<close>, \<^verbatim>\<open>w\<close>, \<^verbatim>\<open>e\<close>), the UART output
  (\<^verbatim>\<open>uart_tx_buf\<close>) and the rings of the disk driver. The counters wrap around at their width, the index is the counter modulo
  the buffer's size, which divides the range of the counters.

  \<open>byte_fifo\<close> is the contract such a buffer fulfils towards the code that fills and drains it.
\<close>

section \<open>Contents of a ring\<close>

definition ring_list :: "'a list \<Rightarrow> 'w::len word \<Rightarrow> 'w word \<Rightarrow> 'a list" where
  "ring_list buf r w = map (\<lambda>k. buf ! (unat (r + of_nat k) mod length buf)) [0..<unat (w - r)]"

definition ring_ok :: "'a list \<Rightarrow> 'w::len word \<Rightarrow> 'w word \<Rightarrow> bool" where
  "ring_ok buf r w \<longleftrightarrow> buf \<noteq> [] \<and> length buf dvd 2 ^ LENGTH('w) \<and> length buf < 2 ^ LENGTH('w) \<and>
     unat (w - r) \<le> length buf"

lemma length_ring_list [simp]: "length (ring_list buf r w) = unat (w - r)"
  by (simp add: ring_list_def)

lemma ring_list_empty: "ring_list buf r w = [] \<longleftrightarrow> r = w"
  using length_ring_list [of buf r w] by (metis length_0_conv right_minus_eq unat_eq_zero)

lemma ring_index:
  fixes r :: "'w::len word"
  assumes "n dvd 2 ^ LENGTH('w)"
  shows "unat (r + of_nat k) mod n = (unat r + k) mod n"
proof -
  have "unat (r + of_nat k) = (unat r + k) mod 2 ^ LENGTH('w)"
    by (simp add: unat_word_ariths unat_of_nat mod_add_right_eq)
  with assms show ?thesis by (simp add: mod_mod_cancel)
qed

lemma mod_add_cancel:
  assumes "(a + j) mod n = (a + k) mod n" "j < n" "k < n"
  shows "j = (k :: nat)"
proof -
  have "\<not> j < k" if "(a + j) mod n = (a + k) mod n" "k < n" for j k
  proof
    assume "j < k"
    then have "n dvd k - j" using that(1) mod_eq_dvd_iff_nat [of "a + j" "a + k" n] by simp
    then show False using \<open>j < k\<close> that(2) by (auto dest: dvd_imp_le)
  qed
  then show ?thesis using assms by (metis linorder_neqE_nat)
qed

lemma unat_Suc_diff:
  assumes "Suc (unat (w - r)) < 2 ^ LENGTH('w)"
  shows "unat (w + 1 - r :: 'w::len word) = Suc (unat (w - r))"
proof -
  have "unat (w + 1 - r) = unat ((w - r) + 1)" by (simp add: algebra_simps)
  also have "\<dots> = (unat (w - r) + 1) mod 2 ^ LENGTH('w)" by (simp add: unat_word_ariths)
  finally show ?thesis using assms by simp
qed

lemma word_eq_add_iff: "w = r + of_nat n \<longleftrightarrow> unat (w - r) = n" if "n < 2 ^ LENGTH('w)" for w r :: "'w::len word"
proof -
  have "w = r + of_nat n \<longleftrightarrow> w - r = of_nat n" by (metis add_diff_cancel_left' diff_add_cancel add.commute)
  also have "\<dots> \<longleftrightarrow> unat (w - r) = n" using that by (simp add: word_unat_eq_iff unat_of_nat)
  finally show ?thesis .
qed

section \<open>Appending and removing\<close>

lemma ring_put:
  fixes r w :: "'w::len word"
  assumes ok: "ring_ok buf r w" and room: "unat (w - r) \<noteq> length buf"
  shows "ring_ok (buf[unat w mod length buf := c]) r (w + 1)"
    and "ring_list (buf[unat w mod length buf := c]) r (w + 1) = ring_list buf r w @ [c]"
proof -
  let ?n = "length buf" and ?k = "unat (w - r)" and ?buf = "buf[unat w mod length buf := c]"
  have n: "?n dvd 2 ^ LENGTH('w)" "buf \<noteq> []" "?k < ?n" "?n < 2 ^ LENGTH('w)" using ok room by (auto simp: ring_ok_def)
  have suc: "unat (w + 1 - r) = Suc ?k" using unat_Suc_diff [of w r] n by simp
  then show "ring_ok ?buf r (w + 1)" using n by (simp add: ring_ok_def)
  have wr: "unat w mod ?n = (unat r + ?k) mod ?n" using ring_index [OF n(1), of r ?k] by simp
  have old: "?buf ! (unat (r + of_nat k) mod ?n) = buf ! (unat (r + of_nat k) mod ?n)" if "k < ?k" for k
  proof -
    have "(unat r + k) mod ?n \<noteq> (unat r + ?k) mod ?n" using mod_add_cancel [of "unat r" k ?n ?k] that n(3) by auto
    then show ?thesis by (simp add: ring_index [OF n(1)] wr)
  qed
  have lt: "unat w mod ?n < ?n" using n(2) by simp
  show "ring_list ?buf r (w + 1) = ring_list buf r w @ [c]"
    unfolding ring_list_def suc using nth_list_update_eq [OF lt, of c] by (simp add: old)
qed

lemma ring_get:
  fixes r w :: "'w::len word" and buf :: "'a list"
  assumes ok: "ring_ok buf r w" and ne: "r \<noteq> w"
  shows "ring_ok buf (r + 1) w"
    and "ring_list buf r w = buf ! (unat r mod length buf) # ring_list buf (r + 1) w"
proof -
  let ?k = "unat (w - (r + 1))"
  have "w - r \<noteq> 0" using ne by simp
  then have "unat (w - r - 1) = unat (w - r) - 1" "0 < unat (w - r)" by (simp_all add: unat_minus_one unat_gt_0)
  moreover have "w - r - 1 = w - (r + 1)" by simp
  ultimately have k: "unat (w - r) = Suc ?k" by simp
  then show "ring_ok buf (r + 1) w" using ok by (simp add: ring_ok_def)
  have m: "map f [0..<Suc n] = f 0 # map (\<lambda>k. f (Suc k)) [0..<n]" for f :: "nat \<Rightarrow> 'a" and n
    by (simp add: upt_conv_Cons map_Suc_upt [symmetric] comp_def del: upt_Suc)
  show "ring_list buf r w = buf ! (unat r mod length buf) # ring_list buf (r + 1) w"
    unfolding ring_list_def k m by (simp add: add.assoc)
qed

section \<open>The contract\<close>

text \<open>
  \<open>put\<close> is meant for a buffer that is not full, \<open>get\<close> for one that is not empty.
\<close>

locale byte_fifo =
  fixes inv :: "'q \<Rightarrow> bool"
    and cap :: nat
    and contents :: "'q \<Rightarrow> byte list"
    and full :: "'q \<Rightarrow> bool"
    and empty :: "'q \<Rightarrow> bool"
    and put :: "byte \<Rightarrow> 'q \<Rightarrow> 'q"
    and get :: "'q \<Rightarrow> byte \<times> 'q"
  assumes bounded: "inv q \<Longrightarrow> length (contents q) \<le> cap"
    and full_iff: "inv q \<Longrightarrow> full q \<longleftrightarrow> length (contents q) = cap"
    and empty_iff: "inv q \<Longrightarrow> empty q \<longleftrightarrow> contents q = []"
    and put_ok: "inv q \<Longrightarrow> \<not> full q \<Longrightarrow> inv (put c q) \<and> contents (put c q) = contents q @ [c]"
    and get_ok: "inv q \<Longrightarrow> \<not> empty q \<Longrightarrow> inv (snd (get q)) \<and> contents q = fst (get q) # contents (snd (get q))"
begin

text \<open>Filling a buffer and draining it as far as it goes.\<close>

fun put_all :: "byte list \<Rightarrow> 'q \<Rightarrow> 'q" where
  "put_all [] q = q"
| "put_all (c # cs) q = (if full q then q else put_all cs (put c q))"

fun get_all :: "nat \<Rightarrow> 'q \<Rightarrow> byte list \<times> 'q" where
  "get_all 0 q = ([], q)"
| "get_all (Suc n) q = (if empty q then ([], q)
     else let (c, q1) = get q; (cs, q2) = get_all n q1 in (c # cs, q2))"

lemma put_all_ok:
  "inv q \<Longrightarrow> inv (put_all cs q) \<and> contents (put_all cs q) = contents q @ take (cap - length (contents q)) cs"
proof (induction cs arbitrary: q)
  case (Cons c cs)
  show ?case
  proof (cases "full q")
    case True
    with Cons.prems full_iff show ?thesis by simp
  next
    case False
    from put_ok [OF Cons.prems False] have p: "inv (put c q)" "contents (put c q) = contents q @ [c]" by blast+
    have "length (contents q) < cap" using bounded full_iff Cons.prems False by (metis le_neq_implies_less)
    then have "cap - length (contents q) = Suc (cap - length (contents (put c q)))" by (simp add: p)
    with Cons.IH [OF p(1)] False p show ?thesis by simp
  qed
qed simp

lemma get_all_ok:
  "inv q \<Longrightarrow> get_all n q = (cs, q') \<Longrightarrow> inv q' \<and> cs = take n (contents q) \<and> contents q' = drop n (contents q)"
proof (induction n arbitrary: q cs)
  case (Suc n)
  show ?case
  proof (cases "empty q")
    case True
    with Suc.prems empty_iff show ?thesis by simp
  next
    case False
    obtain c q1 where g: "get q = (c, q1)" by (cases "get q")
    obtain ds where d: "get_all n q1 = (ds, q')" "cs = c # ds" using Suc.prems False g by (auto split: prod.splits)
    have "inv q1" "contents q = c # contents q1" using get_ok [OF Suc.prems(1) False] g by auto
    with Suc.IH [of q1 ds] d show ?thesis by simp
  qed
qed simp

text \<open>What is put in comes out, in order, behind what was there before.\<close>

lemma fifo_order:
  assumes "inv q" "get_all n (put_all cs q) = (ds, q')"
  shows "ds @ contents q' = contents q @ take (cap - length (contents q)) cs"
  using put_all_ok [OF assms(1), of cs] get_all_ok [OF _ assms(2)] by (metis append_take_drop_id)

end

end
