(* ===== verification/Uart.thy ===== *)
theory Uart
  imports Dir Ring
begin

text \<open>
  \<^verbatim>\<open>kernel/uart.c\<close>: the serial port. The chip is seen through its registers:
  \<open>uart_room\<close> is how many characters its transmitter takes before \<^verbatim>\<open>LSR_TX_IDLE\<close>
  reads as 0, \<open>uart_out\<close> the characters written to \<^verbatim>\<open>THR\<close> so far,
  \<open>uart_in\<close> the characters waiting in \<^verbatim>\<open>RHR\<close>, and \<open>uart_cfg\<close> the writes
  to its control registers. The output buffer is a ring of 32 characters with 64-bit counters.

  An operation that may sleep in the middle of its work answers \<open>Block i\<close> when it does, with
  what it needs to go on from there, and \<open>Ret r\<close> when it returns \<open>r\<close>.
\<close>

datatype io = Ret int | Block int

record txbuf =
  tx_buf :: "byte list"
  tx_w :: uint64
  tx_r :: uint64

record consbuf =
  c_buf :: "byte list"
  c_r :: uint32
  c_w :: uint32
  c_e :: uint32

record devst = fsst +
  uart_tx :: txbuf
  uart_out :: "byte list"
  uart_room :: nat
  uart_in :: "byte list"
  uart_cfg :: "(nat \<times> byte) list"
  panicked :: bool
  pr_locking :: bool
  cons :: consbuf

abbreviation UART_TX_BUF_SIZE :: nat where "UART_TX_BUF_SIZE \<equiv> 32"

section \<open>The output ring\<close>

definition tx_full :: "txbuf \<Rightarrow> bool" where
  "tx_full t \<longleftrightarrow> tx_w t = tx_r t + of_nat UART_TX_BUF_SIZE"

definition tx_empty :: "txbuf \<Rightarrow> bool" where
  "tx_empty t \<longleftrightarrow> tx_w t = tx_r t"

definition tx_put :: "byte \<Rightarrow> txbuf \<Rightarrow> txbuf" where
  "tx_put c t = t\<lparr>tx_buf := (tx_buf t)[unat (tx_w t) mod UART_TX_BUF_SIZE := c], tx_w := tx_w t + 1\<rparr>"

definition tx_get :: "txbuf \<Rightarrow> byte \<times> txbuf" where
  "tx_get t = (tx_buf t ! (unat (tx_r t) mod UART_TX_BUF_SIZE), t\<lparr>tx_r := tx_r t + 1\<rparr>)"

section \<open>Operations\<close>

definition uartinit :: "'a devst_scheme \<Rightarrow> 'a devst_scheme" where
  "uartinit s = s\<lparr>uart_cfg := uart_cfg s @ [(1, 0), (3, 0x80), (0, 3), (1, 0), (3, 3), (2, 7), (1, 3)]\<rparr>"

text \<open>Writing \<^verbatim>\<open>THR\<close>.\<close>

definition write_thr :: "byte \<Rightarrow> 'a devst_scheme \<Rightarrow> 'a devst_scheme" where
  "write_thr c s = s\<lparr>uart_out := uart_out s @ [c], uart_room := uart_room s - 1\<rparr>"

lemma uart_room_wakeup [simp]: "uart_room (wakeup ch s) = uart_room s"
  by (simp add: wakeup_def)

function uartstart :: "'a devst_scheme \<Rightarrow> 'a devst_scheme" where
  "uartstart s =
     (if tx_empty (uart_tx s) then s
      else if uart_room s = 0 then s
      else let (c, t) = tx_get (uart_tx s)
           in uartstart (write_thr c (wakeup ChUart (s\<lparr>uart_tx := t\<rparr>))))"
  by pat_completeness auto
termination
  by (relation "measure (\<lambda>s. uart_room s)") (auto simp: write_thr_def)

declare uartstart.simps [simp del]

text \<open>After a panic the other harts spin here for ever.\<close>

definition uartputc :: "byte \<Rightarrow> 'a devst_scheme \<Rightarrow> (io \<times> 'a devst_scheme) res" where
  "uartputc c s =
     (if panicked s then Panic ''panicked''
      else if tx_full (uart_tx s) then
        rbind (sleep (the (myproc s)) ChUart s) (\<lambda>s1. Ok (Block 0, s1))
      else Ok (Ret 0, uartstart (s\<lparr>uart_tx := tx_put c (uart_tx s)\<rparr>)))"

text \<open>\<^verbatim>\<open>uartputc_sync\<close> spins until the transmitter is idle, so that it can always take the character.\<close>

definition uartputc_sync :: "byte \<Rightarrow> 'a devst_scheme \<Rightarrow> 'a devst_scheme res" where
  "uartputc_sync c s = (if panicked s then Panic ''panicked'' else Ok (write_thr c s))"

definition uartgetc :: "'a devst_scheme \<Rightarrow> int \<times> 'a devst_scheme" where
  "uartgetc s = (case uart_in s of [] \<Rightarrow> (-1, s) | c # cs \<Rightarrow> (uint c, s\<lparr>uart_in := cs\<rparr>))"

section \<open>The ring is a queue\<close>

definition tx_inv :: "txbuf \<Rightarrow> bool" where
  "tx_inv t \<longleftrightarrow> length (tx_buf t) = UART_TX_BUF_SIZE \<and> ring_ok (tx_buf t) (tx_r t) (tx_w t)"

definition tx_list :: "txbuf \<Rightarrow> byte list" where
  "tx_list t = ring_list (tx_buf t) (tx_r t) (tx_w t)"

interpretation tx: byte_fifo tx_inv UART_TX_BUF_SIZE tx_list tx_full tx_empty tx_put tx_get
proof
  fix t c assume inv: "tx_inv t"
  then have ok: "ring_ok (tx_buf t) (tx_r t) (tx_w t)" and n: "length (tx_buf t) = 32" by (simp_all add: tx_inv_def)
  show "length (tx_list t) \<le> UART_TX_BUF_SIZE" using ok n by (simp add: tx_list_def ring_ok_def)
  show f: "tx_full t \<longleftrightarrow> length (tx_list t) = UART_TX_BUF_SIZE"
    using word_eq_add_iff [of 32 "tx_w t" "tx_r t"] by (simp add: tx_full_def tx_list_def)
  show "tx_empty t \<longleftrightarrow> tx_list t = []" by (auto simp: tx_empty_def tx_list_def ring_list_empty)
  show "tx_inv (tx_put c t) \<and> tx_list (tx_put c t) = tx_list t @ [c]" if "\<not> tx_full t"
    using ring_put [OF ok, of c] that f n by (simp add: tx_put_def tx_inv_def tx_list_def)
  show "tx_inv (snd (tx_get t)) \<and> tx_list t = fst (tx_get t) # tx_list (snd (tx_get t))" if "\<not> tx_empty t"
    using ring_get [OF ok] that n by (auto simp: tx_get_def tx_inv_def tx_list_def tx_empty_def)
qed

end
