(* ===== verification/Digits.thy ===== *)
theory Digits
  imports Xv6_Prelude
begin

text \<open>
  The digits of a number in a base, least significant first, as the \<^verbatim>\<open>printint\<close> functions of the
  kernel and of the user library store them into their buffer. The table of digits is a
  parameter.
\<close>

function digits_in :: "(nat \<Rightarrow> byte) \<Rightarrow> nat \<Rightarrow> nat \<Rightarrow> byte list" where
  "digits_in dig base x = dig (x mod base) # (if x div base \<noteq> 0 \<and> 1 < base then digits_in dig base (x div base) else [])"
  by pat_completeness auto
termination
  by (relation "measure (\<lambda>(dig, base, x). x)") (auto intro!: div_less_dividend simp: div_greater_zero_iff)

declare digits_in.simps [simp del]

lemma length_digits_in:
  assumes "1 < base" "x < base ^ n" "0 < n"
  shows "length (digits_in dig base x) \<le> n"
  using assms
proof (induction dig base x arbitrary: n rule: digits_in.induct)
  case (1 dig base x)
  show ?case
  proof (cases "x div base = 0")
    case True
    with 1(4) show ?thesis by (simp add: digits_in.simps [of dig base x])
  next
    case False
    then have "base \<le> x" using 1(2) by (simp add: div_eq_0_iff)
    moreover obtain m where m: "n = Suc m" using 1(4) by (cases n) auto
    ultimately have n: "n = Suc m" "0 < m" using 1(3) by (auto intro!: gr0I)
    have "x < base ^ m * base" using 1(3) n(1) by (simp add: mult.commute)
    then have "x div base < base ^ m" using 1(2) by (simp add: less_mult_imp_div_less)
    then have "length (digits_in dig base (x div base)) \<le> m" using 1 False n by simp
    with n(1) show ?thesis using False 1(2) by (simp add: digits_in.simps [of dig base x])
  qed
qed

end
