(* ===== verification/Console.thy ===== *)
theory Console
  imports Uart Digits
begin

text \<open>
  \<^verbatim>\<open>kernel/console.c\<close>, \<^verbatim>\<open>kernel/printf.c\<close> and the interrupt half of
  \<^verbatim>\<open>kernel/uart.c\<close>: formatted kernel output, line editing of console input, and the
  console as a device file. The input buffer is one ring with three counters: read, committed
  (\<^verbatim>\<open>w\<close>) and edited (\<^verbatim>\<open>e\<close>).
\<close>

section \<open>Kernel output\<close>

abbreviation BACKSPACE :: int where "BACKSPACE \<equiv> 0x100"

definition consputc :: "int \<Rightarrow> 'a devst_scheme \<Rightarrow> 'a devst_scheme res" where
  "consputc c s =
     (if c = BACKSPACE then
        rbind (uartputc_sync 8 s) (\<lambda>s1. rbind (uartputc_sync 32 s1) (\<lambda>s2. uartputc_sync 8 s2))
      else uartputc_sync (of_int c) s)"

text \<open>The digits of \<^verbatim>\<open>printint\<close>, least significant first, as they are stored into \<^verbatim>\<open>buf\<close>.\<close>

definition digit :: "nat \<Rightarrow> byte" where
  "digit d = (if d < 10 then of_nat (48 + d) else of_nat (87 + d))"

definition digits_rev :: "nat \<Rightarrow> nat \<Rightarrow> byte list" where
  "digits_rev base x = digits_in digit base x"

definition printint_buf :: "int \<Rightarrow> nat \<Rightarrow> bool \<Rightarrow> byte list" where
  "printint_buf xx base sign =
     (let neg = (sign \<and> xx < 0);
          x = nat ((if neg then - xx else xx) mod 2 ^ 32)
      in digits_rev base x @ (if neg then [45] else []))"

definition printint :: "int \<Rightarrow> nat \<Rightarrow> bool \<Rightarrow> byte list" where
  "printint xx base sign = rev (printint_buf xx base sign)"

definition printptr :: "uint64 \<Rightarrow> byte list" where
  "printptr x = [48, 120] @ map (\<lambda>i. digit (unat (drop_bit 60 (push_bit (4 * i) x)))) [0..<16]"

text \<open>
  The variable arguments of \<^verbatim>\<open>printf\<close>. An argument that is missing or of another kind than
  its conversion is undefined behaviour (\<open>None\<close>).
\<close>

datatype varg = VInt int | VPtr uint64 | VStr "byte list option"

fun format :: "byte list \<Rightarrow> varg list \<Rightarrow> byte list option" where
  "format [] ap = Some []"
| "format [c] ap = (if c = 37 then Some [] else Some [c])"
| "format (c # d # fmt) ap =
     (if c \<noteq> 37 then map_option ((#) c) (format (d # fmt) ap)
      else if d = 100 then
        (case ap of VInt n # ap' \<Rightarrow> map_option ((@) (printint n 10 True)) (format fmt ap') | _ \<Rightarrow> None)
      else if d = 120 then
        (case ap of VInt n # ap' \<Rightarrow> map_option ((@) (printint n 16 True)) (format fmt ap') | _ \<Rightarrow> None)
      else if d = 112 then
        (case ap of VPtr p # ap' \<Rightarrow> map_option ((@) (printptr p)) (format fmt ap') | _ \<Rightarrow> None)
      else if d = 115 then
        (case ap of
           VStr None # ap' \<Rightarrow> map_option ((@) [40, 110, 117, 108, 108, 41]) (format fmt ap')
         | VStr (Some str) # ap' \<Rightarrow> map_option ((@) str) (format fmt ap')
         | _ \<Rightarrow> None)
      else if d = 37 then map_option ((#) 37) (format fmt ap)
      else map_option ((@) [37, d]) (format fmt ap))"

definition printf :: "byte list \<Rightarrow> varg list \<Rightarrow> 'a devst_scheme \<Rightarrow> 'a devst_scheme res" where
  "printf fmt ap s =
     (case format fmt ap of
        None \<Rightarrow> Panic ''printf: va_arg''
      | Some out \<Rightarrow> rfold (\<lambda>c. consputc (uint c)) out s)"

definition printfinit :: "'a devst_scheme \<Rightarrow> 'a devst_scheme" where
  "printfinit s = s\<lparr>pr_locking := True\<rparr>"

definition bstr :: "string \<Rightarrow> byte list" where
  "bstr cs = map (\<lambda>c. of_nat (of_char c)) cs"

text \<open>What \<^verbatim>\<open>panic\<close> leaves behind when it starts to spin.\<close>

definition panic :: "byte list \<Rightarrow> 'a devst_scheme \<Rightarrow> 'a devst_scheme res" where
  "panic msg s =
     rbind (printf (bstr ''panic: '') [] (s\<lparr>pr_locking := False\<rparr>)) (\<lambda>s1.
     rbind (printf msg [] s1) (\<lambda>s2.
     rbind (printf [10] [] s2) (\<lambda>s3. Ok (s3\<lparr>panicked := True\<rparr>))))"

text \<open>\<^verbatim>\<open>procdump\<close> of \<^verbatim>\<open>kernel/proc.c\<close>; its table of names has no entry for \<^verbatim>\<open>USED\<close>.\<close>

fun state_name :: "procstate \<Rightarrow> byte list" where
  "state_name UNUSED = bstr ''unused''"
| "state_name SLEEPING = bstr ''sleep ''"
| "state_name RUNNABLE = bstr ''runble''"
| "state_name RUNNING = bstr ''run   ''"
| "state_name ZOMBIE = bstr ''zombie''"
| "state_name USED = bstr ''???''"

definition procdump :: "'a devst_scheme \<Rightarrow> 'a devst_scheme res" where
  "procdump s =
     rbind (printf [10] [] s) (\<lambda>s1.
       rfold (\<lambda>p s.
           if p_state p = UNUSED then Ok s
           else rbind (printf (bstr ''%d %s %s'')
                    [VInt (p_pid p), VStr (Some (state_name (p_state p))), VStr (Some (cstr (p_name p)))] s)
                  (\<lambda>s1. printf [10] [] s1))
         (procs s1) s1)"

section \<open>Console input\<close>

abbreviation INPUT_BUF :: nat where "INPUT_BUF \<equiv> 128"

definition cons_at :: "uint32 \<Rightarrow> consbuf \<Rightarrow> byte" where
  "cons_at i cb = c_buf cb ! (unat i mod INPUT_BUF)"

definition upd_cons :: "(consbuf \<Rightarrow> consbuf) \<Rightarrow> 'a devst_scheme \<Rightarrow> 'a devst_scheme" where
  "upd_cons f s = s\<lparr>cons := f (cons s)\<rparr>"

text \<open>The loop of Control-U.\<close>

lemma consputc_cons: "consputc c s = Ok s' \<Longrightarrow> cons s' = cons s"
  by (auto simp: consputc_def uartputc_sync_def write_thr_def split: if_splits)

function kill_line :: "'a devst_scheme \<Rightarrow> 'a devst_scheme res" where
  "kill_line s =
     (let cb = cons s in
      if c_e cb \<noteq> c_w cb \<and> cons_at (c_e cb - 1) cb \<noteq> 10 then
        rbind (consputc BACKSPACE (upd_cons (\<lambda>cb. cb\<lparr>c_e := c_e cb - 1\<rparr>) s)) (\<lambda>s1. kill_line s1)
      else Ok s)"
  by pat_completeness auto
termination
proof (relation "measure (\<lambda>s. unat (c_e (cons s) - c_w (cons s)))", goal_cases)
  case (2 s cb s1)
  then have c: "cons s1 = (cons s)\<lparr>c_e := c_e (cons s) - 1\<rparr>"
    by (auto dest!: consputc_cons simp: upd_cons_def)
  have "c_e (cons s) - c_w (cons s) \<noteq> 0" using 2 by auto
  then have "unat (c_e (cons s) - c_w (cons s) - 1) < unat (c_e (cons s) - c_w (cons s))"
    by (simp add: unat_minus_one unat_gt_0)
  then show ?case by (simp add: c algebra_simps)
qed simp

declare kill_line.simps [simp del]

definition store_char :: "byte \<Rightarrow> consbuf \<Rightarrow> consbuf" where
  "store_char c cb = cb\<lparr>c_buf := (c_buf cb)[unat (c_e cb) mod INPUT_BUF := c], c_e := c_e cb + 1\<rparr>"

definition consoleintr :: "byte \<Rightarrow> 'a devst_scheme \<Rightarrow> 'a devst_scheme res" where
  "consoleintr c s =
     (if c = 16 then procdump s
      else if c = 21 then kill_line s
      else if c = 8 \<or> c = 0x7f then
        (if c_e (cons s) \<noteq> c_w (cons s)
         then consputc BACKSPACE (upd_cons (\<lambda>cb. cb\<lparr>c_e := c_e cb - 1\<rparr>) s)
         else Ok s)
      else if c \<noteq> 0 \<and> c_e (cons s) - c_r (cons s) < of_nat INPUT_BUF then
        let c = (if c = 13 then 10 else c) in
        rbind (consputc (uint c) s) (\<lambda>s1.
          let s2 = upd_cons (store_char c) s1 in
          if c = 10 \<or> c = 4 \<or> c_e (cons s2) = c_r (cons s2) + of_nat INPUT_BUF
          then Ok (wakeup ChCons (upd_cons (\<lambda>cb. cb\<lparr>c_w := c_e cb\<rparr>) s2))
          else Ok s2)
      else Ok s)"

text \<open>\<^verbatim>\<open>uartintr\<close>: all waiting input characters, then more output.\<close>

fun uart_input :: "byte list \<Rightarrow> 'a devst_scheme \<Rightarrow> 'a devst_scheme res" where
  "uart_input [] s = Ok s"
| "uart_input (c # cs) s = rbind (consoleintr c (s\<lparr>uart_in := cs\<rparr>)) (\<lambda>s1. uart_input cs s1)"

definition uartintr :: "'a devst_scheme \<Rightarrow> 'a devst_scheme res" where
  "uartintr s = rbind (uart_input (uart_in s) s) (\<lambda>s1. Ok (uartstart s1))"

section \<open>The console as a file\<close>

text \<open>\<open>Block i\<close> of \<^verbatim>\<open>consolewrite\<close>: \<^verbatim>\<open>uartputc\<close> sleeps on character \<open>i\<close>.\<close>

function consolewrite_loop :: "bool \<Rightarrow> uint64 \<Rightarrow> int \<Rightarrow> int \<Rightarrow> 'a devst_scheme \<Rightarrow> (io \<times> 'a devst_scheme) res" where
  "consolewrite_loop user_src src n i s =
     (if i < n then
        let (r, bs) = either_copyin user_src (src + of_int i) 1 s in
        if r = -1 then Ok (Ret i, s)
        else rbind (uartputc (hd bs) s) (\<lambda>(x, s1).
          case x of Ret _ \<Rightarrow> consolewrite_loop user_src src n (i + 1) s1 | Block _ \<Rightarrow> Ok (Block i, s1))
      else Ok (Ret i, s))"
  by pat_completeness auto
termination
  by (relation "measure (\<lambda>(user_src, src, n, i, s). nat (n - i))") auto

declare consolewrite_loop.simps [simp del]

definition consolewrite :: "bool \<Rightarrow> uint64 \<Rightarrow> int \<Rightarrow> 'a devst_scheme \<Rightarrow> (io \<times> 'a devst_scheme) res" where
  "consolewrite user_src src n s = consolewrite_loop user_src src n 0 s"

text \<open>\<open>Block n\<close> of \<^verbatim>\<open>consoleread\<close>: it sleeps with \<open>n\<close> bytes still to read.\<close>

function consoleread_loop :: "bool \<Rightarrow> uint64 \<Rightarrow> int \<Rightarrow> int \<Rightarrow> 'a devst_scheme \<Rightarrow> (io \<times> 'a devst_scheme) res" where
  "consoleread_loop user_dst dst n target s =
     (if n > 0 then
        let cb = cons s; p = the (myproc s) in
        if c_r cb = c_w cb then
          (if p_killed (procs s ! p) then Ok (Ret (-1), s)
           else rbind (sleep p ChCons s) (\<lambda>s1. Ok (Block n, s1)))
        else
          let c = cons_at (c_r cb) cb; s1 = upd_cons (\<lambda>cb. cb\<lparr>c_r := c_r cb + 1\<rparr>) s in
          if c = 4 then
            Ok (Ret (target - n), if n < target then upd_cons (\<lambda>cb. cb\<lparr>c_r := c_r cb - 1\<rparr>) s1 else s1)
          else
            let (r, s2) = either_copyout user_dst dst [c] s1 in
            if r = -1 then Ok (Ret (target - n), s2)
            else if c = 10 then Ok (Ret (target - (n - 1)), s2)
            else consoleread_loop user_dst (dst + 1) (n - 1) target s2
      else Ok (Ret (target - n), s))"
  by pat_completeness auto
termination
  by (relation "measure (\<lambda>(user_dst, dst, n, target, s). nat n)") auto

declare consoleread_loop.simps [simp del]

definition consoleread :: "bool \<Rightarrow> uint64 \<Rightarrow> int \<Rightarrow> 'a devst_scheme \<Rightarrow> (io \<times> 'a devst_scheme) res" where
  "consoleread user_dst dst n s = consoleread_loop user_dst dst n n s"

end
