(* ===== verification/Pipe.thy ===== *)
theory Pipe
  imports Console
begin

text \<open>
  \<^verbatim>\<open>kernel/pipe.c\<close> but for \<^verbatim>\<open>pipealloc\<close>, which is with the file table. A pipe is the
  structure in the page at its address: \<open>pipes\<close> maps the addresses of live pipes to their
  fields. \<^verbatim>\<open>nread\<close> and \<^verbatim>\<open>nwrite\<close> are free-running 32-bit counters.
\<close>

section \<open>State\<close>

record pipe =
  pi_data :: "byte list"
  pi_nread :: uint32
  pi_nwrite :: uint32
  pi_readopen :: bool
  pi_writeopen :: bool

datatype filetype = FD_NONE | FD_PIPE | FD_INODE | FD_DEVICE

record openfile =
  f_type :: filetype
  f_ref :: int
  f_readable :: bool
  f_writable :: bool
  f_pipe :: uint64
  f_ip :: nat
  f_off :: nat
  f_major :: int

text \<open>The devices of \<^verbatim>\<open>devsw\<close>: the console is the only driver the kernel has.\<close>

datatype device = DevConsole

record filest = devst +
  pipes :: "uint64 \<Rightarrow> pipe option"
  ftable :: "openfile list"
  devsw :: "device option list"

abbreviation PIPESIZE :: nat where "PIPESIZE \<equiv> 512"

definition upd_pipe :: "uint64 \<Rightarrow> (pipe \<Rightarrow> pipe) \<Rightarrow> 'a filest_scheme \<Rightarrow> 'a filest_scheme" where
  "upd_pipe pi f s = s\<lparr>pipes := (pipes s)(pi := map_option f (pipes s pi))\<rparr>"

section \<open>The ring\<close>

definition pipe_full :: "pipe \<Rightarrow> bool" where
  "pipe_full p \<longleftrightarrow> pi_nwrite p = pi_nread p + of_nat PIPESIZE"

definition pipe_empty :: "pipe \<Rightarrow> bool" where
  "pipe_empty p \<longleftrightarrow> pi_nread p = pi_nwrite p"

definition pipe_put :: "byte \<Rightarrow> pipe \<Rightarrow> pipe" where
  "pipe_put c p = p\<lparr>pi_data := (pi_data p)[unat (pi_nwrite p) mod PIPESIZE := c], pi_nwrite := pi_nwrite p + 1\<rparr>"

definition pipe_get :: "pipe \<Rightarrow> byte \<times> pipe" where
  "pipe_get p = (pi_data p ! (unat (pi_nread p) mod PIPESIZE), p\<lparr>pi_nread := pi_nread p + 1\<rparr>)"

section \<open>Operations\<close>

definition pipeclose :: "uint64 \<Rightarrow> bool \<Rightarrow> 'a filest_scheme \<Rightarrow> 'a filest_scheme res" where
  "pipeclose pi writable s =
     (let s1 = (if writable then wakeup (ChPipeRead pi) (upd_pipe pi (\<lambda>p. p\<lparr>pi_writeopen := False\<rparr>) s)
                else wakeup (ChPipeWrite pi) (upd_pipe pi (\<lambda>p. p\<lparr>pi_readopen := False\<rparr>) s));
          p = the (pipes s1 pi)
      in if \<not> pi_readopen p \<and> \<not> pi_writeopen p
         then kfree pi (s1\<lparr>pipes := (pipes s1)(pi := None)\<rparr>)
         else Ok s1)"

text \<open>\<open>Block i\<close> of \<^verbatim>\<open>pipewrite\<close>: the pipe is full when byte \<open>i\<close> is to be written.\<close>

function pipewrite_loop :: "uint64 \<Rightarrow> uint64 \<Rightarrow> int \<Rightarrow> int \<Rightarrow> 'a filest_scheme \<Rightarrow> (io \<times> 'a filest_scheme) res" where
  "pipewrite_loop pi addr n i s =
     (if i < n then
        let pr = the (myproc s); p = the (pipes s pi) in
        if \<not> pi_readopen p \<or> p_killed (procs s ! pr) then Ok (Ret (-1), s)
        else if pipe_full p then
          rbind (sleep pr (ChPipeWrite pi) (wakeup (ChPipeRead pi) s)) (\<lambda>s1. Ok (Block i, s1))
        else
          let (r, bs) = copyin (p_pagetable (procs s ! pr)) (addr + of_int i) 1 s in
          if r = -1 then Ok (Ret i, wakeup (ChPipeRead pi) s)
          else pipewrite_loop pi addr n (i + 1) (upd_pipe pi (pipe_put (hd bs)) s)
      else Ok (Ret i, wakeup (ChPipeRead pi) s))"
  by pat_completeness auto
termination
  by (relation "measure (\<lambda>(pi, addr, n, i, s). nat (n - i))") auto

declare pipewrite_loop.simps [simp del]

definition pipewrite :: "uint64 \<Rightarrow> uint64 \<Rightarrow> int \<Rightarrow> 'a filest_scheme \<Rightarrow> (io \<times> 'a filest_scheme) res" where
  "pipewrite pi addr n s = pipewrite_loop pi addr n 0 s"

function piperead_loop :: "uint64 \<Rightarrow> uint64 \<Rightarrow> int \<Rightarrow> int \<Rightarrow> 'a filest_scheme \<Rightarrow> int \<times> 'a filest_scheme" where
  "piperead_loop pi addr n i s =
     (if i < n then
        let pr = the (myproc s); p = the (pipes s pi) in
        if pipe_empty p then (i, s)
        else
          let (ch, p1) = pipe_get p; s1 = upd_pipe pi (\<lambda>_. p1) s;
              (r, s2) = copyout (p_pagetable (procs s ! pr)) (addr + of_int i) [ch] s1
          in if r = -1 then (i, s2) else piperead_loop pi addr n (i + 1) s2
      else (i, s))"
  by pat_completeness auto
termination
  by (relation "measure (\<lambda>(pi, addr, n, i, s). nat (n - i))") auto

declare piperead_loop.simps [simp del]

text \<open>\<open>Block 0\<close> of \<^verbatim>\<open>piperead\<close>: the pipe is empty; the call starts over when woken.\<close>

definition piperead :: "uint64 \<Rightarrow> uint64 \<Rightarrow> int \<Rightarrow> 'a filest_scheme \<Rightarrow> (io \<times> 'a filest_scheme) res" where
  "piperead pi addr n s =
     (let pr = the (myproc s); p = the (pipes s pi) in
      if pipe_empty p \<and> pi_writeopen p then
        (if p_killed (procs s ! pr) then Ok (Ret (-1), s)
         else rbind (sleep pr (ChPipeRead pi) s) (\<lambda>s1. Ok (Block 0, s1)))
      else let (i, s1) = piperead_loop pi addr n 0 s in Ok (Ret i, wakeup (ChPipeWrite pi) s1))"

section \<open>The ring is a queue\<close>

definition pipe_inv :: "pipe \<Rightarrow> bool" where
  "pipe_inv p \<longleftrightarrow> length (pi_data p) = PIPESIZE \<and> ring_ok (pi_data p) (pi_nread p) (pi_nwrite p)"

definition pipe_list :: "pipe \<Rightarrow> byte list" where
  "pipe_list p = ring_list (pi_data p) (pi_nread p) (pi_nwrite p)"

interpretation pq: byte_fifo pipe_inv PIPESIZE pipe_list pipe_full pipe_empty pipe_put pipe_get
proof
  fix p c assume inv: "pipe_inv p"
  then have ok: "ring_ok (pi_data p) (pi_nread p) (pi_nwrite p)" and n: "length (pi_data p) = 512"
    by (simp_all add: pipe_inv_def)
  show "length (pipe_list p) \<le> PIPESIZE" using ok n by (simp add: pipe_list_def ring_ok_def)
  show f: "pipe_full p \<longleftrightarrow> length (pipe_list p) = PIPESIZE"
    using word_eq_add_iff [of 512 "pi_nwrite p" "pi_nread p"] by (simp add: pipe_full_def pipe_list_def)
  show "pipe_empty p \<longleftrightarrow> pipe_list p = []" by (simp add: pipe_empty_def pipe_list_def ring_list_empty)
  show "pipe_inv (pipe_put c p) \<and> pipe_list (pipe_put c p) = pipe_list p @ [c]" if "\<not> pipe_full p"
    using ring_put [OF ok, of c] that f n by (simp add: pipe_put_def pipe_inv_def pipe_list_def)
  show "pipe_inv (snd (pipe_get p)) \<and> pipe_list p = fst (pipe_get p) # pipe_list (snd (pipe_get p))" if "\<not> pipe_empty p"
    using ring_get [OF ok] that n by (auto simp: pipe_get_def pipe_inv_def pipe_list_def pipe_empty_def)
qed

end
