(* ===== verification/File.thy ===== *)
theory File
  imports Pipe
begin

text \<open>
  \<^verbatim>\<open>kernel/file.c\<close> and \<^verbatim>\<open>pipealloc\<close>: the table of open files. A
  \<^verbatim>\<open>struct file *\<close> is an index into \<open>ftable\<close>.
\<close>

definition upd_file :: "nat \<Rightarrow> (openfile \<Rightarrow> openfile) \<Rightarrow> 'a filest_scheme \<Rightarrow> 'a filest_scheme" where
  "upd_file f g s = s\<lparr>ftable := (ftable s)[f := g (ftable s ! f)]\<rparr>"

definition consoleinit :: "'a filest_scheme \<Rightarrow> 'a filest_scheme" where
  "consoleinit s = (uartinit s)\<lparr>devsw := (devsw s)[1 := Some DevConsole]\<rparr>"

definition filealloc :: "'a filest_scheme \<Rightarrow> nat option \<times> 'a filest_scheme" where
  "filealloc s =
     (case find_index (\<lambda>f. f_ref f = 0) (ftable s) of
        None \<Rightarrow> (None, s)
      | Some f \<Rightarrow> (Some f, upd_file f (\<lambda>x. x\<lparr>f_ref := 1\<rparr>) s))"

definition filedup :: "nat \<Rightarrow> 'a filest_scheme \<Rightarrow> 'a filest_scheme res" where
  "filedup f s =
     (if f_ref (ftable s ! f) < 1 then Panic ''filedup''
      else Ok (upd_file f (\<lambda>x. x\<lparr>f_ref := f_ref x + 1\<rparr>) s))"

definition fileclose :: "nat \<Rightarrow> 'a filest_scheme \<Rightarrow> 'a filest_scheme res" where
  "fileclose f s =
     (let ff = ftable s ! f in
      if f_ref ff < 1 then Panic ''fileclose''
      else if f_ref ff - 1 > 0 then Ok (upd_file f (\<lambda>x. x\<lparr>f_ref := f_ref x - 1\<rparr>) s)
      else
        let s1 = upd_file f (\<lambda>x. x\<lparr>f_ref := 0, f_type := FD_NONE\<rparr>) s in
        case f_type ff of
          FD_PIPE \<Rightarrow> pipeclose (f_pipe ff) (f_writable ff) s1
        | FD_INODE \<Rightarrow> rbind (begin_op s1) (\<lambda>s2. rbind (iput (f_ip ff) s2) (\<lambda>s3. end_op s3))
        | FD_DEVICE \<Rightarrow> rbind (begin_op s1) (\<lambda>s2. rbind (iput (f_ip ff) s2) (\<lambda>s3. end_op s3))
        | FD_NONE \<Rightarrow> Ok s1)"

text \<open>\<^verbatim>\<open>bad:\<close> of \<^verbatim>\<open>pipealloc\<close> is reached before the page is allocated, so that there is none to free.\<close>

definition close_opt :: "nat option \<Rightarrow> 'a filest_scheme \<Rightarrow> 'a filest_scheme res" where
  "close_opt f s = (case f of None \<Rightarrow> Ok s | Some f \<Rightarrow> fileclose f s)"

definition new_pipe :: "byte list \<Rightarrow> pipe" where
  "new_pipe junk = \<lparr>pi_data = junk, pi_nread = 0, pi_nwrite = 0, pi_readopen = True, pi_writeopen = True\<rparr>"

definition pipealloc :: "'a filest_scheme \<Rightarrow> ((nat \<times> nat) option \<times> 'a filest_scheme) res" where
  "pipealloc s =
     (let (f0, s1) = filealloc s;
          (f1, s2) = (if f0 = None then (None, s1) else filealloc s1);
          (pi, s3) = (if f1 = None then (0, s2) else kalloc s2)
      in if pi = 0 then rbind (close_opt f0 s3) (\<lambda>s4. rbind (close_opt f1 s4) (\<lambda>s5. Ok (None, s5)))
         else
           let s4 = s3\<lparr>pipes := (pipes s3)(pi := Some (new_pipe (replicate PIPESIZE 5)))\<rparr>;
               s5 = upd_file (the f0) (\<lambda>x. x\<lparr>f_type := FD_PIPE, f_readable := True, f_writable := False, f_pipe := pi\<rparr>) s4;
               s6 = upd_file (the f1) (\<lambda>x. x\<lparr>f_type := FD_PIPE, f_readable := False, f_writable := True, f_pipe := pi\<rparr>) s5
           in Ok (Some (the f0, the f1), s6))"

text \<open>\<^verbatim>\<open>struct stat\<close> is 24 bytes; the four bytes of padding are zero here.\<close>

definition enc_stat :: "stat \<Rightarrow> byte list" where
  "enc_stat st = le_bytes 4 (st_dev st) @ le_bytes 4 (st_ino st) @ bytes16 (st_type st) @ bytes16 (st_nlink st) @
     replicate 4 0 @ le_bytes 8 (st_size st)"

definition filestat :: "nat \<Rightarrow> uint64 \<Rightarrow> 'a filest_scheme \<Rightarrow> (int \<times> 'a filest_scheme) res" where
  "filestat f addr s =
     (let ff = ftable s ! f in
      if f_type ff = FD_INODE \<or> f_type ff = FD_DEVICE then
        rbind (ilock (f_ip ff) s) (\<lambda>s1.
          let st = stati (f_ip ff) s1 in
          rbind (iunlock (f_ip ff) s1) (\<lambda>s2.
            let (r, s3) = copyout (p_pagetable (procs s2 ! the (myproc s2))) addr (enc_stat st) s2
            in Ok (if r < 0 then -1 else 0, s3)))
      else Ok (-1, s))"

definition no_device :: "int \<Rightarrow> 'a filest_scheme \<Rightarrow> bool" where
  "no_device major s \<longleftrightarrow> major < 0 \<or> major \<ge> 10 \<or> devsw s ! nat major = None"

definition fileread :: "nat \<Rightarrow> uint64 \<Rightarrow> int \<Rightarrow> 'a filest_scheme \<Rightarrow> (io \<times> 'a filest_scheme) res" where
  "fileread f addr n s =
     (let ff = ftable s ! f in
      if \<not> f_readable ff then Ok (Ret (-1), s)
      else case f_type ff of
        FD_PIPE \<Rightarrow> piperead (f_pipe ff) addr n s
      | FD_DEVICE \<Rightarrow>
          if no_device (f_major ff) s then Ok (Ret (-1), s)
          else consoleread True addr n s
      | FD_INODE \<Rightarrow>
          rbind (ilock (f_ip ff) s) (\<lambda>s1.
          rbind (readi (f_ip ff) (ToUser addr) (f_off ff) (nat (n mod 2 ^ 32)) s1) (\<lambda>(r, _, s2).
            let s3 = (if r > 0 then upd_file f (\<lambda>x. x\<lparr>f_off := (f_off x + nat r) mod 2 ^ 32\<rparr>) s2 else s2) in
            rbind (iunlock (f_ip ff) s3) (\<lambda>s4. Ok (Ret r, s4))))
      | FD_NONE \<Rightarrow> Panic ''fileread'')"

text \<open>
  The loop of \<^verbatim>\<open>filewrite\<close>: each chunk is a transaction of its own. The result is \<^verbatim>\<open>i\<close>.
\<close>

function filewrite_loop :: "nat \<Rightarrow> uint64 \<Rightarrow> int \<Rightarrow> int \<Rightarrow> 'a filest_scheme \<Rightarrow> (int \<times> 'a filest_scheme) res" where
  "filewrite_loop f addr n i s =
     (if i < n then
        let n1 = min (n - i) (int (((MAXOPBLOCKS - 1 - 1 - 2) div 2) * BSIZE)); ip = f_ip (ftable s ! f) in
        rbind (begin_op s) (\<lambda>s1.
        rbind (ilock ip s1) (\<lambda>s2.
        rbind (writei ip (FromUser (addr + of_int i)) (f_off (ftable s2 ! f)) (nat n1) s2) (\<lambda>(r, s3).
          let s4 = (if r > 0 then upd_file f (\<lambda>x. x\<lparr>f_off := (f_off x + nat r) mod 2 ^ 32\<rparr>) s3 else s3) in
          rbind (iunlock ip s4) (\<lambda>s5.
          rbind (end_op s5) (\<lambda>s6.
            if r \<noteq> n1 then Ok (i, s6) else filewrite_loop f addr n (i + n1) s6)))))
      else Ok (i, s))"
  by pat_completeness auto
termination
  by (relation "measure (\<lambda>(f, addr, n, i, s). nat (n - i))") (auto simp: min_def)

declare filewrite_loop.simps [simp del]

definition filewrite :: "nat \<Rightarrow> uint64 \<Rightarrow> int \<Rightarrow> 'a filest_scheme \<Rightarrow> (io \<times> 'a filest_scheme) res" where
  "filewrite f addr n s =
     (let ff = ftable s ! f in
      if \<not> f_writable ff then Ok (Ret (-1), s)
      else case f_type ff of
        FD_PIPE \<Rightarrow> pipewrite (f_pipe ff) addr n s
      | FD_DEVICE \<Rightarrow>
          if no_device (f_major ff) s then Ok (Ret (-1), s)
          else consolewrite True addr n s
      | FD_INODE \<Rightarrow>
          rbind (filewrite_loop f addr n 0 s) (\<lambda>(i, s1). Ok (Ret (if i = n then n else -1), s1))
      | FD_NONE \<Rightarrow> Panic ''filewrite'')"

end
