(* ===== verification/Vma.thy ===== *)
theory Vma
  imports File
begin

text \<open>
  Memory-mapped files: \<^verbatim>\<open>vma_fault\<close>, \<^verbatim>\<open>vma_unmap\<close> and \<^verbatim>\<open>vma_unmap_all\<close>
  of \<^verbatim>\<open>kernel/proc.c\<close>. A \<^verbatim>\<open>struct vma *\<close> is a process and an index into its
  \<open>p_vmas\<close>.
\<close>

abbreviation PROT_READ :: uint32 where "PROT_READ \<equiv> 1"
abbreviation PROT_WRITE :: uint32 where "PROT_WRITE \<equiv> 2"
abbreviation PROT_EXEC :: uint32 where "PROT_EXEC \<equiv> 4"
abbreviation MAP_SHARED :: uint32 where "MAP_SHARED \<equiv> 1"
abbreviation MAP_PRIVATE :: uint32 where "MAP_PRIVATE \<equiv> 2"

definition upd_vma :: "nat \<Rightarrow> nat \<Rightarrow> (vma \<Rightarrow> vma) \<Rightarrow> 'a pstate_scheme \<Rightarrow> 'a pstate_scheme" where
  "upd_vma p i f s = upd_proc p (\<lambda>q. q\<lparr>p_vmas := (p_vmas q)[i := f (p_vmas q ! i)]\<rparr>) s"

definition vma_of :: "nat \<Rightarrow> nat \<Rightarrow> 'a pstate_scheme \<Rightarrow> vma" where
  "vma_of p i s = p_vmas (procs s ! p) ! i"

text \<open>\<^verbatim>\<open>v->file->ip\<close>, and the file offset of the page at \<open>va\<close>, converted to \<^verbatim>\<open>uint\<close>.\<close>

definition vma_ip :: "vma \<Rightarrow> 'a filest_scheme \<Rightarrow> nat" where
  "vma_ip v s = f_ip (ftable s ! the (v_file v))"

definition vma_off :: "vma \<Rightarrow> uint64 \<Rightarrow> nat" where
  "vma_off v va = unat (v_offset v + (va - v_addr v)) mod 2 ^ 32"

section \<open>Page faults\<close>

definition vma_perm :: "uint32 \<Rightarrow> uint64" where
  "vma_perm prot =
     PTE_U OR (if prot AND PROT_READ \<noteq> 0 then PTE_R else 0)
           OR (if prot AND PROT_WRITE \<noteq> 0 then PTE_R OR PTE_W else 0)
           OR (if prot AND PROT_EXEC \<noteq> 0 then PTE_X else 0)"

definition vma_denied :: "uint32 \<Rightarrow> uint64 \<Rightarrow> bool" where
  "vma_denied prot cause \<longleftrightarrow>
     (cause = 12 \<and> prot AND PROT_EXEC = 0) \<or> (cause = 13 \<and> prot AND PROT_READ = 0) \<or>
     (cause = 15 \<and> prot AND PROT_WRITE = 0)"

definition vma_fault :: "nat \<Rightarrow> uint64 \<Rightarrow> uint64 \<Rightarrow> 'a filest_scheme \<Rightarrow> (int \<times> 'a filest_scheme) res" where
  "vma_fault p faultva cause s =
     (case find_index (\<lambda>v. v_used v \<and> faultva \<ge> v_addr v \<and> faultva < v_addr v + v_length v) (p_vmas (procs s ! p)) of
        None \<Rightarrow> Ok (-1, s)
      | Some i \<Rightarrow>
          let v = vma_of p i s; pt = p_pagetable (procs s ! p); va = PGROUNDDOWN faultva in
          if vma_denied (v_prot v) cause then Ok (-1, s)
          else
            rbind (walk pt va False s) (\<lambda>(pte, s1).
              if (case pte of Some a \<Rightarrow> load64 (mem s1) a AND PTE_V \<noteq> 0 | None \<Rightarrow> False) then Ok (-1, s1)
              else
                let (pg, s2) = kalloc s1 in
                if pg = 0 then Ok (-1, s2)
                else
                  let s3 = s2\<lparr>mem := memset pg 0 4096 (mem s2)\<rparr> in
                  rbind (ilock (vma_ip v s3) s3) (\<lambda>s4.
                  rbind (readi (vma_ip v s4) (ToKernel pg) (vma_off v va) 4096 s4) (\<lambda>(n, _, s5).
                  rbind (iunlock (vma_ip v s5) s5) (\<lambda>s6.
                    if n < 0 then rbind (kfree pg s6) (\<lambda>s7. Ok (-1, s7))
                    else
                      rbind (mappages pt va PGSIZE pg (vma_perm (v_prot v)) s6) (\<lambda>(r, s7).
                        if r < 0 then rbind (kfree pg s7) (\<lambda>s8. Ok (-1, s8)) else Ok (0, s7)))))))"

section \<open>Unmapping\<close>

text \<open>One round of the loop of \<^verbatim>\<open>vma_unmap\<close>: the page at \<open>va\<close>; the pair carries \<^verbatim>\<open>error\<close>.\<close>

definition vma_unmap_page :: "nat \<Rightarrow> nat \<Rightarrow> uint64 \<Rightarrow> int \<times> 'a filest_scheme \<Rightarrow> (int \<times> 'a filest_scheme) res" where
  "vma_unmap_page p i va = (\<lambda>(error, s).
     let pt = p_pagetable (procs s ! p) in
     rbind (walk pt va False s) (\<lambda>(pte, s1).
       case pte of
         None \<Rightarrow> Ok (error, s1)
       | Some a \<Rightarrow>
           let e = load64 (mem s1) a; v = vma_of p i s1 in
           if e AND PTE_V = 0 then Ok (error, s1)
           else
             rbind (if v_flags v = MAP_SHARED \<and> v_prot v AND PROT_WRITE \<noteq> 0 then
                 rbind (begin_op s1) (\<lambda>s2.
                 rbind (ilock (vma_ip v s2) s2) (\<lambda>s3.
                 rbind (writei (vma_ip v s3) (FromKernel (PTE2PA e)) (vma_off v va) 4096 s3) (\<lambda>(n, s4).
                   let error1 = (if n \<noteq> 4096 then -1 else error) in
                   rbind (iunlock (vma_ip v s4) s4) (\<lambda>s5.
                   rbind (end_op s5) (\<lambda>s6. Ok (error1, s6))))))
               else Ok (error, s1))
             (\<lambda>(error1, s7). rbind (uvmunmap pt va 1 True s7) (\<lambda>s8. Ok (error1, s8)))))"

definition vma_unmap :: "nat \<Rightarrow> uint64 \<Rightarrow> uint64 \<Rightarrow> 'a filest_scheme \<Rightarrow> (int \<times> 'a filest_scheme) res" where
  "vma_unmap p addr len0 s =
     (if addr mod PGSIZE \<noteq> 0 \<or> len0 = 0 \<or> len0 > MAXVA then Ok (-1, s)
      else let len = PGROUNDUP len0; fin = addr + len in
        if fin < addr then Ok (-1, s)
        else case find_index (\<lambda>v. v_used v \<and> addr \<ge> v_addr v \<and> fin \<le> v_addr v + v_length v) (p_vmas (procs s ! p)) of
          None \<Rightarrow> Ok (-1, s)
        | Some i \<Rightarrow>
            let v = vma_of p i s in
            if addr \<noteq> v_addr v \<and> fin \<noteq> v_addr v + v_length v then Ok (-1, s)
            else
              rbind (rfold (\<lambda>k. vma_unmap_page p i (addr + of_nat k * PGSIZE)) [0..<unat len div 4096] (0, s)) (\<lambda>(error, s1).
                let v = vma_of p i s1 in
                if addr = v_addr v \<and> fin = v_addr v + v_length v then
                  rbind (fileclose (the (v_file v)) s1) (\<lambda>s2. Ok (error, upd_vma p i (\<lambda>_. vma0) s2))
                else if addr = v_addr v then
                  Ok (error, upd_vma p i (\<lambda>v. v\<lparr>v_addr := fin, v_offset := v_offset v + len, v_length := v_length v - len\<rparr>) s1)
                else Ok (error, upd_vma p i (\<lambda>v. v\<lparr>v_length := v_length v - len\<rparr>) s1)))"

definition vma_unmap_all :: "nat \<Rightarrow> 'a filest_scheme \<Rightarrow> 'a filest_scheme res" where
  "vma_unmap_all p s =
     rfold (\<lambda>i s. let v = vma_of p i s in
       if v_used v then rbind (vma_unmap p (v_addr v) (v_length v) s) (\<lambda>(_, s1). Ok s1) else Ok s) [0..<16] s"

end
