(* ===== verification/Procops.thy ===== *)
theory Procops
  imports Vma
begin

text \<open>
  The operations of \<^verbatim>\<open>kernel/proc.c\<close> that also touch files: \<^verbatim>\<open>fork\<close>, \<^verbatim>\<open>exit\<close>
  and \<^verbatim>\<open>userinit\<close>. The trapframe of a process is the structure at its physical address; its
  fields are at the offsets given in \<^verbatim>\<open>kernel/proc.h\<close>.
\<close>

definition tf_get :: "nat \<Rightarrow> nat \<Rightarrow> 'a pstate_scheme \<Rightarrow> uint64" where
  "tf_get p off s = load64 (mem s) (p_trapframe (procs s ! p) + of_nat off)"

definition tf_set :: "nat \<Rightarrow> nat \<Rightarrow> uint64 \<Rightarrow> 'a pstate_scheme \<Rightarrow> 'a pstate_scheme" where
  "tf_set p off v s = s\<lparr>mem := store64 (p_trapframe (procs s ! p) + of_nat off) v (mem s)\<rparr>"

abbreviation TF_KERNEL_SATP :: nat where "TF_KERNEL_SATP \<equiv> 0"
abbreviation TF_KERNEL_SP :: nat where "TF_KERNEL_SP \<equiv> 8"
abbreviation TF_KERNEL_TRAP :: nat where "TF_KERNEL_TRAP \<equiv> 16"
abbreviation TF_EPC :: nat where "TF_EPC \<equiv> 24"
abbreviation TF_KERNEL_HARTID :: nat where "TF_KERNEL_HARTID \<equiv> 32"
abbreviation TF_SP :: nat where "TF_SP \<equiv> 48"
abbreviation TF_A0 :: nat where "TF_A0 \<equiv> 112"
abbreviation TF_A1 :: nat where "TF_A1 \<equiv> 120"
abbreviation TF_A7 :: nat where "TF_A7 \<equiv> 168"

text \<open>\<^verbatim>\<open>safestrcpy(p->name, t, 16)\<close>.\<close>

definition set_pname :: "nat \<Rightarrow> byte list \<Rightarrow> 'a pstate_scheme \<Rightarrow> 'a pstate_scheme res" where
  "set_pname p t s =
     (case safestrcpy (p_name (procs s ! p)) t 16 of
        None \<Rightarrow> Panic ''safestrcpy: overrun''
      | Some nm \<Rightarrow> Ok (upd_proc p (\<lambda>q. q\<lparr>p_name := nm\<rparr>) s))"

definition fork_files :: "nat \<Rightarrow> nat \<Rightarrow> 'a filest_scheme \<Rightarrow> 'a filest_scheme res" where
  "fork_files p np s =
     rfold (\<lambda>i s. case p_ofile (procs s ! p) ! i of
         None \<Rightarrow> Ok s
       | Some f \<Rightarrow> rbind (filedup f s) (\<lambda>s1. Ok (upd_proc np (\<lambda>q. q\<lparr>p_ofile := (p_ofile q)[i := Some f]\<rparr>) s1)))
       [0..<16] s"

definition fork_vmas :: "nat \<Rightarrow> nat \<Rightarrow> 'a filest_scheme \<Rightarrow> 'a filest_scheme res" where
  "fork_vmas p np s =
     rfold (\<lambda>i s. let v = vma_of p i s in
         if v_used v
         then rbind (filedup (the (v_file v)) (upd_vma np i (\<lambda>_. v) s)) (\<lambda>s1. Ok s1)
         else Ok s) [0..<16] s"

definition fork :: "'a filest_scheme \<Rightarrow> (int \<times> 'a filest_scheme) res" where
  "fork s =
     (let p = the (myproc s) in
      rbind (allocproc s) (\<lambda>(r, s1).
        case r of
          None \<Rightarrow> Ok (-1, s1)
        | Some np \<Rightarrow>
            rbind (uvmcopy (p_pagetable (procs s1 ! p)) (p_pagetable (procs s1 ! np)) (p_sz (procs s1 ! p)) s1) (\<lambda>(e, s2).
              if e < 0 then rbind (freeproc np s2) (\<lambda>s3. Ok (-1, s3))
              else
                let s3 = upd_proc np (\<lambda>q. q\<lparr>p_sz := p_sz (procs s2 ! p)\<rparr>) s2;
                    s4 = s3\<lparr>mem := mstore (p_trapframe (procs s3 ! np)) (mload 288 (p_trapframe (procs s3 ! p)) (mem s3)) (mem s3)\<rparr>;
                    s5 = tf_set np TF_A0 0 s4
                in rbind (fork_files p np s5) (\<lambda>s6.
                   rbind (fork_vmas p np s6) (\<lambda>s7.
                     let cwd = p_cwd (procs s7 ! p);
                         s8 = upd_proc np (\<lambda>q. q\<lparr>p_cwd := cwd\<rparr>) (idup (the cwd) s7)
                     in rbind (set_pname np (p_name (procs s8 ! p)) s8) (\<lambda>s9.
                          Ok (p_pid (procs s9 ! np),
                              upd_proc np (\<lambda>q. q\<lparr>p_parent := Some p, p_state := RUNNABLE\<rparr>) s9)))))))"

definition exit_files :: "nat \<Rightarrow> 'a filest_scheme \<Rightarrow> 'a filest_scheme res" where
  "exit_files p s =
     rfold (\<lambda>fd s. case p_ofile (procs s ! p) ! fd of
         None \<Rightarrow> Ok s
       | Some f \<Rightarrow> rbind (fileclose f s) (\<lambda>s1. Ok (upd_proc p (\<lambda>q. q\<lparr>p_ofile := (p_ofile q)[fd := None]\<rparr>) s1)))
       [0..<16] s"

text \<open>\<^verbatim>\<open>exit\<close> does not return: the result is the state in which the scheduler goes on.\<close>

definition exit :: "int \<Rightarrow> 'a filest_scheme \<Rightarrow> 'a filest_scheme res" where
  "exit status s =
     (let p = the (myproc s) in
      if initproc s = Some p then Panic ''init exiting''
      else
        rbind (vma_unmap_all p s) (\<lambda>s1.
        rbind (exit_files p s1) (\<lambda>s2.
        rbind (begin_op s2) (\<lambda>s3.
        rbind (iput (the (p_cwd (procs s3 ! p))) s3) (\<lambda>s4.
        rbind (end_op s4) (\<lambda>s5.
          exit_sched p status (upd_proc p (\<lambda>q. q\<lparr>p_cwd := None\<rparr>) s5)))))))"

definition initcode :: "byte list" where
  "initcode =
    [0x17, 0x05, 0x00, 0x00, 0x13, 0x05, 0x45, 0x02,
     0x97, 0x05, 0x00, 0x00, 0x93, 0x85, 0x35, 0x02,
     0x93, 0x08, 0x70, 0x00, 0x73, 0x00, 0x00, 0x00,
     0x93, 0x08, 0x20, 0x00, 0x73, 0x00, 0x00, 0x00,
     0xef, 0xf0, 0x9f, 0xff, 0x2f, 0x69, 0x6e, 0x69,
     0x74, 0x00, 0x00, 0x24, 0x00, 0x00, 0x00, 0x00,
     0x00, 0x00, 0x00, 0x00]"

text \<open>\<^verbatim>\<open>userinit\<close> does not check the result of \<^verbatim>\<open>allocproc\<close>; a null pointer would fault in the kernel.\<close>

definition userinit :: "'a filest_scheme \<Rightarrow> 'a filest_scheme res" where
  "userinit s =
     rbind (allocproc s) (\<lambda>(r, s1).
       case r of
         None \<Rightarrow> Panic ''kerneltrap''
       | Some p \<Rightarrow>
           let s2 = s1\<lparr>initproc := Some p\<rparr> in
           rbind (uvminit (p_pagetable (procs s2 ! p)) initcode s2) (\<lambda>s3.
             let s4 = upd_proc p (\<lambda>q. q\<lparr>p_sz := PGSIZE\<rparr>) s3;
                 s5 = tf_set p TF_SP PGSIZE (tf_set p TF_EPC 0 s4)
             in rbind (set_pname p (bstr ''initcode'' @ [0]) s5) (\<lambda>s6.
                rbind (namei [SLASH] s6) (\<lambda>(ip, s7).
                  Ok (upd_proc p (\<lambda>q. q\<lparr>p_cwd := ip, p_state := RUNNABLE\<rparr>) s7)))))"

end
