(* ===== verification/Exec.thy ===== *)
theory Exec
  imports Procops
begin

text \<open>
  The arguments of system calls (\<^verbatim>\<open>kernel/syscall.c\<close>) and \<^verbatim>\<open>kernel/exec.c\<close>. An
  argument that is a string is the bytes \<^verbatim>\<open>copyinstr\<close> stored, its NUL included; a path is
  the list of its characters.
\<close>

section \<open>System call arguments\<close>

definition cur :: "'a pstate_scheme \<Rightarrow> nat" where
  "cur s = the (myproc s)"

definition fetchaddr :: "uint64 \<Rightarrow> 'a pstate_scheme \<Rightarrow> uint64 option" where
  "fetchaddr addr s =
     (let p = procs s ! cur s in
      if addr \<ge> p_sz p \<or> addr + 8 > p_sz p then None
      else let (r, bs) = copyin (p_pagetable p) addr 8 s in
        if r \<noteq> 0 then None else Some (of_nat (le_val bs)))"

definition fetchstr :: "uint64 \<Rightarrow> nat \<Rightarrow> 'a pstate_scheme \<Rightarrow> int \<times> byte list" where
  "fetchstr addr mx s =
     (let (err, buf) = copyinstr (p_pagetable (procs s ! cur s)) addr mx s in
      if err < 0 then (err, buf)
      else (case strlen buf of None \<Rightarrow> (-1, buf) | Some n \<Rightarrow> (int n, buf)))"

definition argraw :: "nat \<Rightarrow> 'a pstate_scheme \<Rightarrow> uint64 res" where
  "argraw n s = (if n < 6 then Ok (tf_get (cur s) (TF_A0 + 8 * n) s) else Panic ''argraw'')"

definition argint :: "nat \<Rightarrow> 'a pstate_scheme \<Rightarrow> int res" where
  "argint n s = rbind (argraw n s) (\<lambda>a. Ok (sint (ucast a :: uint32)))"

definition argaddr :: "nat \<Rightarrow> 'a pstate_scheme \<Rightarrow> uint64 res" where
  "argaddr n s = argraw n s"

definition argstr :: "nat \<Rightarrow> nat \<Rightarrow> 'a pstate_scheme \<Rightarrow> (int \<times> byte list) res" where
  "argstr n mx s = rbind (argaddr n s) (\<lambda>a. Ok (fetchstr a mx s))"

abbreviation MAXPATH :: nat where "MAXPATH \<equiv> 128"
abbreviation MAXARG :: nat where "MAXARG \<equiv> 32"

section \<open>The ELF headers\<close>

abbreviation ELF_MAGIC :: nat where "ELF_MAGIC \<equiv> 0x464C457F"

record elfhdr =
  e_magic :: nat
  e_entry :: uint64
  e_phoff :: uint64
  e_phnum :: nat

record proghdr =
  ph_type :: nat
  ph_off :: uint64
  ph_vaddr :: uint64
  ph_filesz :: uint64
  ph_memsz :: uint64

definition get64 :: "nat \<Rightarrow> byte list \<Rightarrow> uint64" where
  "get64 off bs = of_nat (le_val (slice off 8 bs))"

definition parse_elfhdr :: "byte list \<Rightarrow> elfhdr" where
  "parse_elfhdr bs = \<lparr>e_magic = get32 0 bs, e_entry = get64 24 bs, e_phoff = get64 32 bs, e_phnum = le_val (slice 56 2 bs)\<rparr>"

definition parse_proghdr :: "byte list \<Rightarrow> proghdr" where
  "parse_proghdr bs = \<lparr>ph_type = get32 0 bs, ph_off = get64 8 bs, ph_vaddr = get64 16 bs,
     ph_filesz = get64 32 bs, ph_memsz = get64 40 bs\<rparr>"

section \<open>Loading\<close>

text \<open>The pages of a segment of \<open>sz\<close> bytes; the list holds the values of \<^verbatim>\<open>i\<close>.\<close>

fun loadseg_pages :: "uint64 \<Rightarrow> uint64 \<Rightarrow> nat \<Rightarrow> nat \<Rightarrow> nat \<Rightarrow> nat list \<Rightarrow> 'a fsst_scheme \<Rightarrow> (int \<times> 'a fsst_scheme) res" where
  "loadseg_pages pt va ip offset sz [] s = Ok (0, s)"
| "loadseg_pages pt va ip offset sz (i # is) s =
     (let pa = walkaddr pt (va + of_nat i) s; n = (if sz - i < 4096 then sz - i else 4096) in
      if pa = 0 then Panic ''loadseg: address should exist''
      else rbind (readi ip (ToKernel pa) ((offset + i) mod 2 ^ 32) n s) (\<lambda>(r, _, s1).
        if r \<noteq> int n then Ok (-1, s1) else loadseg_pages pt va ip offset sz is s1))"

definition loadseg :: "uint64 \<Rightarrow> uint64 \<Rightarrow> nat \<Rightarrow> nat \<Rightarrow> nat \<Rightarrow> 'a fsst_scheme \<Rightarrow> (int \<times> 'a fsst_scheme) res" where
  "loadseg pt va ip offset sz s =
     loadseg_pages pt va ip offset sz (map (\<lambda>k. 4096 * k) [0..<(sz + 4095) div 4096]) s"

text \<open>
  The loop over the program headers. The result says whether it ended, or jumped to
  \<^verbatim>\<open>bad\<close>, and the value of \<^verbatim>\<open>sz\<close> then.
\<close>

fun exec_load :: "uint64 \<Rightarrow> nat \<Rightarrow> nat \<Rightarrow> nat list \<Rightarrow> uint64 \<Rightarrow> 'a fsst_scheme \<Rightarrow> (bool \<times> uint64 \<times> 'a fsst_scheme) res" where
  "exec_load pt ip phoff [] sz s = Ok (True, sz, s)"
| "exec_load pt ip phoff (i # is) sz s =
     rbind (readi ip (ToStack []) ((phoff + 56 * i) mod 2 ^ 32) 56 s) (\<lambda>(r, dst, s1).
       let ph = parse_proghdr (stack_bytes dst) in
       if r \<noteq> 56 then Ok (False, sz, s1)
       else if ph_type ph \<noteq> 1 then exec_load pt ip phoff is sz s1
       else if ph_memsz ph < ph_filesz ph then Ok (False, sz, s1)
       else if ph_vaddr ph + ph_memsz ph < ph_vaddr ph then Ok (False, sz, s1)
       else rbind (uvmalloc pt sz (ph_vaddr ph + ph_memsz ph) s1) (\<lambda>(sz1, s2).
         if sz1 = 0 then Ok (False, sz, s2)
         else if ph_vaddr ph mod PGSIZE \<noteq> 0 then Ok (False, sz1, s2)
         else rbind (loadseg pt (ph_vaddr ph) ip (unat (ph_off ph) mod 2 ^ 32) (unat (ph_filesz ph) mod 2 ^ 32) s2) (\<lambda>(e, s3).
           if e < 0 then Ok (False, sz1, s3) else exec_load pt ip phoff is sz1 s3)))"

section \<open>The user stack\<close>

text \<open>
  The loop that pushes the argument strings: \<open>argc\<close> strings are on the stack, at the
  addresses \<open>ustack\<close>. \<open>None\<close> is the jump to \<^verbatim>\<open>bad\<close>. Each argument is the address of
  a page that holds a string.
\<close>

fun exec_push :: "uint64 \<Rightarrow> uint64 \<Rightarrow> uint64 list \<Rightarrow> nat \<Rightarrow> uint64 \<Rightarrow> uint64 list \<Rightarrow> 'a kmem_scheme \<Rightarrow>
    ((uint64 \<times> uint64 list) option \<times> 'a kmem_scheme) res" where
  "exec_push pt stackbase [] argc sp ustack s = Ok (Some (sp, ustack), s)"
| "exec_push pt stackbase (a # argv) argc sp ustack s =
     (if argc \<ge> MAXARG then Ok (None, s)
      else case strlen (mload 4096 a (mem s)) of
        None \<Rightarrow> Panic ''strlen: overrun''
      | Some n \<Rightarrow>
          let sp1 = sp - of_nat (n + 1); sp2 = sp1 - sp1 mod 16 in
          if sp2 < stackbase then Ok (None, s)
          else let (r, s1) = copyout pt sp2 (mload (n + 1) a (mem s)) s in
            if r < 0 then Ok (None, s1)
            else exec_push pt stackbase argv (argc + 1) sp2 (ustack @ [sp2]) s1)"

definition bytes64 :: "uint64 \<Rightarrow> byte list" where
  "bytes64 w = le_bytes 8 (unat w)"

definition exec_bad :: "uint64 \<Rightarrow> uint64 \<Rightarrow> nat option \<Rightarrow> 'a fsst_scheme \<Rightarrow> (int \<times> 'a fsst_scheme) res" where
  "exec_bad pt sz ip s =
     rbind (if pt \<noteq> 0 then proc_freepagetable pt sz s else Ok s) (\<lambda>s1.
       case ip of
         None \<Rightarrow> Ok (-1, s1)
       | Some i \<Rightarrow> rbind (iunlockput i s1) (\<lambda>s2. rbind (end_op s2) (\<lambda>s3. Ok (-1, s3))))"

definition path_last :: "byte list \<Rightarrow> byte list" where
  "path_last path = rev (takeWhile (\<lambda>c. c \<noteq> SLASH) (rev path))"

text \<open>The end of \<^verbatim>\<open>exec\<close>, from the line that saves the stack pointer in \<^verbatim>\<open>a1\<close> on.\<close>

definition exec_commit :: "nat \<Rightarrow> byte list \<Rightarrow> uint64 \<Rightarrow> uint64 \<Rightarrow> uint64 \<Rightarrow> uint64 \<Rightarrow> uint64 \<Rightarrow> nat \<Rightarrow>
    'a filest_scheme \<Rightarrow> (int \<times> 'a filest_scheme) res" where
  "exec_commit p path pt sz oldsz entry sp argc s =
     rbind (set_pname p (path_last path @ [0]) (tf_set p TF_A1 sp s)) (\<lambda>s1.
     rbind (vma_unmap_all p s1) (\<lambda>s2.
       let oldpagetable = p_pagetable (procs s2 ! p);
           s3 = upd_proc p (\<lambda>q. q\<lparr>p_pagetable := pt, p_sz := sz\<rparr>) s2;
           s4 = tf_set p TF_SP sp (tf_set p TF_EPC entry s3)
       in rbind (proc_freepagetable oldpagetable oldsz s4) (\<lambda>s5. Ok (int argc, s5))))"

definition exec_stack :: "nat \<Rightarrow> byte list \<Rightarrow> uint64 list \<Rightarrow> uint64 \<Rightarrow> uint64 \<Rightarrow> uint64 \<Rightarrow>
    'a filest_scheme \<Rightarrow> (int \<times> 'a filest_scheme) res" where
  "exec_stack p path argv pt sz0 entry s =
     (let oldsz = p_sz (procs s ! p); sz = PGROUNDUP sz0 in
      rbind (uvmalloc pt sz (sz + 2 * PGSIZE) s) (\<lambda>(sz1, s1).
        if sz1 = 0 then exec_bad pt sz None s1
        else
          rbind (uvmclear pt (sz1 - 2 * PGSIZE) s1) (\<lambda>s2.
          rbind (exec_push pt (sz1 - PGSIZE) argv 0 sz1 [] s2) (\<lambda>(r, s3).
            case r of
              None \<Rightarrow> exec_bad pt sz1 None s3
            | Some (sp, ustack) \<Rightarrow>
                let argc = length ustack; sp1 = sp - of_nat ((argc + 1) * 8); sp2 = sp1 - sp1 mod 16 in
                if sp2 < sz1 - PGSIZE then exec_bad pt sz1 None s3
                else let (e, s4) = copyout pt sp2 (concat (map bytes64 (ustack @ [0]))) s3 in
                  if e < 0 then exec_bad pt sz1 None s4
                  else exec_commit p path pt sz1 oldsz entry sp2 argc s4))))"

definition exec :: "byte list \<Rightarrow> uint64 list \<Rightarrow> 'a filest_scheme \<Rightarrow> (int \<times> 'a filest_scheme) res" where
  "exec path argv s =
     (let p = cur s in
      rbind (begin_op s) (\<lambda>s1.
      rbind (namei path s1) (\<lambda>(r, s2).
        case r of
          None \<Rightarrow> rbind (end_op s2) (\<lambda>s3. Ok (-1, s3))
        | Some ip \<Rightarrow>
            rbind (ilock ip s2) (\<lambda>s3.
            rbind (readi ip (ToStack []) 0 64 s3) (\<lambda>(n, dst, s4).
              let elf = parse_elfhdr (stack_bytes dst) in
              if n \<noteq> 64 \<or> e_magic elf \<noteq> ELF_MAGIC then exec_bad 0 0 (Some ip) s4
              else
                rbind (proc_pagetable p s4) (\<lambda>(pt, s5).
                  if pt = 0 then exec_bad 0 0 (Some ip) s5
                  else
                    rbind (exec_load pt ip (unat (e_phoff elf)) [0..<e_phnum elf] 0 s5) (\<lambda>(ok, sz, s6).
                      if \<not> ok then exec_bad pt sz (Some ip) s6
                      else
                        rbind (iunlockput ip s6) (\<lambda>s7.
                        rbind (end_op s7) (\<lambda>s8.
                          exec_stack p path argv pt sz (e_entry elf) s8)))))))))"

end
