(* ===== verification/Sysfile.thy ===== *)
theory Sysfile
  imports Exec
begin

text \<open>
  \<^verbatim>\<open>kernel/sysfile.c\<close>: the system calls on files. A call that returns a number has the
  type \<open>(int \<times> state) res\<close>; \<^verbatim>\<open>sys_read\<close> and \<^verbatim>\<open>sys_write\<close> may block in the middle of
  their work and return an \<open>io\<close>. The \<^verbatim>\<open>short\<close> link count wraps at 16 bits.
\<close>

definition short :: "int \<Rightarrow> int" where
  "short n = sint (of_int n :: 16 word)"

text \<open>\<^verbatim>\<open>argfd\<close>: the descriptor and the file, or \<open>None\<close>.\<close>

definition argfd :: "nat \<Rightarrow> 'a pstate_scheme \<Rightarrow> (nat \<times> nat) option res" where
  "argfd n s =
     rbind (argint n s) (\<lambda>fd.
       if fd < 0 \<or> fd \<ge> 16 then Ok None
       else case p_ofile (procs s ! cur s) ! nat fd of
         None \<Rightarrow> Ok None
       | Some f \<Rightarrow> Ok (Some (nat fd, f)))"

definition set_fd :: "nat \<Rightarrow> nat \<Rightarrow> nat option \<Rightarrow> 'a pstate_scheme \<Rightarrow> 'a pstate_scheme" where
  "set_fd p fd f s = upd_proc p (\<lambda>q. q\<lparr>p_ofile := (p_ofile q)[fd := f]\<rparr>) s"

definition fdalloc :: "nat \<Rightarrow> 'a pstate_scheme \<Rightarrow> nat option \<times> 'a pstate_scheme" where
  "fdalloc f s =
     (case find_index (\<lambda>x. x = None) (p_ofile (procs s ! cur s)) of
        None \<Rightarrow> (None, s)
      | Some fd \<Rightarrow> (Some fd, set_fd (cur s) fd (Some f) s))"

section \<open>mmap and munmap\<close>

definition mmap_ok :: "uint64 \<Rightarrow> uint64 \<Rightarrow> uint32 \<Rightarrow> uint32 \<Rightarrow> openfile \<Rightarrow> uint64 \<Rightarrow> bool" where
  "mmap_ok requested len prot flags f offset \<longleftrightarrow>
     \<not> (requested \<noteq> 0 \<or> offset \<noteq> 0 \<or> len = 0 \<or> len > MAXVA \<or>
        (flags \<noteq> MAP_SHARED \<and> flags \<noteq> MAP_PRIVATE) \<or>
        prot AND NOT (PROT_READ OR PROT_WRITE OR PROT_EXEC) \<noteq> 0 \<or> prot = 0 \<or>
        f_type f \<noteq> FD_INODE \<or> \<not> f_readable f \<or>
        (flags = MAP_SHARED \<and> prot AND PROT_WRITE \<noteq> 0 \<and> \<not> f_writable f))"

text \<open>The loop of \<^verbatim>\<open>sys_mmap\<close> over the mappings: the lowest address in use.\<close>

definition vma_lowest :: "vma list \<Rightarrow> uint64" where
  "vma_lowest vs = foldl (\<lambda>low v. if v_used v \<and> v_addr v < low then v_addr v else low) TRAPFRAME vs"

definition do_mmap :: "uint64 \<Rightarrow> uint64 \<Rightarrow> uint32 \<Rightarrow> uint32 \<Rightarrow> nat \<Rightarrow> uint64 \<Rightarrow> 'a filest_scheme \<Rightarrow> (uint64 \<times> 'a filest_scheme) res" where
  "do_mmap requested len0 prot flags f offset s =
     (let p = cur s; vs = p_vmas (procs s ! p) in
      if \<not> mmap_ok requested len0 prot flags (ftable s ! f) offset then Ok (- 1, s)
      else let len = PGROUNDUP len0; lowest = vma_lowest vs in
        case find_index (\<lambda>v. \<not> v_used v) vs of
          None \<Rightarrow> Ok (- 1, s)
        | Some i \<Rightarrow>
            if len > lowest \<or> lowest - len < PGROUNDUP (p_sz (procs s ! p)) then Ok (- 1, s)
            else
              rbind (filedup f s) (\<lambda>s1.
                Ok (lowest - len,
                    upd_vma p i (\<lambda>_. \<lparr>v_used = True, v_addr = lowest - len, v_length = len, v_prot = prot,
                                     v_flags = flags, v_file = Some f, v_offset = offset\<rparr>) s1)))"

definition sys_mmap :: "'a filest_scheme \<Rightarrow> (uint64 \<times> 'a filest_scheme) res" where
  "sys_mmap s =
     rbind (argaddr 0 s) (\<lambda>requested.
     rbind (argaddr 1 s) (\<lambda>len.
     rbind (argint 2 s) (\<lambda>prot.
     rbind (argint 3 s) (\<lambda>flags.
     rbind (argfd 4 s) (\<lambda>fd.
     rbind (argaddr 5 s) (\<lambda>offset.
       case fd of
         None \<Rightarrow> Ok (- 1, s)
       | Some (_, f) \<Rightarrow> do_mmap requested len (of_int prot) (of_int flags) f offset s))))))"

definition sys_munmap :: "'a filest_scheme \<Rightarrow> (int \<times> 'a filest_scheme) res" where
  "sys_munmap s =
     rbind (argaddr 0 s) (\<lambda>addr.
     rbind (argaddr 1 s) (\<lambda>len.
       if len = 0 then Ok (-1, s) else vma_unmap (cur s) addr len s))"

section \<open>Descriptors\<close>

definition sys_dup :: "'a filest_scheme \<Rightarrow> (int \<times> 'a filest_scheme) res" where
  "sys_dup s =
     rbind (argfd 0 s) (\<lambda>r. case r of
       None \<Rightarrow> Ok (-1, s)
     | Some (_, f) \<Rightarrow>
         (case fdalloc f s of
            (None, s1) \<Rightarrow> Ok (-1, s1)
          | (Some fd, s1) \<Rightarrow> rbind (filedup f s1) (\<lambda>s2. Ok (int fd, s2))))"

definition sys_read :: "'a filest_scheme \<Rightarrow> (io \<times> 'a filest_scheme) res" where
  "sys_read s =
     rbind (argfd 0 s) (\<lambda>r.
     rbind (argint 2 s) (\<lambda>n.
     rbind (argaddr 1 s) (\<lambda>p.
       case r of None \<Rightarrow> Ok (Ret (-1), s) | Some (_, f) \<Rightarrow> fileread f p n s)))"

definition sys_write :: "'a filest_scheme \<Rightarrow> (io \<times> 'a filest_scheme) res" where
  "sys_write s =
     rbind (argfd 0 s) (\<lambda>r.
     rbind (argint 2 s) (\<lambda>n.
     rbind (argaddr 1 s) (\<lambda>p.
       case r of None \<Rightarrow> Ok (Ret (-1), s) | Some (_, f) \<Rightarrow> filewrite f p n s)))"

definition sys_close :: "'a filest_scheme \<Rightarrow> (int \<times> 'a filest_scheme) res" where
  "sys_close s =
     rbind (argfd 0 s) (\<lambda>r. case r of
       None \<Rightarrow> Ok (-1, s)
     | Some (fd, f) \<Rightarrow> rbind (fileclose f (set_fd (cur s) fd None s)) (\<lambda>s1. Ok (0, s1)))"

definition sys_fstat :: "'a filest_scheme \<Rightarrow> (int \<times> 'a filest_scheme) res" where
  "sys_fstat s =
     rbind (argfd 0 s) (\<lambda>r.
     rbind (argaddr 1 s) (\<lambda>st.
       case r of None \<Rightarrow> Ok (-1, s) | Some (_, f) \<Rightarrow> filestat f st s))"

section \<open>Links\<close>

definition end_ret :: "int \<Rightarrow> 'a logst_scheme \<Rightarrow> (int \<times> 'a logst_scheme) res" where
  "end_ret r s = rbind (end_op s) (\<lambda>s1. Ok (r, s1))"

definition put_ret :: "nat \<Rightarrow> int \<Rightarrow> 'a fsst_scheme \<Rightarrow> (int \<times> 'a fsst_scheme) res" where
  "put_ret ip r s = rbind (iunlockput ip s) (\<lambda>s1. end_ret r s1)"

definition add_nlink :: "nat \<Rightarrow> int \<Rightarrow> 'a fsst_scheme \<Rightarrow> 'a fsst_scheme res" where
  "add_nlink ip d s = iupdate ip (upd_inode ip (\<lambda>i. i\<lparr>i_nlink := short (i_nlink i + d)\<rparr>) s)"

definition link_bad :: "nat \<Rightarrow> 'a fsst_scheme \<Rightarrow> (int \<times> 'a fsst_scheme) res" where
  "link_bad ip s = rbind (ilock ip s) (\<lambda>s1. rbind (add_nlink ip (-1) s1) (\<lambda>s2. put_ret ip (-1) s2))"

definition do_link :: "byte list \<Rightarrow> byte list \<Rightarrow> 'a fsst_scheme \<Rightarrow> (int \<times> 'a fsst_scheme) res" where
  "do_link old new s =
     rbind (begin_op s) (\<lambda>s1.
     rbind (namei old s1) (\<lambda>(r, s2).
       case r of
         None \<Rightarrow> end_ret (-1) s2
       | Some ip \<Rightarrow>
           rbind (ilock ip s2) (\<lambda>s3.
             if i_type (itable s3 ! ip) = T_DIR then put_ret ip (-1) s3
             else
               rbind (add_nlink ip 1 s3) (\<lambda>s4.
               rbind (iunlock ip s4) (\<lambda>s5.
               rbind (nameiparent new (replicate DIRSIZ 0) s5) (\<lambda>(d, name, s6).
                 case d of
                   None \<Rightarrow> link_bad ip s6
                 | Some dp \<Rightarrow>
                     rbind (ilock dp s6) (\<lambda>s7.
                     rbind (if i_dev (itable s7 ! dp) \<noteq> i_dev (itable s7 ! ip) then Ok (-1, s7)
                            else dirlink dp name (i_inum (itable s7 ! ip)) s7) (\<lambda>(e, s8).
                     rbind (iunlockput dp s8) (\<lambda>s9.
                       if e < 0 then link_bad ip s9
                       else rbind (iput ip s9) (\<lambda>s10. end_ret 0 s10))))))))))"

definition sys_link :: "'a fsst_scheme \<Rightarrow> (int \<times> 'a fsst_scheme) res" where
  "sys_link s =
     rbind (argstr 0 MAXPATH s) (\<lambda>(n, old).
     if n < 0 then Ok (-1, s)
     else rbind (argstr 1 MAXPATH s) (\<lambda>(m, new).
       if m < 0 then Ok (-1, s) else do_link (cstr old) (cstr new) s))"

fun isdirempty_loop :: "nat \<Rightarrow> nat list \<Rightarrow> 'a fsst_scheme \<Rightarrow> (bool \<times> 'a fsst_scheme) res" where
  "isdirempty_loop dp [] s = Ok (True, s)"
| "isdirempty_loop dp (off # offs) s =
     rbind (readi dp (ToStack []) off 16 s) (\<lambda>(r, dst, s1).
       if r \<noteq> 16 then Panic ''isdirempty: readi''
       else if de_inum (stack_bytes dst) \<noteq> 0 then Ok (False, s1)
       else isdirempty_loop dp offs s1)"

definition isdirempty :: "nat \<Rightarrow> 'a fsst_scheme \<Rightarrow> (bool \<times> 'a fsst_scheme) res" where
  "isdirempty dp s = isdirempty_loop dp (drop 2 (de_offs (i_size (itable s ! dp)))) s"

definition DOT :: "byte list" where "DOT = [46, 0]"
definition DOTDOT :: "byte list" where "DOTDOT = [46, 46, 0]"

definition do_unlink :: "byte list \<Rightarrow> 'a fsst_scheme \<Rightarrow> (int \<times> 'a fsst_scheme) res" where
  "do_unlink path s =
     rbind (begin_op s) (\<lambda>s1.
     rbind (nameiparent path (replicate DIRSIZ 0) s1) (\<lambda>(d, name, s2).
       case d of
         None \<Rightarrow> end_ret (-1) s2
       | Some dp \<Rightarrow>
           rbind (ilock dp s2) (\<lambda>s3.
             if namecmp name DOT = Some 0 \<or> namecmp name DOTDOT = Some 0 then put_ret dp (-1) s3
             else
               rbind (dirlookup dp name s3) (\<lambda>(found, s4).
                 case found of
                   None \<Rightarrow> put_ret dp (-1) s4
                 | Some (ip, off) \<Rightarrow>
                     rbind (ilock ip s4) (\<lambda>s5.
                       if i_nlink (itable s5 ! ip) < 1 then Panic ''unlink: nlink < 1''
                       else
                         rbind (if i_type (itable s5 ! ip) = T_DIR then isdirempty ip s5 else Ok (True, s5)) (\<lambda>(empty, s6).
                           if \<not> empty then rbind (iunlockput ip s6) (\<lambda>s7. put_ret dp (-1) s7)
                           else
                             rbind (writei dp (FromStack (replicate 16 0)) off 16 s6) (\<lambda>(r, s7).
                               if r \<noteq> 16 then Panic ''unlink: writei''
                               else
                                 rbind (if i_type (itable s7 ! ip) = T_DIR then add_nlink dp (-1) s7 else Ok s7) (\<lambda>s8.
                                 rbind (iunlockput dp s8) (\<lambda>s9.
                                 rbind (add_nlink ip (-1) s9) (\<lambda>s10. put_ret ip 0 s10))))))))))"

definition sys_unlink :: "'a fsst_scheme \<Rightarrow> (int \<times> 'a fsst_scheme) res" where
  "sys_unlink s =
     rbind (argstr 0 MAXPATH s) (\<lambda>(n, path). if n < 0 then Ok (-1, s) else do_unlink (cstr path) s)"

section \<open>Creating and opening\<close>

text \<open>
  \<^verbatim>\<open>create\<close>: the inode is returned locked. \<open>create_new\<close> is the part after a failed lookup.
\<close>

definition create_dots :: "nat \<Rightarrow> nat \<Rightarrow> 'a fsst_scheme \<Rightarrow> 'a fsst_scheme res" where
  "create_dots dp ip s =
     rbind (add_nlink dp 1 s) (\<lambda>s1.
     rbind (dirlink ip DOT (i_inum (itable s1 ! ip)) s1) (\<lambda>(e, s2).
       if e < 0 then Panic ''create dots''
       else rbind (dirlink ip DOTDOT (i_inum (itable s2 ! dp)) s2) (\<lambda>(e1, s3).
         if e1 < 0 then Panic ''create dots'' else Ok s3)))"

definition create_new :: "nat \<Rightarrow> byte list \<Rightarrow> int \<Rightarrow> int \<Rightarrow> int \<Rightarrow> 'a fsst_scheme \<Rightarrow> (nat option \<times> 'a fsst_scheme) res" where
  "create_new dp name type major minor s =
     rbind (ialloc (i_dev (itable s ! dp)) type s) (\<lambda>(ip, s1).
     rbind (ilock ip s1) (\<lambda>s2.
     rbind (iupdate ip (upd_inode ip (\<lambda>i. i\<lparr>i_major := short major, i_minor := short minor, i_nlink := 1\<rparr>) s2)) (\<lambda>s3.
     rbind (if type = T_DIR then create_dots dp ip s3 else Ok s3) (\<lambda>s4.
     rbind (dirlink dp name (i_inum (itable s4 ! ip)) s4) (\<lambda>(e, s5).
       if e < 0 then Panic ''create: dirlink''
       else rbind (iunlockput dp s5) (\<lambda>s6. Ok (Some ip, s6)))))))"

definition create :: "byte list \<Rightarrow> int \<Rightarrow> int \<Rightarrow> int \<Rightarrow> 'a fsst_scheme \<Rightarrow> (nat option \<times> 'a fsst_scheme) res" where
  "create path type major minor s =
     rbind (nameiparent path (replicate DIRSIZ 0) s) (\<lambda>(d, name, s1).
       case d of
         None \<Rightarrow> Ok (None, s1)
       | Some dp \<Rightarrow>
           rbind (ilock dp s1) (\<lambda>s2.
           rbind (dirlookup dp name s2) (\<lambda>(found, s3).
             case found of
               Some (ip, _) \<Rightarrow>
                 rbind (iunlockput dp s3) (\<lambda>s4.
                 rbind (ilock ip s4) (\<lambda>s5.
                   let t = i_type (itable s5 ! ip) in
                   if type = T_FILE \<and> (t = T_FILE \<or> t = T_DEVICE) then Ok (Some ip, s5)
                   else rbind (iunlockput ip s5) (\<lambda>s6. Ok (None, s6))))
             | None \<Rightarrow> create_new dp name type major minor s3)))"

abbreviation O_RDONLY :: uint32 where "O_RDONLY \<equiv> 0"
abbreviation O_WRONLY :: uint32 where "O_WRONLY \<equiv> 1"
abbreviation O_RDWR :: uint32 where "O_RDWR \<equiv> 2"
abbreviation O_CREATE :: uint32 where "O_CREATE \<equiv> 0x200"
abbreviation O_TRUNC :: uint32 where "O_TRUNC \<equiv> 0x400"

text \<open>
  The first half of \<^verbatim>\<open>sys_open\<close>: the inode to open, locked, or \<open>None\<close> after the failures that end
  the call.
\<close>

definition open_inode :: "byte list \<Rightarrow> uint32 \<Rightarrow> 'a fsst_scheme \<Rightarrow> (nat option \<times> 'a fsst_scheme) res" where
  "open_inode path omode s =
     (if omode AND O_CREATE \<noteq> 0 then create path T_FILE 0 0 s
      else rbind (namei path s) (\<lambda>(r, s1).
        case r of
          None \<Rightarrow> Ok (None, s1)
        | Some ip \<Rightarrow>
            rbind (ilock ip s1) (\<lambda>s2.
              if i_type (itable s2 ! ip) = T_DIR \<and> omode \<noteq> O_RDONLY
              then rbind (iunlockput ip s2) (\<lambda>s3. Ok (None, s3))
              else Ok (Some ip, s2))))"

definition open_file :: "nat \<Rightarrow> nat \<Rightarrow> nat \<Rightarrow> uint32 \<Rightarrow> 'a filest_scheme \<Rightarrow> (int \<times> 'a filest_scheme) res" where
  "open_file ip f fd omode s =
     (let i = itable s ! ip;
          s1 = (if i_type i = T_DEVICE then upd_file f (\<lambda>x. x\<lparr>f_type := FD_DEVICE, f_major := i_major i\<rparr>) s
                else upd_file f (\<lambda>x. x\<lparr>f_type := FD_INODE, f_off := 0\<rparr>) s);
          s2 = upd_file f (\<lambda>x. x\<lparr>f_ip := ip, f_readable := (omode AND O_WRONLY = 0),
                 f_writable := (omode AND O_WRONLY \<noteq> 0 \<or> omode AND O_RDWR \<noteq> 0)\<rparr>) s1
      in rbind (if omode AND O_TRUNC \<noteq> 0 \<and> i_type (itable s2 ! ip) = T_FILE then itrunc ip s2 else Ok s2) (\<lambda>s3.
         rbind (iunlock ip s3) (\<lambda>s4. end_ret (int fd) s4)))"

definition do_open :: "byte list \<Rightarrow> uint32 \<Rightarrow> 'a filest_scheme \<Rightarrow> (int \<times> 'a filest_scheme) res" where
  "do_open path omode s =
     rbind (begin_op s) (\<lambda>s1.
     rbind (open_inode path omode s1) (\<lambda>(r, s2).
       case r of
         None \<Rightarrow> end_ret (-1) s2
       | Some ip \<Rightarrow>
           let i = itable s2 ! ip in
           if i_type i = T_DEVICE \<and> (i_major i < 0 \<or> i_major i \<ge> 10) then put_ret ip (-1) s2
           else
             case filealloc s2 of
               (None, s3) \<Rightarrow> put_ret ip (-1) s3
             | (Some f, s3) \<Rightarrow>
                 (case fdalloc f s3 of
                    (None, s4) \<Rightarrow> rbind (fileclose f s4) (\<lambda>s5. put_ret ip (-1) s5)
                  | (Some fd, s4) \<Rightarrow> open_file ip f fd omode s4)))"

definition sys_open :: "'a filest_scheme \<Rightarrow> (int \<times> 'a filest_scheme) res" where
  "sys_open s =
     rbind (argstr 0 MAXPATH s) (\<lambda>(n, path).
       if n < 0 then Ok (-1, s)
       else rbind (argint 1 s) (\<lambda>omode. do_open (cstr path) (of_int omode) s))"

definition sys_mkdir :: "'a fsst_scheme \<Rightarrow> (int \<times> 'a fsst_scheme) res" where
  "sys_mkdir s =
     rbind (begin_op s) (\<lambda>s1.
     rbind (argstr 0 MAXPATH s1) (\<lambda>(n, path).
       if n < 0 then end_ret (-1) s1
       else rbind (create (cstr path) T_DIR 0 0 s1) (\<lambda>(r, s2).
         case r of None \<Rightarrow> end_ret (-1) s2 | Some ip \<Rightarrow> put_ret ip 0 s2)))"

definition sys_mknod :: "'a fsst_scheme \<Rightarrow> (int \<times> 'a fsst_scheme) res" where
  "sys_mknod s =
     rbind (begin_op s) (\<lambda>s1.
     rbind (argstr 0 MAXPATH s1) (\<lambda>(n, path).
       if n < 0 then end_ret (-1) s1
       else
         rbind (argint 1 s1) (\<lambda>major.
         rbind (argint 2 s1) (\<lambda>minor.
         rbind (create (cstr path) T_DEVICE (short major) (short minor) s1) (\<lambda>(r, s2).
           case r of None \<Rightarrow> end_ret (-1) s2 | Some ip \<Rightarrow> put_ret ip 0 s2)))))"

definition sys_chdir :: "'a fsst_scheme \<Rightarrow> (int \<times> 'a fsst_scheme) res" where
  "sys_chdir s =
     (let p = cur s in
      rbind (begin_op s) (\<lambda>s1.
      rbind (argstr 0 MAXPATH s1) (\<lambda>(n, path).
        if n < 0 then end_ret (-1) s1
        else rbind (namei (cstr path) s1) (\<lambda>(r, s2).
          case r of
            None \<Rightarrow> end_ret (-1) s2
          | Some ip \<Rightarrow>
              rbind (ilock ip s2) (\<lambda>s3.
                if i_type (itable s3 ! ip) \<noteq> T_DIR then put_ret ip (-1) s3
                else
                  rbind (iunlock ip s3) (\<lambda>s4.
                  rbind (iput (the (p_cwd (procs s4 ! p))) s4) (\<lambda>s5.
                  rbind (end_op s5) (\<lambda>s6.
                    Ok (0, upd_proc p (\<lambda>q. q\<lparr>p_cwd := Some ip\<rparr>) s6)))))))))"

section \<open>exec and pipe\<close>

text \<open>
  The loop of \<^verbatim>\<open>sys_exec\<close> that fetches the arguments: whether it ended, and the pages in
  \<^verbatim>\<open>argv\<close>. \<^verbatim>\<open>copyinstr\<close> leaves the bytes it copied in the page also when it fails.
\<close>

fun fetch_argv :: "uint64 \<Rightarrow> nat \<Rightarrow> uint64 list \<Rightarrow> 'a pstate_scheme \<Rightarrow> bool \<times> uint64 list \<times> 'a pstate_scheme" where
  "fetch_argv uargv 0 argv s = (False, argv, s)"
| "fetch_argv uargv (Suc k) argv s =
     (case fetchaddr (uargv + 8 * of_nat (length argv)) s of
        None \<Rightarrow> (False, argv, s)
      | Some uarg \<Rightarrow>
          if uarg = 0 then (True, argv, s)
          else let (pg, s1) = kalloc s in
            if pg = 0 then (False, argv, s1)
            else let (n, bs) = fetchstr uarg 4096 s1; s2 = s1\<lparr>mem := mstore pg bs (mem s1)\<rparr> in
              if n < 0 then (False, argv @ [pg], s2) else fetch_argv uargv k (argv @ [pg]) s2)"

definition sys_exec :: "'a filest_scheme \<Rightarrow> (int \<times> 'a filest_scheme) res" where
  "sys_exec s =
     rbind (argstr 0 MAXPATH s) (\<lambda>(n, path).
       if n < 0 then Ok (-1, s)
       else
         rbind (argaddr 1 s) (\<lambda>uargv.
           let (ok, argv, s1) = fetch_argv uargv MAXARG [] s in
           rbind (if ok then exec (cstr path) argv s1 else Ok (-1, s1)) (\<lambda>(ret, s2).
           rbind (rfold kfree argv s2) (\<lambda>s3. Ok (ret, s3)))))"

definition sys_pipe :: "'a filest_scheme \<Rightarrow> (int \<times> 'a filest_scheme) res" where
  "sys_pipe s =
     (let p = cur s in
      rbind (argaddr 0 s) (\<lambda>fdarray.
      rbind (pipealloc s) (\<lambda>(r, s1).
        case r of
          None \<Rightarrow> Ok (-1, s1)
        | Some (r0, w0) \<Rightarrow>
            let (fd0, s2) = fdalloc r0 s1;
                (fd1, s3) = (if fd0 = None then (None, s2) else fdalloc w0 s2);
                close_both = (\<lambda>s. rbind (fileclose r0 s) (\<lambda>s4. rbind (fileclose w0 s4) (\<lambda>s5. Ok (-1, s5))))
            in case fd1 of
                 None \<Rightarrow> close_both (case fd0 of None \<Rightarrow> s3 | Some d0 \<Rightarrow> set_fd p d0 None s3)
               | Some d1 \<Rightarrow>
                   let d0 = the fd0; pt = p_pagetable (procs s3 ! p);
                       (e0, s4) = copyout pt fdarray (int_bytes (int d0)) s3;
                       (e1, s5) = (if e0 < 0 then (-1, s4) else copyout pt (fdarray + 4) (int_bytes (int d1)) s4)
                   in if e1 < 0 then close_both (set_fd p d1 None (set_fd p d0 None s5)) else Ok (0, s5))))"

end
