(* ===== verification/Virtio.thy ===== *)
theory Virtio
  imports Sysfile
begin

text \<open>
  \<^verbatim>\<open>kernel/virtio_disk.c\<close>: the driver of the disk. The three regions of
  \<^verbatim>\<open>disk.pages\<close> are the fields \<open>vd_desc\<close>, \<open>vd_avail\<close>/\<open>vd_avail_idx\<close> and
  \<open>vd_used\<close>/\<open>vd_used_dev_idx\<close>; the address in a descriptor names the object it points to. The
  flag \<^verbatim>\<open>b->disk\<close> of each buffer is \<open>vd_bdisk\<close>. The device's registers are read through
  \<open>vd_regs\<close>; writes to them are recorded, newest first, in \<open>vd_out\<close>. The other theories use
  the effect of a completed request (\<open>virtio_disk_rw\<close> of the theory \<open>Bio\<close>).
\<close>

type_synonym uint16 = "16 word"

abbreviation NUM :: nat where "NUM \<equiv> 8"
abbreviation VRING_DESC_F_NEXT :: uint16 where "VRING_DESC_F_NEXT \<equiv> 1"
abbreviation VRING_DESC_F_WRITE :: uint16 where "VRING_DESC_F_WRITE \<equiv> 2"
abbreviation VIRTIO_BLK_T_IN :: nat where "VIRTIO_BLK_T_IN \<equiv> 0"
abbreviation VIRTIO_BLK_T_OUT :: nat where "VIRTIO_BLK_T_OUT \<equiv> 1"

datatype daddr = DNull | DOps nat | DData nat | DStatus nat

record virtq_desc =
  d_addr :: daddr
  d_len :: nat
  d_flags :: uint16
  d_next :: nat

record virtio_blk_req =
  r_type :: nat
  r_reserved :: nat
  r_sector :: nat

record vdisk =
  vd_desc :: "virtq_desc list"
  vd_avail :: "nat list"
  vd_avail_idx :: uint16
  vd_used :: "nat list"
  vd_used_dev_idx :: uint16
  vd_free :: "bool list"
  vd_used_idx :: uint16
  vd_info_b :: "nat option list"
  vd_info_status :: "byte list"
  vd_ops :: "virtio_blk_req list"
  vd_bdisk :: "bool list"
  vd_regs :: "nat \<Rightarrow> uint32"
  vd_out :: "(nat \<times> uint32) list"

record vst = filest +
  vd :: vdisk

definition desc0 :: virtq_desc where
  "desc0 = \<lparr>d_addr = DNull, d_len = 0, d_flags = 0, d_next = 0\<rparr>"

definition upd_vd :: "(vdisk \<Rightarrow> vdisk) \<Rightarrow> 'a vst_scheme \<Rightarrow> 'a vst_scheme" where
  "upd_vd f s = s\<lparr>vd := f (vd s)\<rparr>"

definition write_reg :: "nat \<Rightarrow> uint32 \<Rightarrow> vdisk \<Rightarrow> vdisk" where
  "write_reg r v d = d\<lparr>vd_out := (r, v) # vd_out d\<rparr>"

definition set_desc :: "nat \<Rightarrow> virtq_desc \<Rightarrow> vdisk \<Rightarrow> vdisk" where
  "set_desc i x d = d\<lparr>vd_desc := (vd_desc d)[i := x]\<rparr>"

section \<open>Initialisation\<close>

text \<open>\<open>pfn\<close> is the page number of \<^verbatim>\<open>disk.pages\<close>, from the linker.\<close>

definition negotiated :: "uint32 \<Rightarrow> uint32" where
  "negotiated f = f AND NOT (push_bit 5 1) AND NOT (push_bit 7 1) AND NOT (push_bit 11 1) AND NOT (push_bit 12 1)
     AND NOT (push_bit 27 1) AND NOT (push_bit 29 1) AND NOT (push_bit 28 1)"

definition virtio_disk_init :: "uint32 \<Rightarrow> 'a vst_scheme \<Rightarrow> 'a vst_scheme res" where
  "virtio_disk_init pfn s =
     (let r = vd_regs (vd s) in
      if r 0x000 \<noteq> 0x74726976 \<or> r 0x004 \<noteq> 1 \<or> r 0x008 \<noteq> 2 \<or> r 0x00c \<noteq> 0x554d4551
      then Panic ''could not find virtio disk''
      else if r 0x034 = 0 then Panic ''virtio disk has no queue 0''
      else if r 0x034 < of_nat NUM then Panic ''virtio disk max queue too short''
      else Ok (upd_vd (\<lambda>d. d\<lparr>
             vd_out := [(0x040, pfn), (0x038, of_nat NUM), (0x030, 0), (0x028, 4096), (0x070, 15), (0x070, 11),
                        (0x020, negotiated (r 0x010)), (0x070, 3), (0x070, 1)] @ vd_out d,
             vd_desc := replicate NUM desc0, vd_avail := replicate NUM 0, vd_avail_idx := 0,
             vd_used := replicate NUM 0, vd_used_dev_idx := 0, vd_free := replicate NUM True\<rparr>) s))"

section \<open>Descriptors\<close>

definition alloc_desc :: "vdisk \<Rightarrow> nat option \<times> vdisk" where
  "alloc_desc d =
     (case find_index (\<lambda>f. f) (vd_free d) of
        None \<Rightarrow> (None, d)
      | Some i \<Rightarrow> (Some i, d\<lparr>vd_free := (vd_free d)[i := False]\<rparr>))"

definition free_desc :: "nat \<Rightarrow> 'a vst_scheme \<Rightarrow> 'a vst_scheme res" where
  "free_desc i s =
     (if i \<ge> NUM then Panic ''free_desc 1''
      else if vd_free (vd s) ! i then Panic ''free_desc 2''
      else Ok (wakeup ChDiskFree
             (upd_vd (\<lambda>d. set_desc i desc0 (d\<lparr>vd_free := (vd_free d)[i := True]\<rparr>)) s)))"

definition busy :: "vdisk \<Rightarrow> nat" where
  "busy d = length (filter (\<lambda>i. \<not> vd_free d ! i) [0..<NUM])"

lemma wakeup_vd [simp]: "vd (wakeup ch s) = vd s"
  by (simp add: wakeup_def)

lemma busy_set_free:
  assumes "i < NUM" "\<not> vd_free d ! i" "length (vd_free d) = NUM"
  shows "busy (set_desc i x (d\<lparr>vd_free := (vd_free d)[i := True]\<rparr>)) < busy d"
proof -
  let ?P = "\<lambda>j. \<not> vd_free d ! j" and ?Q = "\<lambda>j. \<not> (vd_free d)[i := True] ! j"
  have "{j \<in> set [0..<NUM]. ?Q j} \<subset> {j \<in> set [0..<NUM]. ?P j}"
    using assms by (auto simp: nth_list_update split: if_splits)
  then have "card {j \<in> set [0..<NUM]. ?Q j} < card {j \<in> set [0..<NUM]. ?P j}"
    by (intro psubset_card_mono) auto
  moreover have "distinct (filter ?Q [0..<NUM])" "distinct (filter ?P [0..<NUM])" by simp_all
  ultimately show ?thesis
    using distinct_card [of "filter ?Q [0..<NUM]"] distinct_card [of "filter ?P [0..<NUM]"]
    by (simp add: busy_def set_desc_def)
qed

text \<open>
  \<^verbatim>\<open>free_chain\<close> ends because it cannot free a descriptor twice: \<^verbatim>\<open>free_desc\<close> panics.
  A \<open>vd_free\<close> of another length than the array has is no state of the program.
\<close>

function free_chain :: "nat \<Rightarrow> 'a vst_scheme \<Rightarrow> 'a vst_scheme res" where
  "free_chain i s =
     (let flag = d_flags (vd_desc (vd s) ! i); nxt = d_next (vd_desc (vd s) ! i) in
      if length (vd_free (vd s)) \<noteq> NUM then Panic ''undefined: desc[i]''
      else rbind (free_desc i s) (\<lambda>s1. if flag AND VRING_DESC_F_NEXT \<noteq> 0 then free_chain nxt s1 else Ok s1))"
  by pat_completeness auto
termination
  by (relation "measure (\<lambda>(i, s). busy (vd s))")
    (auto simp: free_desc_def upd_vd_def not_le split: if_splits intro!: busy_set_free)

declare free_chain.simps [simp del]

text \<open>\<open>alloc_n\<close> is the loop of \<^verbatim>\<open>alloc3_desc\<close>, \<open>got\<close> the descriptors allocated so far.\<close>

fun alloc_n :: "nat \<Rightarrow> nat list \<Rightarrow> 'a vst_scheme \<Rightarrow> (nat list option \<times> 'a vst_scheme) res" where
  "alloc_n 0 got s = Ok (Some got, s)"
| "alloc_n (Suc k) got s =
     (case alloc_desc (vd s) of
        (None, _) \<Rightarrow> rbind (rfold free_desc got s) (\<lambda>s1. Ok (None, s1))
      | (Some i, d) \<Rightarrow> alloc_n k (got @ [i]) (s\<lparr>vd := d\<rparr>))"

definition alloc3_desc :: "'a vst_scheme \<Rightarrow> (nat list option \<times> 'a vst_scheme) res" where
  "alloc3_desc s = alloc_n 3 [] s"

section \<open>Requests\<close>

text \<open>The descriptors, the command header and the ring entry of a request.\<close>

definition format_request :: "nat \<Rightarrow> nat \<Rightarrow> bool \<Rightarrow> nat \<Rightarrow> nat \<Rightarrow> nat \<Rightarrow> vdisk \<Rightarrow> vdisk" where
  "format_request b blockno write i0 i1 i2 d =
     (let d1 = d\<lparr>vd_ops := (vd_ops d)[i0 := \<lparr>r_type = (if write then VIRTIO_BLK_T_OUT else VIRTIO_BLK_T_IN),
                    r_reserved = 0, r_sector = (blockno * 2) mod 2 ^ 32\<rparr>]\<rparr>;
          d2 = set_desc i0 \<lparr>d_addr = DOps i0, d_len = 16, d_flags = VRING_DESC_F_NEXT, d_next = i1\<rparr> d1;
          d3 = set_desc i1 \<lparr>d_addr = DData b, d_len = BSIZE,
                 d_flags = (if write then 0 else VRING_DESC_F_WRITE) OR VRING_DESC_F_NEXT, d_next = i2\<rparr> d2;
          d4 = d3\<lparr>vd_info_status := (vd_info_status d3)[i0 := 0xff]\<rparr>;
          d5 = set_desc i2 \<lparr>d_addr = DStatus i0, d_len = 1, d_flags = VRING_DESC_F_WRITE, d_next = 0\<rparr> d4;
          d6 = d5\<lparr>vd_bdisk := (vd_bdisk d5)[b := True], vd_info_b := (vd_info_b d5)[i0 := Some b]\<rparr>;
          d7 = d6\<lparr>vd_avail := (vd_avail d6)[unat (vd_avail_idx d6) mod NUM := i0]\<rparr>
      in write_reg 0x050 0 (d7\<lparr>vd_avail_idx := vd_avail_idx d7 + 1\<rparr>))"

text \<open>
  \<^verbatim>\<open>virtio_disk_rw\<close> in two parts: up to the notification of the device, with the first
  descriptor as result or \<open>None\<close> when it has to sleep for descriptors; and after the wait for
  the interrupt, which is \<open>None\<close> while \<^verbatim>\<open>b->disk\<close> is 1.
\<close>

definition virtio_disk_submit :: "nat \<Rightarrow> bool \<Rightarrow> 'a vst_scheme \<Rightarrow> (nat option \<times> 'a vst_scheme) res" where
  "virtio_disk_submit b write s =
     rbind (alloc3_desc s) (\<lambda>(r, s1).
       case r of
         Some [i0, i1, i2] \<Rightarrow>
           Ok (Some i0, upd_vd (format_request b (b_blockno (bufs s1 ! b)) write i0 i1 i2) s1)
       | _ \<Rightarrow> Ok (None, s1))"

definition virtio_disk_finish :: "nat \<Rightarrow> nat \<Rightarrow> 'a vst_scheme \<Rightarrow> 'a vst_scheme option res" where
  "virtio_disk_finish b i0 s =
     (if vd_bdisk (vd s) ! b then Ok None
      else rbind (free_chain i0 (upd_vd (\<lambda>d. d\<lparr>vd_info_b := (vd_info_b d)[i0 := None]\<rparr>) s)) (\<lambda>s1. Ok (Some s1)))"

section \<open>The interrupt\<close>

text \<open>
  The driver trusts the identifiers in the used ring. An index outside \<^verbatim>\<open>disk.info\<close>, for
  which C defines no behaviour, is a panic of its own.
\<close>

lemma word_diff_step: "(a :: uint16) \<noteq> b \<Longrightarrow> unat (b - (a + 1)) < unat (b - a)"
proof -
  assume "a \<noteq> b"
  then have "b - a \<noteq> 0" by simp
  then have "unat ((b - a) - 1) < unat (b - a)"
    by (metis measure_unat)
  moreover have "b - (a + 1) = (b - a) - 1" by simp
  ultimately show ?thesis by metis
qed

function intr_loop :: "'a vst_scheme \<Rightarrow> 'a vst_scheme res" where
  "intr_loop s =
     (let d = vd s in
      if vd_used_idx d = vd_used_dev_idx d then Ok s
      else let id = vd_used d ! (unat (vd_used_idx d) mod NUM) in
        if id \<ge> NUM then Panic ''undefined: info[id]''
        else if vd_info_status d ! id \<noteq> 0 then Panic ''virtio_disk_intr status''
        else case vd_info_b d ! id of
          None \<Rightarrow> Panic ''kerneltrap''
        | Some b \<Rightarrow>
            intr_loop (wakeup (ChDisk b)
              (upd_vd (\<lambda>d. d\<lparr>vd_bdisk := (vd_bdisk d)[b := False], vd_used_idx := vd_used_idx d + 1\<rparr>) s)))"
  by pat_completeness auto
termination
  by (relation "measure (\<lambda>s. unat (vd_used_dev_idx (vd s) - vd_used_idx (vd s)))")
    (auto simp: upd_vd_def intro: word_diff_step)

declare intr_loop.simps [simp del]

definition virtio_disk_intr :: "'a vst_scheme \<Rightarrow> 'a vst_scheme res" where
  "virtio_disk_intr s = intr_loop (upd_vd (\<lambda>d. write_reg 0x064 (vd_regs d 0x060 AND 3) d) s)"

end
