(* ===== verification/Trap.thy ===== *)
theory Trap
  imports Virtio
begin

text \<open>
  System call dispatch (\<^verbatim>\<open>kernel/syscall.c\<close>), the process system calls
  (\<^verbatim>\<open>kernel/sysproc.c\<close>), traps (\<^verbatim>\<open>kernel/trap.c\<close>), the interrupt controller
  (\<^verbatim>\<open>kernel/plic.c\<close>) and the boot sequence (\<^verbatim>\<open>kernel/main.c\<close>, \<^verbatim>\<open>kernel/start.c\<close>).
  The control registers are those of the hart that executes (\<open>hart\<close>). The addresses of the
  assembly routines come from the linker and are fields of the state. The interrupts pending at
  the PLIC are a list from which a claim takes the first.
\<close>

record kst = vst +
  ticks :: uint32
  first :: bool
  sstatus :: uint64
  sepc :: uint64
  scause :: uint64
  stval :: uint64
  stvec :: uint64
  satp :: uint64
  sip :: uint64
  plic_pending :: "nat list"
  plic_regs :: "(uint64 \<times> uint32) list"
  kernel_pagetable :: uint64
  kernelvec :: uint64
  usertrap_addr :: uint64
  uservec :: uint64
  userret :: uint64
  etext :: uint64
  started :: bool

abbreviation SSTATUS_SPP :: uint64 where "SSTATUS_SPP \<equiv> 0x100"
abbreviation SSTATUS_SPIE :: uint64 where "SSTATUS_SPIE \<equiv> 0x20"
abbreviation SSTATUS_SIE :: uint64 where "SSTATUS_SIE \<equiv> 2"

definition MAKE_SATP :: "uint64 \<Rightarrow> uint64" where
  "MAKE_SATP pagetable = push_bit 60 8 OR drop_bit 12 pagetable"

section \<open>The process system calls\<close>

text \<open>
  What a system call does to its caller: it returns a value, it gives up the CPU in the middle
  of its work, or the process is gone.
\<close>

datatype sysret = Return uint64 | Blocked | Gone

definition ret_int :: "(int \<times> 's) res \<Rightarrow> (sysret \<times> 's) res" where
  "ret_int r = rbind r (\<lambda>(n, s). Ok (Return (of_int n), s))"

definition ret_io :: "(io \<times> 's) res \<Rightarrow> (sysret \<times> 's) res" where
  "ret_io r = rbind r (\<lambda>(x, s). Ok (case x of Ret n \<Rightarrow> Return (of_int n) | Block _ \<Rightarrow> Blocked, s))"

definition sys_exit :: "'a filest_scheme \<Rightarrow> (sysret \<times> 'a filest_scheme) res" where
  "sys_exit s = rbind (argint 0 s) (\<lambda>n. rbind (exit n s) (\<lambda>s1. Ok (Gone, s1)))"

definition sys_getpid :: "'a pstate_scheme \<Rightarrow> int" where
  "sys_getpid s = p_pid (procs s ! cur s)"

definition sys_fork :: "'a filest_scheme \<Rightarrow> (int \<times> 'a filest_scheme) res" where
  "sys_fork s = fork s"

definition sys_wait :: "'a pstate_scheme \<Rightarrow> (sysret \<times> 'a pstate_scheme) res" where
  "sys_wait s =
     rbind (argaddr 0 s) (\<lambda>p.
     rbind (wait (cur s) p s) (\<lambda>(r, s1).
       Ok (case r of None \<Rightarrow> Blocked | Some n \<Rightarrow> Return (of_int n), s1)))"

definition sys_sbrk :: "'a pstate_scheme \<Rightarrow> (int \<times> 'a pstate_scheme) res" where
  "sys_sbrk s =
     rbind (argint 0 s) (\<lambda>n.
       let addr = sint (ucast (p_sz (procs s ! cur s)) :: uint32) in
       rbind (growproc (cur s) n s) (\<lambda>(r, s1). Ok (if r < 0 then -1 else addr, s1)))"

text \<open>
  The loop of \<^verbatim>\<open>sys_sleep\<close>, entered again after each wakeup. The comparison is unsigned.
\<close>

definition sleep_loop :: "uint32 \<Rightarrow> int \<Rightarrow> 'a kst_scheme \<Rightarrow> (sysret \<times> 'a kst_scheme) res" where
  "sleep_loop ticks0 n s =
     (if ticks s - ticks0 < of_int n then
        if p_killed (procs s ! cur s) then Ok (Return (- 1), s)
        else rbind (sleep (cur s) ChTicks s) (\<lambda>s1. Ok (Blocked, s1))
      else Ok (Return 0, s))"

definition sys_sleep :: "'a kst_scheme \<Rightarrow> (sysret \<times> 'a kst_scheme) res" where
  "sys_sleep s = rbind (argint 0 s) (\<lambda>n. sleep_loop (ticks s) n s)"

definition sys_kill :: "'a pstate_scheme \<Rightarrow> (int \<times> 'a pstate_scheme) res" where
  "sys_kill s = rbind (argint 0 s) (\<lambda>pid. Ok (kill pid s))"

definition sys_uptime :: "'a kst_scheme \<Rightarrow> uint64" where
  "sys_uptime s = ucast (ticks s)"

section \<open>Dispatch\<close>

definition syscalls :: "int \<Rightarrow> ('a kst_scheme \<Rightarrow> (sysret \<times> 'a kst_scheme) res) option" where
  "syscalls num =
     (if num = 1 then Some (\<lambda>s. ret_int (sys_fork s))
      else if num = 2 then Some sys_exit
      else if num = 3 then Some sys_wait
      else if num = 4 then Some (\<lambda>s. ret_int (sys_pipe s))
      else if num = 5 then Some (\<lambda>s. ret_io (sys_read s))
      else if num = 6 then Some (\<lambda>s. ret_int (sys_kill s))
      else if num = 7 then Some (\<lambda>s. ret_int (sys_exec s))
      else if num = 8 then Some (\<lambda>s. ret_int (sys_fstat s))
      else if num = 9 then Some (\<lambda>s. ret_int (sys_chdir s))
      else if num = 10 then Some (\<lambda>s. ret_int (sys_dup s))
      else if num = 11 then Some (\<lambda>s. Ok (Return (of_int (sys_getpid s)), s))
      else if num = 12 then Some (\<lambda>s. ret_int (sys_sbrk s))
      else if num = 13 then Some sys_sleep
      else if num = 14 then Some (\<lambda>s. Ok (Return (sys_uptime s), s))
      else if num = 15 then Some (\<lambda>s. ret_int (sys_open s))
      else if num = 16 then Some (\<lambda>s. ret_io (sys_write s))
      else if num = 17 then Some (\<lambda>s. ret_int (sys_mknod s))
      else if num = 18 then Some (\<lambda>s. ret_int (sys_unlink s))
      else if num = 19 then Some (\<lambda>s. ret_int (sys_link s))
      else if num = 20 then Some (\<lambda>s. ret_int (sys_mkdir s))
      else if num = 21 then Some (\<lambda>s. ret_int (sys_close s))
      else if num = 22 then Some (\<lambda>s. rbind (sys_mmap s) (\<lambda>(a, s1). Ok (Return a, s1)))
      else if num = 23 then Some (\<lambda>s. ret_int (sys_munmap s))
      else None)"

definition syscall :: "'a kst_scheme \<Rightarrow> (sysret \<times> 'a kst_scheme) res" where
  "syscall s =
     (let p = cur s; num = sint (ucast (tf_get p TF_A7 s) :: uint32) in
      case syscalls num of
        Some f \<Rightarrow>
          rbind (f s) (\<lambda>(r, s1).
            Ok (r, case r of Return v \<Rightarrow> tf_set p TF_A0 v s1 | _ \<Rightarrow> s1))
      | None \<Rightarrow>
          rbind (printf (bstr ''%d %s: unknown sys call %d'' @ [10])
                   [VInt (p_pid (procs s ! p)), VStr (Some (cstr (p_name (procs s ! p)))), VInt num] s) (\<lambda>s1.
            Ok (Return (- 1), tf_set p TF_A0 (- 1) s1)))"

section \<open>The interrupt controller\<close>

abbreviation UART0_IRQ :: nat where "UART0_IRQ \<equiv> 10"
abbreviation VIRTIO0_IRQ :: nat where "VIRTIO0_IRQ \<equiv> 1"

definition PLIC_SENABLE :: "nat \<Rightarrow> uint64" where
  "PLIC_SENABLE h = PLIC + 0x2080 + of_nat h * 0x100"

definition PLIC_SPRIORITY :: "nat \<Rightarrow> uint64" where
  "PLIC_SPRIORITY h = PLIC + 0x201000 + of_nat h * 0x2000"

definition PLIC_SCLAIM :: "nat \<Rightarrow> uint64" where
  "PLIC_SCLAIM h = PLIC + 0x201004 + of_nat h * 0x2000"

definition plic_write :: "uint64 \<Rightarrow> uint32 \<Rightarrow> 'a kst_scheme \<Rightarrow> 'a kst_scheme" where
  "plic_write a v s = s\<lparr>plic_regs := plic_regs s @ [(a, v)]\<rparr>"

definition plicinit :: "'a kst_scheme \<Rightarrow> 'a kst_scheme" where
  "plicinit s = plic_write (PLIC + of_nat VIRTIO0_IRQ * 4) 1 (plic_write (PLIC + of_nat UART0_IRQ * 4) 1 s)"

definition plicinithart :: "'a kst_scheme \<Rightarrow> 'a kst_scheme" where
  "plicinithart s =
     plic_write (PLIC_SPRIORITY (hart s)) 0
       (plic_write (PLIC_SENABLE (hart s)) (push_bit UART0_IRQ 1 OR push_bit VIRTIO0_IRQ 1) s)"

definition plic_claim :: "'a kst_scheme \<Rightarrow> nat \<times> 'a kst_scheme" where
  "plic_claim s =
     (case plic_pending s of
        [] \<Rightarrow> (0, s)
      | irq # rest \<Rightarrow> (irq, s\<lparr>plic_pending := rest\<rparr>))"

definition plic_complete :: "nat \<Rightarrow> 'a kst_scheme \<Rightarrow> 'a kst_scheme" where
  "plic_complete irq s = plic_write (PLIC_SCLAIM (hart s)) (of_nat irq) s"

section \<open>Traps\<close>

definition trapinithart :: "'a kst_scheme \<Rightarrow> 'a kst_scheme" where
  "trapinithart s = s\<lparr>stvec := kernelvec s\<rparr>"

definition clockintr :: "'a kst_scheme \<Rightarrow> 'a kst_scheme" where
  "clockintr s = wakeup ChTicks (s\<lparr>ticks := ticks s + 1\<rparr>)"

definition devintr :: "'a kst_scheme \<Rightarrow> (int \<times> 'a kst_scheme) res" where
  "devintr s =
     (if scause s AND 0x8000000000000000 \<noteq> 0 \<and> scause s AND 0xff = 9 then
        let (irq, s1) = plic_claim s in
        rbind (if irq = UART0_IRQ then uartintr s1
               else if irq = VIRTIO0_IRQ then virtio_disk_intr s1
               else if irq \<noteq> 0 then printf (bstr ''unexpected interrupt irq=%d'' @ [10]) [VInt (int irq)] s1
               else Ok s1)
          (\<lambda>s2. Ok (1, if irq \<noteq> 0 then plic_complete irq s2 else s2))
      else if scause s = 0x8000000000000001 then
        let s1 = (if hart s = 0 then clockintr s else s)
        in Ok (2, s1\<lparr>sip := sip s1 AND NOT 2\<rparr>)
      else Ok (0, s))"

text \<open>
  Where a trap handler goes: to user space with a page table, back to interrupted kernel code,
  or to the scheduler (after \<^verbatim>\<open>yield\<close> or a blocking system call, or for good).
\<close>

datatype control = ToUserSpace uint64 uint64 | ToKernelCode | Yielded | Waiting | Terminated

definition usertrapret :: "'a kst_scheme \<Rightarrow> control \<times> 'a kst_scheme" where
  "usertrapret s =
     (let p = cur s;
          s1 = s\<lparr>sstatus := sstatus s AND NOT SSTATUS_SIE, stvec := TRAMPOLINE + (uservec s - trampoline s)\<rparr>;
          s2 = tf_set p TF_KERNEL_SATP (satp s1) s1;
          s3 = tf_set p TF_KERNEL_SP (p_kstack (procs s2 ! p) + PGSIZE) s2;
          s4 = tf_set p TF_KERNEL_TRAP (usertrap_addr s3) s3;
          s5 = tf_set p TF_KERNEL_HARTID (of_nat (hart s4)) s4;
          s6 = s5\<lparr>sstatus := (sstatus s5 AND NOT SSTATUS_SPP) OR SSTATUS_SPIE\<rparr>;
          s7 = s6\<lparr>sepc := tf_get p TF_EPC s6\<rparr>
      in (ToUserSpace (TRAMPOLINE + (userret s7 - trampoline s7)) (MAKE_SATP (p_pagetable (procs s7 ! p))), s7))"

definition usertrap_end :: "nat \<Rightarrow> int \<Rightarrow> 'a kst_scheme \<Rightarrow> (control \<times> 'a kst_scheme) res" where
  "usertrap_end p which_dev s =
     (if p_killed (procs s ! p) then rbind (exit (-1) s) (\<lambda>s1. Ok (Terminated, s1))
      else if which_dev = 2 then rbind (yield p s) (\<lambda>s1. Ok (Yielded, s1))
      else Ok (usertrapret s))"

definition usertrap_other :: "nat \<Rightarrow> 'a kst_scheme \<Rightarrow> (control \<times> 'a kst_scheme) res" where
  "usertrap_other p s =
     rbind (devintr s) (\<lambda>(which_dev, s1).
       if which_dev \<noteq> 0 then usertrap_end p which_dev s1
       else
         rbind (printf (bstr ''usertrap(): unexpected scause %p pid=%d'' @ [10])
                  [VPtr (scause s1), VInt (p_pid (procs s1 ! p))] s1) (\<lambda>s2.
         rbind (printf (bstr ''            sepc=%p stval=%p'' @ [10]) [VPtr (sepc s2), VPtr (stval s2)] s2) (\<lambda>s3.
           usertrap_end p 0 (upd_proc p (\<lambda>q. q\<lparr>p_killed := True\<rparr>) s3))))"

definition usertrap :: "'a kst_scheme \<Rightarrow> (control \<times> 'a kst_scheme) res" where
  "usertrap s =
     (if sstatus s AND SSTATUS_SPP \<noteq> 0 then Panic ''usertrap: not from user mode''
      else
        let s1 = s\<lparr>stvec := kernelvec s\<rparr>; p = cur s1; s2 = tf_set p TF_EPC (sepc s1) s1 in
        if scause s2 = 8 then
          if p_killed (procs s2 ! p) then rbind (exit (-1) s2) (\<lambda>s3. Ok (Terminated, s3))
          else
            let s3 = tf_set p TF_EPC (tf_get p TF_EPC s2 + 4) s2 in
            rbind (syscall (s3\<lparr>sstatus := sstatus s3 OR SSTATUS_SIE\<rparr>)) (\<lambda>(r, s4).
              case r of
                Return _ \<Rightarrow> usertrap_end p 0 s4
              | Blocked \<Rightarrow> Ok (Waiting, s4)
              | Gone \<Rightarrow> Ok (Terminated, s4))
        else if scause s2 = 12 \<or> scause s2 = 13 \<or> scause s2 = 15 then
          rbind (vma_fault p (stval s2) (scause s2) s2) (\<lambda>(r, s3).
            if r = 0 then usertrap_end p 0 s3 else usertrap_other p s3)
        else usertrap_other p s2)"

text \<open>
  \<^verbatim>\<open>kerneltrap\<close>: when it yields, the registers are restored once the process runs again
  (\<open>restore_trap\<close>).
\<close>

definition restore_trap :: "uint64 \<Rightarrow> uint64 \<Rightarrow> 'a kst_scheme \<Rightarrow> 'a kst_scheme" where
  "restore_trap epc status s = s\<lparr>sepc := epc, sstatus := status\<rparr>"

definition kerneltrap :: "'a kst_scheme \<Rightarrow> (control \<times> 'a kst_scheme) res" where
  "kerneltrap s =
     (if sstatus s AND SSTATUS_SPP = 0 then Panic ''kerneltrap: not from supervisor mode''
      else if sstatus s AND SSTATUS_SIE \<noteq> 0 then Panic ''kerneltrap: interrupts enabled''
      else
        rbind (devintr s) (\<lambda>(which_dev, s1).
          if which_dev = 0 then Panic ''kerneltrap''
          else case myproc s1 of
            Some p \<Rightarrow>
              if which_dev = 2 \<and> p_state (procs s1 ! p) = RUNNING
              then rbind (yield p s1) (\<lambda>s2. Ok (Yielded, s2))
              else Ok (ToKernelCode, restore_trap (sepc s) (sstatus s) s1)
          | None \<Rightarrow> Ok (ToKernelCode, restore_trap (sepc s) (sstatus s) s1)))"

text \<open>\<^verbatim>\<open>forkret\<close>, where a new process starts.\<close>

definition forkret_run :: "'a kst_scheme \<Rightarrow> (control \<times> 'a kst_scheme) res" where
  "forkret_run s =
     rbind (if first s then fsinit ROOTDEV (s\<lparr>first := False\<rparr>) else Ok s) (\<lambda>s1. Ok (usertrapret s1))"

section \<open>Booting\<close>

definition kvminit :: "'a kst_scheme \<Rightarrow> 'a kst_scheme res" where
  "kvminit s = rbind (kvmmake (etext s) (trampoline s) s) (\<lambda>(pt, s1). Ok (s1\<lparr>kernel_pagetable := pt\<rparr>))"

definition kvminithart :: "'a kst_scheme \<Rightarrow> 'a kst_scheme" where
  "kvminithart s = s\<lparr>satp := MAKE_SATP (kernel_pagetable s)\<rparr>"

text \<open>\<^verbatim>\<open>main\<close> on hart 0 up to the scheduler, and on the other harts once hart 0 has started them.\<close>

definition main0 :: "uint32 \<Rightarrow> 'a kst_scheme \<Rightarrow> 'a kst_scheme res" where
  "main0 pfn s =
     rbind (printf [10] [] (printfinit (consoleinit s))) (\<lambda>s1.
     rbind (printf (bstr ''xv6 kernel is booting'' @ [10]) [] s1) (\<lambda>s2.
     rbind (printf [10] [] s2) (\<lambda>s3.
     rbind (kinit s3) (\<lambda>s4.
     rbind (kvminit s4) (\<lambda>s5.
       let s6 = iinit (binit (plicinithart (plicinit (trapinithart (procinit (kvminithart s5)))))) in
     rbind (virtio_disk_init pfn s6) (\<lambda>s7.
     rbind (userinit s7) (\<lambda>s8. Ok (s8\<lparr>started := True\<rparr>))))))))"

definition main_other :: "'a kst_scheme \<Rightarrow> 'a kst_scheme res" where
  "main_other s =
     (if \<not> started s then Sleep ''started''
      else rbind (printf (bstr ''hart %d starting'' @ [10]) [VInt (int (hart s))] s) (\<lambda>s1.
             Ok (plicinithart (trapinithart (kvminithart s1)))))"

text \<open>
  \<^verbatim>\<open>start\<close> and \<^verbatim>\<open>timerinit\<close> run in machine mode, before any of the state above is in use.
\<close>

record mregs =
  m_mstatus :: uint64
  m_mepc :: uint64
  m_satp :: uint64
  m_medeleg :: uint64
  m_mideleg :: uint64
  m_sie :: uint64
  m_pmpaddr0 :: uint64
  m_pmpcfg0 :: uint64
  m_mscratch :: uint64
  m_mtvec :: uint64
  m_mie :: uint64
  m_tp :: uint64
  m_mhartid :: nat
  m_mtime :: uint64
  m_mtimecmp :: "uint64 list"
  m_timer_scratch :: "uint64 list list"

definition CLINT_MTIMECMP :: "nat \<Rightarrow> uint64" where
  "CLINT_MTIMECMP h = 0x2004000 + 8 * of_nat h"

text \<open>\<open>tv\<close> is the address of \<^verbatim>\<open>timervec\<close> and \<open>sc\<close> that of \<^verbatim>\<open>timer_scratch\<close>.\<close>

definition timerinit :: "uint64 \<Rightarrow> uint64 \<Rightarrow> mregs \<Rightarrow> mregs" where
  "timerinit tv sc m =
     (let id = m_mhartid m; interval = 1000000;
          m1 = m\<lparr>m_mtimecmp := (m_mtimecmp m)[id := m_mtime m + interval]\<rparr>;
          m2 = m1\<lparr>m_timer_scratch := (m_timer_scratch m1)[id :=
                 ((m_timer_scratch m1 ! id)[3 := CLINT_MTIMECMP id])[4 := interval]]\<rparr>
      in m2\<lparr>m_mscratch := sc + 40 * of_nat id, m_mtvec := tv,
            m_mstatus := m_mstatus m2 OR push_bit 3 1, m_mie := m_mie m2 OR push_bit 7 1\<rparr>)"

definition start :: "uint64 \<Rightarrow> uint64 \<Rightarrow> uint64 \<Rightarrow> mregs \<Rightarrow> mregs" where
  "start main tv sc m =
     (let m1 = m\<lparr>m_mstatus := (m_mstatus m AND NOT (push_bit 11 3)) OR push_bit 11 1, m_mepc := main, m_satp := 0,
                 m_medeleg := 0xffff, m_mideleg := 0xffff,
                 m_sie := m_sie m OR push_bit 9 1 OR push_bit 5 1 OR push_bit 1 1,
                 m_pmpaddr0 := 0x3fffffffffffff, m_pmpcfg0 := 0xf\<rparr>;
          m2 = timerinit tv sc m1
      in m2\<lparr>m_tp := of_nat (m_mhartid m2)\<rparr>)"

end
