(* ===== verification/Spinlock.thy ===== *)
theory Spinlock
  imports Xv6_Prelude
begin

text \<open>
  \<^verbatim>\<open>kernel/spinlock.c\<close> on several harts. \<open>push_off\<close>, \<open>pop_off\<close> and \<open>holding\<close>
  are functions of the hart's \<^verbatim>\<open>struct cpu\<close> and of the lock; \<^verbatim>\<open>acquire\<close> and
  \<^verbatim>\<open>release\<close> are cut at their shared-memory accesses into the steps of the relation
  \<open>lock_step\<close>, so that the harts interleave at every access. \<open>held\<close> is a ghost field: the
  locks whose \<^verbatim>\<open>acquire\<close> has returned and whose \<^verbatim>\<open>release\<close> has not been called.

  The other theories treat the code between \<^verbatim>\<open>acquire\<close> and \<^verbatim>\<open>release\<close> as one
  atomic step; the mutual exclusion proved here is what allows that.
\<close>

section \<open>Locks and harts\<close>

record spinlock =
  locked :: bool
  lk_cpu :: "nat option"

record cpu =
  noff :: int
  intena :: bool
  intr :: bool

definition initlock :: spinlock where
  "initlock = \<lparr>locked = False, lk_cpu = None\<rparr>"

definition holding :: "nat \<Rightarrow> spinlock \<Rightarrow> bool" where
  "holding c lk \<longleftrightarrow> locked lk \<and> lk_cpu lk = Some c"

definition push_off :: "cpu \<Rightarrow> cpu" where
  "push_off c =
     (let old = intr c;
          c1 = c\<lparr>intr := False\<rparr>;
          c2 = (if noff c1 = 0 then c1\<lparr>intena := old\<rparr> else c1)
      in c2\<lparr>noff := noff c2 + 1\<rparr>)"

definition pop_off :: "cpu \<Rightarrow> cpu res" where
  "pop_off c =
     (if intr c then Panic ''pop_off - interruptible''
      else if noff c < 1 then Panic ''pop_off''
      else let c1 = c\<lparr>noff := noff c - 1\<rparr>
           in Ok (if noff c1 = 0 \<and> intena c1 then c1\<lparr>intr := True\<rparr> else c1))"

section \<open>Acquire and release, access by access\<close>

text \<open>Where a hart is inside \<^verbatim>\<open>acquire\<close> or \<^verbatim>\<open>release\<close>; \<open>Stopped\<close> is a panic.\<close>

datatype pc =
  Running
| AcqSpin nat
| AcqSet nat
| RelStore nat
| RelPop
| Stopped string

record lstate =
  lks :: "nat \<Rightarrow> spinlock"
  harts :: "nat \<Rightarrow> cpu"
  pcs :: "nat \<Rightarrow> pc"
  held :: "nat \<Rightarrow> nat set"

definition acquire_start :: "nat \<Rightarrow> nat \<Rightarrow> lstate \<Rightarrow> lstate" where
  "acquire_start c l s =
     s\<lparr>harts := (harts s)(c := push_off (harts s c)),
       pcs := (pcs s)(c := if holding c (lks s l) then Stopped ''acquire'' else AcqSpin l)\<rparr>"

definition acquire_swap :: "nat \<Rightarrow> nat \<Rightarrow> lstate \<Rightarrow> lstate" where
  "acquire_swap c l s =
     (let old = locked (lks s l) in
      s\<lparr>lks := (lks s)(l := (lks s l)\<lparr>locked := True\<rparr>),
        pcs := (pcs s)(c := if old then AcqSpin l else AcqSet l)\<rparr>)"

definition acquire_set :: "nat \<Rightarrow> nat \<Rightarrow> lstate \<Rightarrow> lstate" where
  "acquire_set c l s =
     s\<lparr>lks := (lks s)(l := (lks s l)\<lparr>lk_cpu := Some c\<rparr>),
       pcs := (pcs s)(c := Running),
       held := (held s)(c := insert l (held s c))\<rparr>"

definition release_start :: "nat \<Rightarrow> nat \<Rightarrow> lstate \<Rightarrow> lstate" where
  "release_start c l s =
     (if \<not> holding c (lks s l) then s\<lparr>pcs := (pcs s)(c := Stopped ''release'')\<rparr>
      else s\<lparr>lks := (lks s)(l := (lks s l)\<lparr>lk_cpu := None\<rparr>),
             pcs := (pcs s)(c := RelStore l),
             held := (held s)(c := held s c - {l})\<rparr>)"

definition release_store :: "nat \<Rightarrow> nat \<Rightarrow> lstate \<Rightarrow> lstate" where
  "release_store c l s =
     s\<lparr>lks := (lks s)(l := (lks s l)\<lparr>locked := False\<rparr>), pcs := (pcs s)(c := RelPop)\<rparr>"

definition release_pop :: "nat \<Rightarrow> lstate \<Rightarrow> lstate" where
  "release_pop c s =
     (case pop_off (harts s c) of
        Ok h \<Rightarrow> s\<lparr>harts := (harts s)(c := h), pcs := (pcs s)(c := Running)\<rparr>
      | Panic m \<Rightarrow> s\<lparr>pcs := (pcs s)(c := Stopped m)\<rparr>
      | Sleep m \<Rightarrow> s)"

inductive lock_step :: "lstate \<Rightarrow> lstate \<Rightarrow> bool" where
  acquire: "pcs s c = Running \<Longrightarrow> lock_step s (acquire_start c l s)"
| swap: "pcs s c = AcqSpin l \<Longrightarrow> lock_step s (acquire_swap c l s)"
| set: "pcs s c = AcqSet l \<Longrightarrow> lock_step s (acquire_set c l s)"
| release: "pcs s c = Running \<Longrightarrow> lock_step s (release_start c l s)"
| store: "pcs s c = RelStore l \<Longrightarrow> lock_step s (release_store c l s)"
| pop: "pcs s c = RelPop \<Longrightarrow> lock_step s (release_pop c s)"

definition lock_init :: "lstate \<Rightarrow> bool" where
  "lock_init s \<longleftrightarrow> (\<forall>l. lks s l = initlock) \<and> (\<forall>c. pcs s c = Running \<and> held s c = {} \<and> noff (harts s c) = 0)"

inductive reachable :: "lstate \<Rightarrow> bool" where
  init: "lock_init s \<Longrightarrow> reachable s"
| step: "reachable s \<Longrightarrow> lock_step s s' \<Longrightarrow> reachable s'"

inductive_cases lock_stepE: "lock_step s s'"

section \<open>The invariant\<close>

text \<open>Hart \<open>c\<close> owns \<open>l\<close>: its swap of \<^verbatim>\<open>lk->locked\<close> found 0 and it has not stored
  0 back.\<close>

definition owns :: "lstate \<Rightarrow> nat \<Rightarrow> nat \<Rightarrow> bool" where
  "owns s c l \<longleftrightarrow> l \<in> held s c \<or> pcs s c = AcqSet l \<or> pcs s c = RelStore l"

definition excl_inv :: "lstate \<Rightarrow> bool" where
  "excl_inv s \<longleftrightarrow> (\<forall>c c' l. owns s c l \<longrightarrow> owns s c' l \<longrightarrow> c = c') \<and> (\<forall>c l. owns s c l \<longrightarrow> locked (lks s l))"

definition cpu_inv :: "lstate \<Rightarrow> bool" where
  "cpu_inv s \<longleftrightarrow> (\<forall>c l. l \<in> held s c \<longleftrightarrow> lk_cpu (lks s l) = Some c) \<and>
     (\<forall>c l. pcs s c = AcqSet l \<or> pcs s c = RelStore l \<longrightarrow> l \<notin> held s c)"

definition depth_ok :: "pc \<Rightarrow> nat \<Rightarrow> int \<Rightarrow> bool" where
  "depth_ok p n d \<longleftrightarrow> (case p of Running \<Rightarrow> d = int n | Stopped _ \<Rightarrow> int n \<le> d | _ \<Rightarrow> d = int n + 1)"

definition depth_inv :: "lstate \<Rightarrow> bool" where
  "depth_inv s \<longleftrightarrow> (\<forall>c. finite (held s c) \<and> (0 < noff (harts s c) \<longrightarrow> \<not> intr (harts s c)) \<and>
     depth_ok (pcs s c) (card (held s c)) (noff (harts s c)))"

definition lock_inv :: "lstate \<Rightarrow> bool" where
  "lock_inv s \<longleftrightarrow> excl_inv s \<and> cpu_inv s \<and> depth_inv s"

lemmas lock_ops = acquire_start_def acquire_swap_def acquire_set_def release_start_def
  release_store_def release_pop_def

lemma depth_ok_simps [simp]:
  "depth_ok Running n d \<longleftrightarrow> d = int n" "depth_ok (Stopped m) n d \<longleftrightarrow> int n \<le> d"
  "depth_ok (AcqSpin l) n d \<longleftrightarrow> d = int n + 1" "depth_ok (AcqSet l) n d \<longleftrightarrow> d = int n + 1"
  "depth_ok (RelStore l) n d \<longleftrightarrow> d = int n + 1" "depth_ok RelPop n d \<longleftrightarrow> d = int n + 1"
  by (simp_all add: depth_ok_def)

lemma push_off_simps [simp]:
  "noff (push_off c) = noff c + 1" "\<not> intr (push_off c)"
  by (simp_all add: push_off_def Let_def)

lemma pop_off_cases:
  assumes "\<not> intr c" "1 \<le> noff c"
  obtains c' where "pop_off c = Ok c'" "noff c' = noff c - 1" "0 < noff c' \<longrightarrow> \<not> intr c'"
  using assms by (auto simp: pop_off_def Let_def)

lemma lock_inv_init: "lock_init s \<Longrightarrow> lock_inv s"
  by (auto simp: lock_init_def lock_inv_def excl_inv_def cpu_inv_def depth_inv_def owns_def initlock_def)

lemma excl_inv_step:
  assumes "excl_inv s" "cpu_inv s" "lock_step s s'"
  shows "excl_inv s'"
  using assms(3)
proof cases
  case (acquire c l)
  then show ?thesis using assms(1) by (auto simp: excl_inv_def owns_def lock_ops split: if_splits)
next
  case (swap c l)
  then show ?thesis using assms(1)
    unfolding excl_inv_def owns_def lock_ops Let_def
    by (auto split: if_splits)
next
  case (set c l)
  then show ?thesis using assms(1)
    by (auto simp: excl_inv_def owns_def lock_ops split: if_splits)
next
  case (release c l)
  then show ?thesis using assms(1,2)
    by (auto simp: excl_inv_def cpu_inv_def holding_def owns_def lock_ops split: if_splits)
next
  case (store c l)
  then show ?thesis using assms(1,2)
    by (auto simp: excl_inv_def cpu_inv_def owns_def lock_ops split: if_splits)
next
  case (pop c)
  then show ?thesis using assms(1)
    by (auto simp: excl_inv_def owns_def lock_ops split: if_splits res.splits)
qed

lemma cpu_inv_step:
  assumes "excl_inv s" "cpu_inv s" "lock_step s s'"
  shows "cpu_inv s'"
  using assms(3)
proof cases
  case (acquire c l)
  then show ?thesis using assms(2) by (auto simp: cpu_inv_def lock_ops split: if_splits)
next
  case (swap c l)
  then show ?thesis using assms(1,2)
    unfolding cpu_inv_def excl_inv_def owns_def lock_ops Let_def by (auto split: if_splits)
next
  case (set c l)
  then show ?thesis using assms
    unfolding cpu_inv_def excl_inv_def owns_def lock_ops
    by (auto split: if_splits)
next
  case (release c l)
  then show ?thesis using assms(2)
    by (auto simp: cpu_inv_def holding_def lock_ops split: if_splits)
next
  case (store c l)
  then show ?thesis using assms(2) by (auto simp: cpu_inv_def lock_ops split: if_splits)
next
  case (pop c)
  then show ?thesis using assms(2) by (auto simp: cpu_inv_def lock_ops split: if_splits res.splits)
qed

lemma depth_invI:
  assumes "depth_inv s" "\<And>c'. c' \<noteq> c \<Longrightarrow> held s' c' = held s c' \<and> harts s' c' = harts s c' \<and> pcs s' c' = pcs s c'"
    and "finite (held s' c)" "0 < noff (harts s' c) \<Longrightarrow> \<not> intr (harts s' c)"
    "depth_ok (pcs s' c) (card (held s' c)) (noff (harts s' c))"
  shows "depth_inv s'"
  unfolding depth_inv_def
proof
  fix d
  show "finite (held s' d) \<and> (0 < noff (harts s' d) \<longrightarrow> \<not> intr (harts s' d)) \<and>
     depth_ok (pcs s' d) (card (held s' d)) (noff (harts s' d))"
    using assms by (cases "d = c") (simp_all add: depth_inv_def)
qed

lemma depth_inv_step:
  assumes "cpu_inv s" "depth_inv s" "lock_step s s'"
  shows "depth_inv s'"
proof -
  have d: "finite (held s c)" "0 < noff (harts s c) \<Longrightarrow> \<not> intr (harts s c)"
    "depth_ok (pcs s c) (card (held s c)) (noff (harts s c))" for c
    using assms(2) by (simp_all add: depth_inv_def)
  from assms(3) show ?thesis
  proof cases
    case (acquire c l)
    then show ?thesis using d [of c]
      by (intro depth_invI [OF assms(2), of c]) (auto simp: lock_ops)
  next
    case (swap c l)
    then show ?thesis using d [of c]
      by (intro depth_invI [OF assms(2), of c]) (auto simp: lock_ops Let_def)
  next
    case (set c l)
    then have "l \<notin> held s c" using assms(1) by (auto simp: cpu_inv_def)
    with set show ?thesis using d [of c]
      by (intro depth_invI [OF assms(2), of c]) (auto simp: lock_ops)
  next
    case (release c l)
    show ?thesis
    proof (cases "holding c (lks s l)")
      case True
      then have "l \<in> held s c" using assms(1) by (auto simp: cpu_inv_def holding_def)
      moreover from this have "0 < card (held s c)" using d(1) [of c] by (auto simp: card_gt_0_iff)
      ultimately show ?thesis using release d [of c] True
        by (intro depth_invI [OF assms(2), of c]) (auto simp: lock_ops card_Diff_singleton)
    next
      case False
      then show ?thesis using release d [of c]
        by (intro depth_invI [OF assms(2), of c]) (auto simp: lock_ops)
    qed
  next
    case (store c l)
    then show ?thesis using d [of c]
      by (intro depth_invI [OF assms(2), of c]) (auto simp: lock_ops)
  next
    case (pop c)
    then have n: "noff (harts s c) = int (card (held s c)) + 1" using d(3) [of c] by simp
    then have "\<not> intr (harts s c)" "1 \<le> noff (harts s c)" using d(2) [of c] by simp_all
    then obtain c' where c': "pop_off (harts s c) = Ok c'" "noff c' = noff (harts s c) - 1"
      "0 < noff c' \<longrightarrow> \<not> intr c'" by (rule pop_off_cases)
    with pop n d [of c] show ?thesis
      by (intro depth_invI [OF assms(2), of c]) (auto simp: lock_ops)
  qed
qed

lemma reachable_inv: "reachable s \<Longrightarrow> lock_inv s"
proof (induction rule: reachable.induct)
  case (step s s')
  then show ?case by (auto simp: lock_inv_def intro: excl_inv_step cpu_inv_step depth_inv_step)
qed (rule lock_inv_init)

section \<open>Properties\<close>

text \<open>
  C23. Mutual exclusion: whatever way the harts interleave, no two of them are between the
  return of \<^verbatim>\<open>acquire\<close> and the call of \<^verbatim>\<open>release\<close> for the same lock, and a hart
  that is there has interrupts off and passes the check of \<^verbatim>\<open>holding\<close>, so that its
  \<^verbatim>\<open>release\<close> does not panic.
\<close>

theorem mutual_exclusion:
  assumes "reachable s" "l \<in> held s c"
  shows "(\<forall>c'. l \<in> held s c' \<longrightarrow> c' = c) \<and> \<not> intr (harts s c) \<and> holding c (lks s l)"
proof -
  have inv: "excl_inv s" "cpu_inv s" "depth_inv s"
    using reachable_inv [OF assms(1)] by (simp_all add: lock_inv_def)
  have "0 < card (held s c)" using inv(3) assms(2) by (auto simp: depth_inv_def card_gt_0_iff)
  moreover have "depth_ok (pcs s c) (card (held s c)) (noff (harts s c))" using inv(3) by (simp add: depth_inv_def)
  ultimately have "0 < noff (harts s c)" by (cases "pcs s c") auto
  with inv assms(2) show ?thesis
    by (auto simp: excl_inv_def cpu_inv_def depth_inv_def owns_def holding_def)
qed

text \<open>
  C24. \<open>push_off\<close> and \<open>pop_off\<close> match: in every reachable state the \<^verbatim>\<open>pop_off\<close> at the
  end of a \<^verbatim>\<open>release\<close> succeeds, so a hart stops only in \<^verbatim>\<open>acquire\<close> of a lock that
  it holds already, or in \<^verbatim>\<open>release\<close> of one that it does not hold.
\<close>

theorem release_pop_no_panic:
  assumes "reachable s" "pcs s c = RelPop"
  shows "pcs (release_pop c s) c = Running"
proof -
  have d: "depth_inv s" using reachable_inv [OF assms(1)] by (simp add: lock_inv_def)
  then have "noff (harts s c) = int (card (held s c)) + 1" "0 < noff (harts s c) \<longrightarrow> \<not> intr (harts s c)"
    using assms(2) by (auto simp: depth_inv_def dest: spec [of _ c])
  then have "\<not> intr (harts s c)" "1 \<le> noff (harts s c)" by simp_all
  then obtain c' where "pop_off (harts s c) = Ok c'" by (rule pop_off_cases)
  then show ?thesis by (simp add: release_pop_def)
qed

section \<open>Concrete instances\<close>

text \<open>Hart 0 acquires lock 7 while the others run.\<close>

definition demo_locks :: lstate where
  "demo_locks = \<lparr>lks = (\<lambda>_. initlock), harts = (\<lambda>_. \<lparr>noff = 0, intena = False, intr = True\<rparr>),
    pcs = (\<lambda>_. Running), held = (\<lambda>_. {})\<rparr>"

definition demo_held :: lstate where
  "demo_held = acquire_set 0 7 (acquire_swap 0 7 (acquire_start 0 7 demo_locks))"

lemma demo_held_reachable: "reachable demo_held"
proof -
  have "reachable demo_locks"
    by (rule reachable.init) (simp add: lock_init_def demo_locks_def)
  then have "reachable (acquire_start 0 7 demo_locks)"
    by (rule reachable.step) (simp add: lock_step.acquire demo_locks_def)
  then have "reachable (acquire_swap 0 7 (acquire_start 0 7 demo_locks))"
    by (rule reachable.step, intro lock_step.swap)
      (simp add: demo_locks_def acquire_start_def holding_def initlock_def)
  then show ?thesis
    unfolding demo_held_def
    by (rule reachable.step, intro lock_step.set)
      (simp add: demo_locks_def acquire_start_def acquire_swap_def holding_def initlock_def)
qed

theorem mutual_exclusion_witness:
  "reachable demo_held \<and> 7 \<in> held demo_held 0 \<and> \<not> intr (harts demo_held 0) \<and> 7 \<notin> held demo_held 1"
proof -
  have h: "7 \<in> held demo_held 0" by (simp add: demo_held_def acquire_set_def)
  with mutual_exclusion [OF demo_held_reachable h] demo_held_reachable show ?thesis by auto
qed

definition demo_rel :: lstate where
  "demo_rel = release_store 0 7 (release_start 0 7 demo_held)"

theorem release_pop_no_panic_witness: "pcs (release_pop 0 demo_rel) 0 = Running"
proof -
  have hold: "holding 0 (lks demo_held 7)" "pcs demo_held 0 = Running"
    by (simp_all add: demo_held_def demo_locks_def lock_ops holding_def initlock_def)
  have "reachable (release_start 0 7 demo_held)"
    by (rule reachable.step [OF demo_held_reachable], rule lock_step.release) (rule hold)
  then have "reachable demo_rel"
    unfolding demo_rel_def
    by (rule reachable.step, intro lock_step.store) (simp add: release_start_def hold)
  then show ?thesis by (rule release_pop_no_panic) (simp add: demo_rel_def release_store_def)
qed

end
