(* ===== verification/Ulib.thy ===== *)
theory Ulib
  imports CString
begin

text \<open>
  \<^verbatim>\<open>user/ulib.c\<close>: the C library of user programs. A \<^verbatim>\<open>char *\<close> that is only read is the
  list of bytes from it to the end of the array it points into; \<open>None\<close> is a read or write past
  that end. What successive reads of a descriptor return is a list of chunks. Functions that the
  kernel has under the same name carry the prefix \<open>u\<close>.
\<close>

section \<open>Strings\<close>

fun strcpy :: "byte list \<Rightarrow> byte list \<Rightarrow> byte list option" where
  "strcpy (_ # s) (c # t) = (if c = 0 then Some (0 # s) else map_option ((#) c) (strcpy s t))"
| "strcpy _ _ = None"

fun strcmp :: "byte list \<Rightarrow> byte list \<Rightarrow> int option" where
  "strcmp (p # ps) (q # qs) =
     (if p \<noteq> 0 \<and> p = q then strcmp ps qs else Some (int (unat p) - int (unat q)))"
| "strcmp _ _ = None"

fun ustrlen_loop :: "nat \<Rightarrow> byte list \<Rightarrow> nat option" where
  "ustrlen_loop n [] = None"
| "ustrlen_loop n (c # s) = (if c = 0 then Some n else ustrlen_loop (n + 1) s)"

definition ustrlen :: "byte list \<Rightarrow> nat option" where
  "ustrlen s = ustrlen_loop 0 s"

text \<open>\<^verbatim>\<open>strchr\<close> returns the rest of the string from the character on, or a null pointer (\<open>Some None\<close>).\<close>

fun strchr :: "byte list \<Rightarrow> byte \<Rightarrow> byte list option option" where
  "strchr [] c = None"
| "strchr (x # s) c = (if x = 0 then Some None else if x = c then Some (Some (x # s)) else strchr s c)"

text \<open>The loop of \<^verbatim>\<open>atoi\<close>; \<open>n\<close> is an \<^verbatim>\<open>int\<close> and wraps on RISC-V.\<close>

fun atoi_loop :: "int \<Rightarrow> byte list \<Rightarrow> int option" where
  "atoi_loop n [] = None"
| "atoi_loop n (c # s) =
     (if 48 \<le> c \<and> c \<le> 57 then atoi_loop (sint (of_int (n * 10 + int (unat c) - 48) :: uint32)) s else Some n)"

definition atoi :: "byte list \<Rightarrow> int option" where
  "atoi s = atoi_loop 0 s"

section \<open>Memory\<close>

fun umemset :: "uint64 \<Rightarrow> byte \<Rightarrow> nat \<Rightarrow> nat \<Rightarrow> memory \<Rightarrow> memory" where
  "umemset dst c 0 i m = m"
| "umemset dst c (Suc n) i m = umemset dst c n (i + 1) (m(dst + of_nat i := c))"

fun umove_up :: "uint64 \<Rightarrow> uint64 \<Rightarrow> nat \<Rightarrow> memory \<Rightarrow> memory" where
  "umove_up dst src 0 m = m"
| "umove_up dst src (Suc n) m = umove_up (dst + 1) (src + 1) n (m(dst := m src))"

fun umove_down :: "uint64 \<Rightarrow> uint64 \<Rightarrow> nat \<Rightarrow> memory \<Rightarrow> memory" where
  "umove_down dst src 0 m = m"
| "umove_down dst src (Suc n) m = umove_down (dst - 1) (src - 1) n (m(dst - 1 := m (src - 1)))"

definition umemmove :: "uint64 \<Rightarrow> uint64 \<Rightarrow> int \<Rightarrow> memory \<Rightarrow> memory" where
  "umemmove dst src n m =
     (if src > dst then umove_up dst src (nat n) m
      else umove_down (dst + of_int n) (src + of_int n) (nat n) m)"

fun umemcmp :: "memory \<Rightarrow> uint64 \<Rightarrow> uint64 \<Rightarrow> nat \<Rightarrow> int" where
  "umemcmp m p1 p2 0 = 0"
| "umemcmp m p1 p2 (Suc n) =
     (if m p1 \<noteq> m p2 then int (unat (m p1)) - int (unat (m p2)) else umemcmp m (p1 + 1) (p2 + 1) n)"

definition umemcpy :: "uint64 \<Rightarrow> uint64 \<Rightarrow> nat \<Rightarrow> memory \<Rightarrow> memory" where
  "umemcpy dst src n m = umemmove dst src (sint (of_nat n :: uint32)) m"

section \<open>Reading\<close>

text \<open>A read of at most \<open>n\<close> bytes from a descriptor; it does not cross the end of a chunk.\<close>

fun read_chunk :: "nat \<Rightarrow> byte list list \<Rightarrow> byte list \<times> byte list list" where
  "read_chunk n [] = ([], [])"
| "read_chunk n (c # cs) = (take n c, if length c \<le> n then cs else drop n c # cs)"

lemma read_chunk_shorter:
  "read_chunk n cs = (got, cs') \<Longrightarrow> got \<noteq> [] \<Longrightarrow> sum_list (map length cs') < sum_list (map length cs)"
  by (cases cs) (auto split: if_splits)

fun gets_loop :: "nat \<Rightarrow> byte list list \<Rightarrow> byte list \<times> byte list list" where
  "gets_loop 0 inp = ([], inp)"
| "gets_loop (Suc k) inp =
     (case read_chunk 1 inp of
        ([], inp1) \<Rightarrow> ([], inp1)
      | (c # _, inp1) \<Rightarrow>
          if c = 10 \<or> c = 13 then ([c], inp1)
          else let (s, inp2) = gets_loop k inp1 in (c # s, inp2))"

text \<open>\<^verbatim>\<open>gets\<close>: the string stored in \<^verbatim>\<open>buf\<close>, its NUL included, and the input left.\<close>

definition gets :: "nat \<Rightarrow> byte list list \<Rightarrow> byte list \<times> byte list list" where
  "gets mx inp = (let (s, inp1) = gets_loop (mx - 1) inp in (s @ [0], inp1))"

end
