(* ===== verification/Grep.thy ===== *)
theory Grep
  imports Ulib
begin

text \<open>
  \<^verbatim>\<open>user/grep.c\<close>: the regular expression matcher and the loop over the lines of a file. A string
  is the list of its characters. The meaning of a pattern is the set of words \<open>lang\<close> of its
  items; the matcher is proved to decide it.
\<close>

abbreviation STAR :: byte where "STAR \<equiv> 42"
abbreviation DOLLAR :: byte where "DOLLAR \<equiv> 36"
abbreviation CARET :: byte where "CARET \<equiv> 94"
abbreviation PERIOD :: byte where "PERIOD \<equiv> 46"
abbreviation NEWLINE :: byte where "NEWLINE \<equiv> 10"

section \<open>The matcher\<close>

function matchhere :: "byte list \<Rightarrow> byte list \<Rightarrow> bool"
  and matchstar :: "byte \<Rightarrow> byte list \<Rightarrow> byte list \<Rightarrow> bool" where
  "matchhere re str =
     (if re = [] then True
      else if length re > 1 \<and> re ! 1 = STAR then matchstar (hd re) (drop 2 re) str
      else if hd re = DOLLAR \<and> length re = 1 then str = []
      else if str \<noteq> [] \<and> (hd re = PERIOD \<or> hd re = hd str) then matchhere (tl re) (tl str)
      else False)"
| "matchstar c re str =
     (if matchhere re str then True
      else if str \<noteq> [] \<and> (hd str = c \<or> c = PERIOD) then matchstar c re (tl str)
      else False)"
  by pat_completeness auto
termination
  by (relation "measures [case_sum (\<lambda>(re, t). length re) (\<lambda>(c, re, t). length re),
                         case_sum (\<lambda>(re, t). length t) (\<lambda>(c, re, t). length t),
                         case_sum (\<lambda>_. 0) (\<lambda>_. 1)]") auto

declare matchhere.simps [simp del] matchstar.simps [simp del]

fun match_from :: "byte list \<Rightarrow> byte list \<Rightarrow> bool" where
  "match_from re [] = matchhere re []"
| "match_from re (c # str) = (if matchhere re (c # str) then True else match_from re str)"

definition match :: "byte list \<Rightarrow> byte list \<Rightarrow> bool" where
  "match re str = (if re \<noteq> [] \<and> hd re = CARET then matchhere (tl re) str else match_from re str)"

section \<open>The loop over lines\<close>

text \<open>
  The inner loop: the lines of the buffer that match, each with its newline, and what follows the
  last newline.
\<close>

function grep_lines :: "byte list \<Rightarrow> byte list \<Rightarrow> byte list \<times> byte list" where
  "grep_lines pattern p =
     (if NEWLINE \<in> set p then
        let line = takeWhile (\<lambda>c. c \<noteq> NEWLINE) p;
            (out, rest) = grep_lines pattern (drop (length line + 1) p)
        in ((if match pattern line then line @ [NEWLINE] else []) @ out, rest)
      else ([], p))"
  by pat_completeness auto
termination
  by (relation "measure (\<lambda>(pattern, p). length p)") (auto intro: diff_less length_pos_if_in_set)

declare grep_lines.simps [simp del]

text \<open>
  The outer loop: \<open>m\<close> holds the bytes kept in \<^verbatim>\<open>buf\<close>, \<open>inp\<close> the chunks that reads will
  return; the result is what is written to standard output.
\<close>

function grep :: "byte list \<Rightarrow> byte list \<Rightarrow> byte list list \<Rightarrow> byte list" where
  "grep pattern m inp =
     (let (got, inp1) = read_chunk (1024 - length m - 1) inp in
      if got = [] then []
      else let (out, rest) = grep_lines pattern (m @ got) in out @ grep pattern rest inp1)"
  by pat_completeness auto
termination
  by (relation "measure (\<lambda>(pattern, m, inp). sum_list (map length inp))") (auto dest: sym read_chunk_shorter [OF sym])

declare grep.simps [simp del]

section \<open>What a pattern means\<close>

datatype item = One byte | Many byte

fun parse_re :: "byte list \<Rightarrow> item list \<times> bool" where
  "parse_re [] = ([], False)"
| "parse_re [c] = (if c = DOLLAR then ([], True) else ([One c], False))"
| "parse_re (c # d # re) =
     (if d = STAR then let (is, eol) = parse_re re in (Many c # is, eol)
      else let (is, eol) = parse_re (d # re) in (One c # is, eol))"

definition fits :: "byte \<Rightarrow> byte \<Rightarrow> bool" where
  "fits c x \<longleftrightarrow> c = PERIOD \<or> c = x"

fun lang :: "item list \<Rightarrow> byte list set" where
  "lang [] = {[]}"
| "lang (One c # is) = {x # w | x w. fits c x \<and> w \<in> lang is}"
| "lang (Many c # is) = {v @ w | v w. (\<forall>x\<in>set v. fits c x) \<and> w \<in> lang is}"

text \<open>A pattern matches at the start of a text when a prefix is in its language, up to the end of the
  text if the pattern ends in \<^verbatim>\<open>$\<close>.\<close>

definition matches_here :: "byte list \<Rightarrow> byte list \<Rightarrow> bool" where
  "matches_here re str \<longleftrightarrow>
     (\<exists>w rest. str = w @ rest \<and> w \<in> lang (fst (parse_re re)) \<and> (snd (parse_re re) \<longrightarrow> rest = []))"

definition matches :: "byte list \<Rightarrow> byte list \<Rightarrow> bool" where
  "matches re str \<longleftrightarrow>
     (if re \<noteq> [] \<and> hd re = CARET then matches_here (tl re) str
      else \<exists>before after. str = before @ after \<and> matches_here re after)"

lemma matches_here_Nil [simp]: "matches_here [] str"
  by (simp add: matches_here_def)

lemma matches_here_eol [simp]: "matches_here [DOLLAR] str \<longleftrightarrow> str = []"
  by (auto simp: matches_here_def)

lemma matches_here_One:
  assumes "re = [] \<or> hd re \<noteq> STAR" "\<not> (c = DOLLAR \<and> re = [])"
  shows "matches_here (c # re) str \<longleftrightarrow> str \<noteq> [] \<and> fits c (hd str) \<and> matches_here re (tl str)"
proof -
  have p: "parse_re (c # re) = (One c # fst (parse_re re), snd (parse_re re))"
    using assms by (cases re) (auto split: prod.split)
  show ?thesis
  proof
    assume "matches_here (c # re) str"
    then obtain w0 rest where "str = w0 @ rest" "w0 \<in> lang (One c # fst (parse_re re))"
      and r: "snd (parse_re re) \<longrightarrow> rest = []"
      unfolding matches_here_def p fst_conv snd_conv by blast
    then obtain x w where "str = (x # w) @ rest" "fits c x" "w \<in> lang (fst (parse_re re))" by auto
    with r have "str \<noteq> [] \<and> fits c (hd str) \<and> (\<exists>v rest. tl str = v @ rest \<and> v \<in> lang (fst (parse_re re)) \<and>
        (snd (parse_re re) \<longrightarrow> rest = []))" by auto
    then show "str \<noteq> [] \<and> fits c (hd str) \<and> matches_here re (tl str)"
      by (auto simp: matches_here_def)
  next
    assume a: "str \<noteq> [] \<and> fits c (hd str) \<and> matches_here re (tl str)"
    then obtain w rest where w: "tl str = w @ rest" "w \<in> lang (fst (parse_re re))" "snd (parse_re re) \<longrightarrow> rest = []"
      by (auto simp: matches_here_def)
    from w(1) a have "str = (hd str # w) @ rest" by (metis append_Cons list.collapse)
    moreover have "hd str # w \<in> lang (One c # fst (parse_re re))" using a w(2) by simp
    ultimately show "matches_here (c # re) str"
      unfolding matches_here_def p fst_conv snd_conv using w(3) by blast
  qed
qed

definition matches_star :: "byte \<Rightarrow> byte list \<Rightarrow> byte list \<Rightarrow> bool" where
  "matches_star c re str \<longleftrightarrow> (\<exists>v rest. str = v @ rest \<and> (\<forall>x\<in>set v. fits c x) \<and> matches_here re rest)"

lemma matches_here_Many: "matches_here (c # STAR # re) str \<longleftrightarrow> matches_star c re str"
proof -
  have p: "parse_re (c # STAR # re) = (Many c # fst (parse_re re), snd (parse_re re))"
    by (auto split: prod.split)
  show ?thesis
  proof
    assume "matches_here (c # STAR # re) str"
    then obtain w0 rest where w: "str = w0 @ rest" "w0 \<in> lang (Many c # fst (parse_re re))"
      "snd (parse_re re) \<longrightarrow> rest = []"
      unfolding matches_here_def p fst_conv snd_conv by blast
    from w(2) obtain v w1 where v: "w0 = v @ w1" "\<forall>x\<in>set v. fits c x" "w1 \<in> lang (fst (parse_re re))" by auto
    have "matches_here re (w1 @ rest)" unfolding matches_here_def using v(3) w(3) by blast
    moreover have "str = v @ (w1 @ rest)" using v(1) w(1) by simp
    ultimately show "matches_star c re str" unfolding matches_star_def using v(2) by blast
  next
    assume "matches_star c re str"
    then obtain v rest0 where v: "str = v @ rest0" "\<forall>x\<in>set v. fits c x" "matches_here re rest0"
      unfolding matches_star_def by blast
    from v(3) obtain w rest where w: "rest0 = w @ rest" "w \<in> lang (fst (parse_re re))" "snd (parse_re re) \<longrightarrow> rest = []"
      unfolding matches_here_def by blast
    have "v @ w \<in> lang (Many c # fst (parse_re re))" using v(2) w(2) by auto
    moreover have "str = (v @ w) @ rest" using v(1) w(1) by simp
    ultimately show "matches_here (c # STAR # re) str"
      unfolding matches_here_def p fst_conv snd_conv using w(3) by blast
  qed
qed

lemma matches_star_step:
  "matches_star c re str \<longleftrightarrow>
     matches_here re str \<or> (str \<noteq> [] \<and> fits c (hd str) \<and> matches_star c re (tl str))"
proof
  assume "matches_star c re str"
  then obtain v rest where v: "str = v @ rest" "\<forall>x\<in>set v. fits c x" "matches_here re rest"
    by (auto simp: matches_star_def)
  then show "matches_here re str \<or> (str \<noteq> [] \<and> fits c (hd str) \<and> matches_star c re (tl str))"
    by (cases v) (auto simp: matches_star_def)
next
  assume "matches_here re str \<or> (str \<noteq> [] \<and> fits c (hd str) \<and> matches_star c re (tl str))"
  then show "matches_star c re str"
  proof
    assume "matches_here re str"
    then show ?thesis unfolding matches_star_def by (intro exI [of _ "[]"] exI [of _ str]) simp
  next
    assume a: "str \<noteq> [] \<and> fits c (hd str) \<and> matches_star c re (tl str)"
    then obtain v rest where v: "tl str = v @ rest" "\<forall>x\<in>set v. fits c x" "matches_here re rest"
      by (auto simp: matches_star_def)
    with a have "str = (hd str # v) @ rest" by (metis append_Cons list.collapse)
    with a v show ?thesis unfolding matches_star_def by (intro exI [of _ "hd str # v"] exI [of _ rest]) simp
  qed
qed

lemma matchhere_iff:
  "matchhere re str \<longleftrightarrow> matches_here re str"
  "matchstar c re str \<longleftrightarrow> matches_star c re str"
proof (induction re str and c re str rule: matchhere_matchstar.induct)
  case (1 re str)
  consider "re = []" | c re' where "re = c # STAR # re'"
    | c re' where "re = c # re'" "re' = [] \<or> hd re' \<noteq> STAR"
    by (metis list.exhaust list.sel(1))
  then show ?case
  proof cases
    case 1
    then show ?thesis by (simp add: matchhere.simps)
  next
    case (2 c re')
    have "matchhere re str = matchstar c re' str" unfolding 2 by (subst matchhere.simps) simp
    with 1(1) 2 show ?thesis by (simp add: matches_here_Many)
  next
    case (3 c re')
    have s: "\<not> (length re > 1 \<and> re ! 1 = STAR)" using 3 by (cases re') auto
    show ?thesis
    proof (cases "c = DOLLAR \<and> re' = []")
      case True
      have "matchhere re str \<longleftrightarrow> str = []" using True 3(1) by (subst matchhere.simps) simp
      with True 3(1) show ?thesis by simp
    next
      case False
      have "matchhere re str \<longleftrightarrow> str \<noteq> [] \<and> fits c (hd str) \<and> matchhere re' (tl str)"
        using False 3(1) s by (subst matchhere.simps) (auto simp: fits_def)
      moreover have "str \<noteq> [] \<and> fits c (hd str) \<Longrightarrow> matchhere re' (tl str) = matches_here re' (tl str)"
        using 1(2) False 3(1) s by (auto simp: fits_def)
      ultimately show ?thesis using False 3 matches_here_One [of re' c str] by blast
    qed
  qed
next
  case (2 c re str)
  have "matchstar c re str \<longleftrightarrow> matchhere re str \<or> str \<noteq> [] \<and> fits c (hd str) \<and> matchstar c re (tl str)"
    by (subst matchstar.simps) (auto simp: fits_def)
  moreover have "\<not> matchhere re str \<and> str \<noteq> [] \<and> fits c (hd str) \<Longrightarrow> matchstar c re (tl str) = matches_star c re (tl str)"
    using 2(2) by (auto simp: fits_def)
  ultimately show ?case using 2(1) matches_star_step [of c re str] by blast
qed

lemma match_from_iff: "match_from re str \<longleftrightarrow> (\<exists>before after. str = before @ after \<and> matches_here re after)"
proof (induction str)
  case Nil
  then show ?case by (simp add: matchhere_iff)
next
  case IH: (Cons c str)
  show ?case
  proof
    assume "match_from re (c # str)"
    then have "matches_here re (c # str) \<or> match_from re str"
      by (cases "matchhere re (c # str)") (simp_all add: matchhere_iff(1))
    then show "\<exists>before after. c # str = before @ after \<and> matches_here re after"
    proof
      assume "matches_here re (c # str)"
      then have "c # str = [] @ (c # str) \<and> matches_here re (c # str)" by simp
      then show ?thesis by blast
    next
      assume "match_from re str"
      with IH obtain b a where "str = b @ a" "matches_here re a" by blast
      then have "c # str = (c # b) @ a \<and> matches_here re a" by simp
      then show ?thesis by blast
    qed
  next
    assume "\<exists>before after. c # str = before @ after \<and> matches_here re after"
    then obtain b a where ba: "c # str = b @ a" "matches_here re a" by blast
    show "match_from re (c # str)"
    proof (cases b)
      case Nil
      with ba have "matchhere re (c # str)" unfolding matchhere_iff(1) by simp
      then show ?thesis by simp
    next
      case (Cons d b')
      with ba have "str = b' @ a \<and> matches_here re a" by simp
      with IH have "match_from re str" by blast
      then show ?thesis by simp
    qed
  qed
qed

lemma match_iff: "match re str = matches re str"
  by (simp add: match_def matches_def matchhere_iff match_from_iff)

text \<open>
  C30. \<^verbatim>\<open>match\<close> of \<^verbatim>\<open>user/grep.c\<close> decides the meaning of the pattern: anchored by
  \<^verbatim>\<open>^\<close> at the start or else at any position, a word of the pattern's language begins there, and
  reaches the end of the text if the pattern ends in \<^verbatim>\<open>$\<close>. In particular the two mutually
  recursive functions return on every pattern and text.
\<close>

theorem match_correct: "match re str \<longleftrightarrow> matches re str"
  by (rule match_iff)

section \<open>The lines that are printed\<close>

text \<open>The complete lines of a text, and the part after the last newline.\<close>

fun lines :: "byte list \<Rightarrow> byte list \<Rightarrow> byte list list \<times> byte list" where
  "lines cur [] = ([], cur)"
| "lines cur (c # cs) =
     (if c = NEWLINE then let (ls, rest) = lines [] cs in (cur # ls, rest)
      else lines (cur @ [c]) cs)"

definition grep_spec :: "byte list \<Rightarrow> byte list \<Rightarrow> byte list" where
  "grep_spec pattern str =
     concat (map (\<lambda>l. l @ [NEWLINE]) (filter (matches pattern) (fst (lines [] str))))"

lemma lines_append:
  "lines cur (xs @ ys) =
     (fst (lines cur xs) @ fst (lines (snd (lines cur xs)) ys), snd (lines (snd (lines cur xs)) ys))"
  by (induction cur xs rule: lines.induct) (auto simp: split_beta)

lemma lines_plain: "NEWLINE \<notin> set m \<Longrightarrow> lines cur (m @ xs) = lines (cur @ m) xs"
  by (induction m arbitrary: cur) auto

lemma lines_rest_plain: "NEWLINE \<notin> set cur \<Longrightarrow> NEWLINE \<notin> set (snd (lines cur xs))"
  by (induction cur xs rule: lines.induct) (auto simp: split_beta)

lemma grep_lines_eq:
  "grep_lines pattern p = (grep_spec pattern p, snd (lines [] p))"
proof (induction pattern p rule: grep_lines.induct)
  case (1 pattern p)
  show ?case
  proof (cases "NEWLINE \<in> set p")
    case False
    with lines_plain [of p "[]" "[]"] show ?thesis
      by (simp add: grep_lines.simps [of pattern p] grep_spec_def)
  next
    case True
    let ?line = "takeWhile (\<lambda>c. c \<noteq> NEWLINE) p" and ?rest = "drop (length (takeWhile (\<lambda>c. c \<noteq> NEWLINE) p) + 1) p"
    have "dropWhile (\<lambda>c. c \<noteq> NEWLINE) p \<noteq> []" using True by auto
    then obtain r where r: "dropWhile (\<lambda>c. c \<noteq> NEWLINE) p = NEWLINE # r"
      using hd_dropWhile [of "\<lambda>c. c \<noteq> NEWLINE" p] by (cases "dropWhile (\<lambda>c. c \<noteq> NEWLINE) p") auto
    have split: "p = ?line @ NEWLINE # r" using takeWhile_dropWhile_id [of "\<lambda>c. c \<noteq> NEWLINE" p] by (simp add: r)
    then have "?rest = r" by (metis append_eq_conv_conj drop_Suc Suc_eq_plus1 list.sel(3) tl_drop)
    with split have p: "p = ?line @ NEWLINE # ?rest" by simp
    have "lines [] p = lines ([] @ ?line) (NEWLINE # ?rest)"
      by (subst p, rule lines_plain) (auto dest: set_takeWhileD)
    then have l: "lines [] p = (?line # fst (lines [] ?rest), snd (lines [] ?rest))"
      by (simp add: split_beta)
    have "grep_lines pattern ?rest = (grep_spec pattern ?rest, snd (lines [] ?rest))"
      using 1 True by simp
    with True l show ?thesis
      by (subst grep_lines.simps) (simp add: Let_def grep_spec_def match_iff)
  qed
qed

text \<open>Every line of the input, and what follows the last newline, fits into \<^verbatim>\<open>buf\<close>.\<close>

definition short_lines :: "byte list \<Rightarrow> byte list \<Rightarrow> bool" where
  "short_lines m xs \<longleftrightarrow>
     list_all (\<lambda>l. length l < 1023) (fst (lines m xs)) \<and> length (snd (lines m xs)) < 1023"

lemma short_lines_start: "short_lines m xs \<Longrightarrow> length m < 1023"
proof (induction m xs rule: lines.induct)
  case (2 cur c cs)
  then show ?case by (cases "c = NEWLINE") (auto simp: short_lines_def split_beta)
qed (simp add: short_lines_def)

lemma short_lines_append:
  "short_lines m (xs @ ys) \<Longrightarrow> short_lines (snd (lines m xs)) ys"
  by (simp add: short_lines_def lines_append)

lemma read_chunk_some:
  assumes "0 < n" "inp \<noteq> []" "list_all (\<lambda>c. c \<noteq> []) inp"
  obtains got inp1 where "read_chunk n inp = (got, inp1)" "got \<noteq> []" "list_all (\<lambda>c. c \<noteq> []) inp1"
    "concat inp = got @ concat inp1"
  using assms by (cases inp) auto

lemma grep_eq:
  assumes "list_all (\<lambda>c. c \<noteq> []) inp" "NEWLINE \<notin> set m" "short_lines m (concat inp)"
  shows "grep pattern m inp = concat (map (\<lambda>l. l @ [NEWLINE]) (filter (matches pattern) (fst (lines m (concat inp)))))"
  using assms
proof (induction pattern m inp rule: grep.induct)
  case (1 pattern m inp)
  have m: "length m < 1023" using 1(4) by (rule short_lines_start)
  show ?case
  proof (cases "inp = []")
    case True
    then show ?thesis by (subst grep.simps) simp
  next
    case False
    then obtain got inp1 where g: "read_chunk (1024 - length m - 1) inp = (got, inp1)" "got \<noteq> []"
        "list_all (\<lambda>c. c \<noteq> []) inp1" "concat inp = got @ concat inp1"
      using read_chunk_some [of "1024 - length m - 1" inp] 1(2) m by auto
    have l: "lines [] (m @ got) = lines m got" using lines_plain [OF 1(3), of "[]" got] by simp
    have gl: "grep_lines pattern (m @ got) =
        (concat (map (\<lambda>l. l @ [NEWLINE]) (filter (matches pattern) (fst (lines m got)))), snd (lines m got))"
      by (simp only: grep_lines_eq grep_spec_def l)
    have "grep pattern (snd (lines m got)) inp1 = concat (map (\<lambda>l. l @ [NEWLINE])
        (filter (matches pattern) (fst (lines (snd (lines m got)) (concat inp1)))))"
      using 1(1) [OF g(1) [symmetric] refl g(2) gl [symmetric] refl g(3)] lines_rest_plain [OF 1(3)]
        short_lines_append 1(4) unfolding g(4) by blast
    then show ?thesis
      using g gl by (simp add: grep.simps [of pattern m inp] lines_append)
  qed
qed




end
