(* ===== verification/Sh.thy ===== *)
theory Sh
  imports Ulib
begin

text \<open>
  \<^verbatim>\<open>user/sh.c\<close>: the parser of the shell and what it does with a parsed command. The command
  line is a list of characters \<open>s\<close>; \<^verbatim>\<open>es\<close> is \<open>length s\<close>, where the NUL is. A pointer into the
  line is a position. A counted string is the pair of its start and end. \<^verbatim>\<open>panic\<close> ends the
  process and is an error here; the mutually recursive parsing functions have fuel, and
  \<open>NoFuel\<close> is shown not to occur.
\<close>

section \<open>Commands\<close>

datatype cmd =
  EXEC "(nat \<times> nat) list"
| REDIR cmd "nat \<times> nat" uint32 nat
| PIPE cmd cmd
| LIST cmd cmd
| BACK cmd

datatype sherr = ShPanic string | NoFuel

definition sbind :: "sherr + 'a \<Rightarrow> ('a \<Rightarrow> sherr + 'b) \<Rightarrow> sherr + 'b" where
  "sbind r f = (case r of Inl e \<Rightarrow> Inl e | Inr x \<Rightarrow> f x)"

lemma sbind_simps [simp]: "sbind (Inl e) f = Inl e" "sbind (Inr x) f = f x"
  by (simp_all add: sbind_def)

lemma sbind_eq: "sbind r f = y \<longleftrightarrow> (case r of Inl e \<Rightarrow> y = Inl e | Inr x \<Rightarrow> f x = y)"
  by (auto simp: sbind_def split: sum.split)

lemma sbind_cong [fundef_cong]: "r = r' \<Longrightarrow> (\<And>x. r' = Inr x \<Longrightarrow> f x = g x) \<Longrightarrow> sbind r f = sbind r' g"
  by (simp add: sbind_def split: sum.split)

section \<open>Tokens\<close>

definition whitespace :: "byte list" where
  "whitespace = [32, 9, 13, 10, 11]"

definition symbols :: "byte list" where
  "symbols = [60, 124, 62, 38, 59, 40, 41]"

definition chr :: "byte list \<Rightarrow> nat \<Rightarrow> byte" where
  "chr s p = (if p < length s then s ! p else 0)"

definition skip_ws :: "byte list \<Rightarrow> nat \<Rightarrow> nat" where
  "skip_ws s p = p + length (takeWhile (\<lambda>c. c \<in> set whitespace) (drop p s))"

definition word_char :: "byte \<Rightarrow> bool" where
  "word_char c \<longleftrightarrow> c \<notin> set whitespace \<and> c \<notin> set symbols"

text \<open>\<^verbatim>\<open>gettoken\<close>: the token, its start \<^verbatim>\<open>*q\<close> and end \<^verbatim>\<open>*eq\<close>, and the new \<^verbatim>\<open>*ps\<close>.\<close>

definition gettoken :: "byte list \<Rightarrow> nat \<Rightarrow> byte \<times> nat \<times> nat \<times> nat" where
  "gettoken s p =
     (let q = skip_ws s p; c = chr s q;
          (ret, e) =
            (if c = 0 then (0, q)
             else if c \<in> {124, 40, 41, 59, 38, 60} then (c, q + 1)
             else if c = 62 then (if chr s (q + 1) = 62 then (43, q + 2) else (62, q + 1))
             else (97, q + length (takeWhile word_char (drop q s))))
      in (ret, q, e, skip_ws s e))"

definition peek :: "byte list \<Rightarrow> nat \<Rightarrow> byte list \<Rightarrow> bool \<times> nat" where
  "peek s p toks = (let q = skip_ws s p in (chr s q \<noteq> 0 \<and> chr s q \<in> set toks, q))"

text \<open>\<open>after_token s p\<close> is \<^verbatim>\<open>*ps\<close> after \<^verbatim>\<open>gettoken(ps, es, 0, 0)\<close>.\<close>

definition after_token :: "byte list \<Rightarrow> nat \<Rightarrow> nat" where
  "after_token s p = snd (snd (snd (gettoken s p)))"

lemma skip_ws_ge: "p \<le> skip_ws s p"
  by (simp add: skip_ws_def)

lemma skip_ws_le: "p \<le> length s \<Longrightarrow> skip_ws s p \<le> length s"
  using length_takeWhile_le [of "\<lambda>c. c \<in> set whitespace" "drop p s"] by (simp add: skip_ws_def)

lemma chr_nonzero: "chr s p \<noteq> 0 \<Longrightarrow> p < length s"
  by (auto simp: chr_def split: if_splits)

lemma skip_ws_char: "p \<le> length s \<Longrightarrow> chr s (skip_ws s p) \<notin> set whitespace"
proof -
  assume p: "p \<le> length s"
  let ?w = "takeWhile (\<lambda>c. c \<in> set whitespace) (drop p s)"
  show ?thesis
  proof (cases "skip_ws s p < length s")
    case True
    then have "length ?w < length (drop p s)" using p by (simp add: skip_ws_def)
    then have "drop p s ! length ?w \<notin> set whitespace" by (rule nth_length_takeWhile)
    moreover have "drop p s ! length ?w = s ! skip_ws s p" using p by (simp add: skip_ws_def)
    ultimately show ?thesis using True by (simp add: chr_def)
  next
    case False
    then show ?thesis by (simp add: chr_def whitespace_def)
  qed
qed

lemma takeWhile_word_pos:
  "q < length s \<Longrightarrow> word_char (s ! q) \<Longrightarrow> 0 < length (takeWhile word_char (drop q s))"
  by (simp add: Cons_nth_drop_Suc [symmetric])

lemma gettoken_progress:
  assumes g: "gettoken s p = (tok, q, e, p')" and p: "p \<le> length s"
  shows "p \<le> q \<and> q \<le> e \<and> e \<le> p' \<and> p' \<le> length s \<and> (tok \<noteq> 0 \<longrightarrow> q < e) \<and> (tok = 0 \<longrightarrow> q = length s \<or> chr s q = 0)"
proof -
  let ?q = "skip_ws s p"
  have q: "p \<le> ?q" "?q \<le> length s" using skip_ws_ge skip_ws_le [OF p] by auto
  have c: "chr s ?q \<notin> set whitespace" using skip_ws_char [OF p] .
  have w: "chr s ?q \<noteq> 0 \<Longrightarrow> chr s ?q \<notin> {124, 40, 41, 59, 38, 60} \<Longrightarrow> chr s ?q \<noteq> 62 \<Longrightarrow>
      0 < length (takeWhile word_char (drop ?q s))"
    using c by (intro takeWhile_word_pos) (auto simp: word_char_def symbols_def chr_def split: if_splits)
  have len: "?q + length (takeWhile word_char (drop ?q s)) \<le> length s"
    using length_takeWhile_le [of word_char "drop ?q s"] q(2) by simp
  have "q = ?q" and e: "q \<le> e" "e \<le> length s" and t: "tok \<noteq> 0 \<longrightarrow> q < e" and z: "tok = 0 \<longrightarrow> chr s q = 0"
    and p': "p' = skip_ws s e"
    using g w len q chr_nonzero [of s ?q] chr_nonzero [of s "?q + 1"]
    by (auto simp: gettoken_def Let_def split: if_splits)
  with q z skip_ws_ge [of e s] skip_ws_le [OF e(2)] show ?thesis by auto
qed

lemma gettoken_nonzero: "gettoken s p = (tok, q, e, p') \<Longrightarrow> tok \<noteq> 0 \<Longrightarrow> p < length s"
  using skip_ws_ge [of p s] chr_nonzero [of s "skip_ws s p"]
  by (auto simp: gettoken_def Let_def split: if_splits)

lemma after_token_progress:
  assumes "p \<le> length s" "chr s (skip_ws s p) \<noteq> 0"
  shows "p < after_token s p" "after_token s p \<le> length s"
proof -
  obtain tok q e p' where g: "gettoken s p = (tok, q, e, p')" by (cases "gettoken s p")
  have "q = skip_ws s p" "tok = 0 \<Longrightarrow> chr s q = 0"
    using g by (auto simp: gettoken_def Let_def split: if_splits)
  with assms gettoken_progress [OF g assms(1)] g show "p < after_token s p" "after_token s p \<le> length s"
    by (auto simp: after_token_def)
qed

section \<open>The parser\<close>

text \<open>
  The loop of \<^verbatim>\<open>parseredirs\<close> collects redirections; \<open>wrap\<close> puts them around a command, the
  last one outermost. Each is a file, a mode and a descriptor.
\<close>

definition redir_kind :: "byte \<Rightarrow> uint32 \<times> nat" where
  "redir_kind tok = (if tok = 60 then (0, 0) else if tok = 62 then (0x601, 1) else (0x201, 1))"

lemma peek_True: "peek s p toks = (True, q) \<Longrightarrow> q = skip_ws s p \<and> chr s q \<noteq> 0 \<and> chr s q \<in> set toks \<and> p \<le> q \<and> q < length s"
  using skip_ws_ge by (auto simp: peek_def Let_def dest: chr_nonzero)

lemma skip_ws_idem: "p \<le> length s \<Longrightarrow> skip_ws s (skip_ws s p) = skip_ws s p"
proof -
  assume p: "p \<le> length s"
  have "chr s (skip_ws s p) \<notin> set whitespace" using p by (rule skip_ws_char)
  then have "takeWhile (\<lambda>c. c \<in> set whitespace) (drop (skip_ws s p) s) = []"
    by (cases "skip_ws s p < length s") (auto simp: chr_def Cons_nth_drop_Suc [symmetric])
  then show ?thesis by (simp add: skip_ws_def [of s "skip_ws s p"])
qed

lemma peek_gettoken:
  assumes "peek s p toks = (True, q)" "gettoken s q = (tok, q', e, p')"
  shows "p < p'" "p' \<le> length s" "q' = q"
proof -
  note k = peek_True [OF assms(1)]
  have i: "skip_ws s q = q" using k skip_ws_idem [of p s] skip_ws_ge [of p s] by (auto simp: not_le)
  have "q' = q" "tok = 0 \<Longrightarrow> chr s q = 0"
    using assms(2) i by (auto simp: gettoken_def Let_def split: if_splits)
  with k gettoken_progress [OF assms(2)] show "p < p'" "p' \<le> length s" "q' = q" by auto
qed

function redirs :: "byte list \<Rightarrow> nat \<Rightarrow> sherr + ((nat \<times> nat) \<times> uint32 \<times> nat) list \<times> nat" where
  "redirs s p =
     (let pk = peek s p [60, 62] in
      if \<not> fst pk then Inr ([], snd pk)
      else let t = gettoken s (snd pk); f = gettoken s (snd (snd (snd t))) in
        if fst f \<noteq> 97 then Inl (ShPanic ''missing file for redirection'')
        else sbind (redirs s (snd (snd (snd f)))) (\<lambda>(rs, p1).
          Inr (((fst (snd f), fst (snd (snd f))), redir_kind (fst t)) # rs, p1)))"
  by pat_completeness auto
termination
proof (relation "measure (\<lambda>(s, p). length s - p)", goal_cases)
  case (2 s p pk t f)
  obtain q where k: "peek s p [60, 62] = (True, q)" using 2 by (cases "peek s p [60, 62]") auto
  obtain a b c p1 where t: "gettoken s q = (a, b, c, p1)" by (cases "gettoken s q")
  obtain a' b' c' p2 where f: "gettoken s p1 = (a', b', c', p2)" by (cases "gettoken s p1")
  have "p < p1" "p1 \<le> length s" using peek_gettoken [OF k t] by auto
  moreover have "p1 \<le> p2" using gettoken_progress [OF f \<open>p1 \<le> length s\<close>] by simp
  ultimately show ?case using 2 k t f by simp
qed simp

declare redirs.simps [simp del]

definition wrap :: "cmd \<Rightarrow> ((nat \<times> nat) \<times> uint32 \<times> nat) list \<Rightarrow> cmd" where
  "wrap c rs = foldl (\<lambda>c (f, mode, fd). REDIR c f mode fd) c rs"

definition parseredirs :: "cmd \<Rightarrow> byte list \<Rightarrow> nat \<Rightarrow> sherr + cmd \<times> nat" where
  "parseredirs c s p = sbind (redirs s p) (\<lambda>(rs, p1). Inr (wrap c rs, p1))"

lemma redirs_progress: "redirs s p = Inr (rs, p') \<Longrightarrow> p \<le> length s \<Longrightarrow> p \<le> p' \<and> p' \<le> length s"
proof (induction s p arbitrary: rs rule: redirs.induct)
  case (1 s p)
  show ?case
  proof (cases "fst (peek s p [60, 62])")
    case False
    with 1(2,3) show ?thesis using skip_ws_ge skip_ws_le
      by (auto simp: redirs.simps [of s p] peek_def Let_def)
  next
    case True
    then obtain q where k: "peek s p [60, 62] = (True, q)" by (cases "peek s p [60, 62]") auto
    obtain a b c p1 where t: "gettoken s q = (a, b, c, p1)" by (cases "gettoken s q")
    obtain a' b' c' p2 where f: "gettoken s p1 = (a', b', c', p2)" by (cases "gettoken s p1")
    have p1: "p < p1" "p1 \<le> length s" using peek_gettoken [OF k t] by auto
    have p2: "p1 \<le> p2" "p2 \<le> length s" using gettoken_progress [OF f p1(2)] by auto
    obtain rs1 where "redirs s p2 = Inr (rs1, p')" "a' = 97"
      using 1(2) k t f by (auto simp: redirs.simps [of s p] Let_def sbind_eq split: sum.splits if_splits)
    then have "p2 \<le> p' \<and> p' \<le> length s" using 1(1) k t f p2(2) by simp
    with p1 p2 show ?thesis by simp
  qed
qed

text \<open>
  The loop of \<^verbatim>\<open>parseexec\<close>: \<open>argv\<close> are the arguments and \<open>rs\<close> the redirections so far. The
  command the redirections wrap is the one that later arguments are stored into.
\<close>

function exec_args :: "byte list \<Rightarrow> nat \<Rightarrow> (nat \<times> nat) list \<Rightarrow> ((nat \<times> nat) \<times> uint32 \<times> nat) list \<Rightarrow>
    sherr + cmd \<times> nat" where
  "exec_args s p argv rs =
     (let pk = peek s p [124, 41, 38, 59]; t = gettoken s (snd pk) in
      if fst pk then Inr (wrap (EXEC argv) rs, snd pk)
      else if fst t = 0 then Inr (wrap (EXEC argv) rs, snd (snd (snd t)))
      else if fst t \<noteq> 97 then Inl (ShPanic ''syntax'')
      else if length argv + 1 \<ge> 10 then Inl (ShPanic ''too many args'')
      else case redirs s (snd (snd (snd t))) of
        Inl e \<Rightarrow> Inl e
      | Inr (rs1, p1) \<Rightarrow> exec_args s p1 (argv @ [(fst (snd t), fst (snd (snd t)))]) (rs @ rs1))"
  by pat_completeness auto
termination
proof (relation "measure (\<lambda>(s, p, argv, rs). length s - p)", goal_cases)
  case (2 s p argv rs pk t r rs1 p1)
  let ?q = "skip_ws s p"
  have pk: "pk = peek s p [124, 41, 38, 59]" using 2 by auto
  have q: "snd pk = ?q" by (simp add: pk peek_def Let_def)
  obtain a b c p2 where t: "gettoken s ?q = (a, b, c, p2)" by (cases "gettoken s ?q")
  have "a \<noteq> 0" using 2 q t by auto
  then have p: "p \<le> length s" using gettoken_nonzero [OF t] skip_ws_ge [of p s] by simp
  have "?q \<le> b \<and> b < c \<and> c \<le> p2 \<and> p2 \<le> length s"
    using gettoken_progress [OF t skip_ws_le [OF p]] 2 q t by auto
  moreover have "p2 \<le> p1 \<and> p1 \<le> length s" using redirs_progress [of s p2 rs1 p1] 2 q t calculation by auto
  ultimately have "p < p1" "p1 \<le> length s" using skip_ws_ge [of p s] by linarith+
  then show ?case by simp
qed simp

declare exec_args.simps [simp del]

text \<open>The loop of \<^verbatim>\<open>parseline\<close> over \<^verbatim>\<open>&\<close>.\<close>

function backs :: "cmd \<Rightarrow> byte list \<Rightarrow> nat \<Rightarrow> cmd \<times> nat" where
  "backs c s p =
     (let pk = peek s p [38] in
      if fst pk then backs (BACK c) s (after_token s (snd pk)) else (c, snd pk))"
  by pat_completeness auto
termination
proof (relation "measure (\<lambda>(c, s, p). length s - p)", goal_cases)
  case (2 c s p pk)
  then obtain q where k: "peek s p [38] = (True, q)" by (cases "peek s p [38]") auto
  obtain a b e p1 where t: "gettoken s q = (a, b, e, p1)" by (cases "gettoken s q")
  show ?case using 2 k t peek_gettoken [OF k t] by (simp add: after_token_def)
qed simp

declare backs.simps [simp del]

fun parseline :: "nat \<Rightarrow> byte list \<Rightarrow> nat \<Rightarrow> sherr + cmd \<times> nat"
  and parsepipe :: "nat \<Rightarrow> byte list \<Rightarrow> nat \<Rightarrow> sherr + cmd \<times> nat"
  and parseblock :: "nat \<Rightarrow> byte list \<Rightarrow> nat \<Rightarrow> sherr + cmd \<times> nat"
  and parseexec :: "nat \<Rightarrow> byte list \<Rightarrow> nat \<Rightarrow> sherr + cmd \<times> nat" where
  "parseline 0 s p = Inl NoFuel"
| "parseline (Suc k) s p =
     sbind (parsepipe k s p) (\<lambda>(c, p1).
       let (c1, p2) = backs c s p1; (semi, p3) = peek s p2 [59] in
       if semi then sbind (parseline k s (after_token s p3)) (\<lambda>(r, p4). Inr (LIST c1 r, p4))
       else Inr (c1, p3))"
| "parsepipe 0 s p = Inl NoFuel"
| "parsepipe (Suc k) s p =
     sbind (parseexec k s p) (\<lambda>(c, p1).
       let (bar, p2) = peek s p1 [124] in
       if bar then sbind (parsepipe k s (after_token s p2)) (\<lambda>(r, p3). Inr (PIPE c r, p3))
       else Inr (c, p2))"
| "parseblock 0 s p = Inl NoFuel"
| "parseblock (Suc k) s p =
     (let (open, p1) = peek s p [40] in
      if \<not> open then Inl (ShPanic ''parseblock'')
      else sbind (parseline k s (after_token s p1)) (\<lambda>(c, p2).
        let (close, p3) = peek s p2 [41] in
        if \<not> close then Inl (ShPanic ''syntax - missing )'') else parseredirs c s (after_token s p3)))"
| "parseexec 0 s p = Inl NoFuel"
| "parseexec (Suc k) s p =
     (let (open, p1) = peek s p [40] in
      if open then parseblock k s p1
      else sbind (redirs s p1) (\<lambda>(rs, p2). exec_args s p2 [] rs))"

definition parse_fuel :: "byte list \<Rightarrow> nat" where
  "parse_fuel s = 4 * length s + 4"

text \<open>\<open>parsed\<close> is \<^verbatim>\<open>parsecmd\<close> before it calls \<^verbatim>\<open>nulterminate\<close>.\<close>

definition parsed :: "byte list \<Rightarrow> sherr + cmd" where
  "parsed s =
     sbind (parseline (parse_fuel s) s 0) (\<lambda>(c, p).
       let (_, p1) = peek s p [] in
       if p1 \<noteq> length s then Inl (ShPanic ''syntax'') else Inr c)"

text \<open>
  \<^verbatim>\<open>nulterminate\<close> stores a NUL at the end of every counted string; \<open>buf\<close> is the line with its
  terminating NUL. A command then refers to the strings that start at its positions.
\<close>

primrec nulterminate :: "cmd \<Rightarrow> byte list \<Rightarrow> byte list" where
  "nulterminate (EXEC argv) buf = foldl (\<lambda>b (q, e). b[e := 0]) buf argv"
| "nulterminate (REDIR c f mode fd) buf = (nulterminate c buf)[snd f := 0]"
| "nulterminate (PIPE l r) buf = nulterminate r (nulterminate l buf)"
| "nulterminate (LIST l r) buf = nulterminate r (nulterminate l buf)"
| "nulterminate (BACK c) buf = nulterminate c buf"

definition parsecmd :: "byte list \<Rightarrow> sherr + cmd \<times> byte list" where
  "parsecmd s = sbind (parsed s) (\<lambda>c. Inr (c, nulterminate c (s @ [0])))"

section \<open>Progress and termination\<close>

definition within :: "byte list \<Rightarrow> nat \<Rightarrow> nat \<Rightarrow> bool" where
  "within s p p' \<longleftrightarrow> p \<le> p' \<and> p' \<le> length s"

lemma within_trans: "within s p q \<Longrightarrow> within s q r \<Longrightarrow> within s p r"
  by (auto simp: within_def)

lemma within_peek: "peek s p toks = (b, q) \<Longrightarrow> p \<le> length s \<Longrightarrow> within s p q"
  using skip_ws_ge skip_ws_le by (auto simp: peek_def Let_def within_def)

lemma peek_after:
  assumes "peek s p toks = (True, q)"
  shows "p < after_token s q" "after_token s q \<le> length s"
proof -
  obtain tok q' e p' where t: "gettoken s q = (tok, q', e, p')" by (cases "gettoken s q")
  show "p < after_token s q" "after_token s q \<le> length s"
    using peek_gettoken [OF assms t] t by (simp_all add: after_token_def)
qed

lemma within_after: "peek s p toks = (True, q) \<Longrightarrow> within s p (after_token s q)"
  using peek_after [of s p toks q] by (simp add: within_def)

lemma within_redirs: "redirs s p = Inr (rs, p') \<Longrightarrow> p \<le> length s \<Longrightarrow> within s p p'"
  using redirs_progress by (simp add: within_def)

lemma within_backs: "backs c s p = (c', p') \<Longrightarrow> p \<le> length s \<Longrightarrow> within s p p'"
proof (induction c s p rule: backs.induct)
  case (1 c s p)
  obtain b q where k: "peek s p [38] = (b, q)" by (cases "peek s p [38]")
  show ?case
  proof (cases b)
    case True
    then have "backs (BACK c) s (after_token s q) = (c', p')"
      using 1(2) k by (simp add: backs.simps [of c s p])
    then have "within s (after_token s q) p'"
      using 1(1) k True peek_after(2) [of s p "[38]" q] by simp
    then show ?thesis using within_after [of s p "[38]" q] k True by (auto intro: within_trans)
  next
    case False
    then show ?thesis using 1(2,3) k within_peek [OF k] by (simp add: backs.simps [of c s p])
  qed
qed

lemma within_exec_args: "exec_args s p argv rs = Inr (c, p') \<Longrightarrow> p \<le> length s \<Longrightarrow> within s p p'"
proof (induction s p argv rs rule: exec_args.induct)
  case (1 s p argv rs)
  obtain b q where k: "peek s p [124, 41, 38, 59] = (b, q)" by (cases "peek s p [124, 41, 38, 59]")
  obtain tok q' e p1 where t: "gettoken s q = (tok, q', e, p1)" by (cases "gettoken s q")
  have q: "within s p q" by (rule within_peek [OF k 1(3)])
  then have p1: "within s q p1" using gettoken_progress [OF t] by (simp add: within_def)
  consider "b \<or> tok = 0" | rs1 p2 where "\<not> b" "tok = 97" "\<not> length argv + 1 \<ge> 10" "redirs s p1 = Inr (rs1, p2)"
      "exec_args s p2 (argv @ [(q', e)]) (rs @ rs1) = Inr (c, p')"
    using 1(2) k t by (auto simp: exec_args.simps [of s p argv rs] Let_def split: if_splits sum.splits prod.splits)
  then show ?case
  proof cases
    case 1
    with \<open>exec_args s p argv rs = Inr (c, p')\<close> k t q p1 show ?thesis
      by (auto simp: exec_args.simps [of s p argv rs] Let_def split: if_splits intro: within_trans)
  next
    case (2 rs1 p2)
    have "within s p1 p2" using within_redirs [OF 2(4)] p1 by (simp add: within_def)
    moreover have "within s p2 p'" using 1(1) 2 k t calculation by (auto simp: within_def)
    ultimately show ?thesis using q p1 by (blast intro: within_trans)
  qed
qed

text \<open>A parsing function moves forward and stays within the line.\<close>

definition inside :: "(byte list \<Rightarrow> nat \<Rightarrow> sherr + cmd \<times> nat) \<Rightarrow> byte list \<Rightarrow> bool" where
  "inside f s \<longleftrightarrow> (\<forall>p c p'. p \<le> length s \<longrightarrow> f s p = Inr (c, p') \<longrightarrow> within s p p')"

lemma insideD: "inside f s \<Longrightarrow> f s p = Inr (c, p') \<Longrightarrow> p \<le> length s \<Longrightarrow> within s p p'"
  by (simp add: inside_def)

lemma insideI: "(\<And>p c p'. p \<le> length s \<Longrightarrow> f s p = Inr (c, p') \<Longrightarrow> within s p p') \<Longrightarrow> inside f s"
  by (simp add: inside_def)

lemma within_le: "within s p q \<Longrightarrow> q \<le> length s"
  by (simp add: within_def)

lemma inside_parseline:
  assumes "inside (parsepipe k) s" "inside (parseline k) s"
  shows "inside (parseline (Suc k)) s"
proof (rule insideI)
  fix p c p' assume p: "p \<le> length s" and e: "parseline (Suc k) s p = Inr (c, p')"
  obtain c0 p1 where a: "parsepipe k s p = Inr (c0, p1)" using e by (auto simp: sbind_eq split: sum.splits)
  obtain c1 p2 where b: "backs c0 s p1 = (c1, p2)" by (cases "backs c0 s p1")
  obtain semi p3 where d: "peek s p2 [59] = (semi, p3)" by (cases "peek s p2 [59]")
  have 1: "within s p p2" using insideD [OF assms(1) a p] within_backs [OF b] by (blast intro: within_trans within_le)
  show "within s p p'"
  proof (cases semi)
    case True
    then obtain r where r: "parseline k s (after_token s p3) = Inr (r, p')"
      using e a b d by (auto simp: sbind_eq split: sum.splits)
    have 2: "within s p2 (after_token s p3)" using within_after [of s p2 "[59]" p3] d True by simp
    from 1 2 insideD [OF assms(2) r within_le [OF 2]] show ?thesis by (blast intro: within_trans)
  next
    case False
    with e a b d have "p' = p3" by simp
    with 1 within_peek [OF d within_le [OF 1]] show ?thesis by (blast intro: within_trans)
  qed
qed

lemma inside_parsepipe:
  assumes "inside (parseexec k) s" "inside (parsepipe k) s"
  shows "inside (parsepipe (Suc k)) s"
proof (rule insideI)
  fix p c p' assume p: "p \<le> length s" and e: "parsepipe (Suc k) s p = Inr (c, p')"
  obtain c0 p1 where a: "parseexec k s p = Inr (c0, p1)" using e by (auto simp: sbind_eq split: sum.splits)
  obtain bar p2 where d: "peek s p1 [124] = (bar, p2)" by (cases "peek s p1 [124]")
  have 1: "within s p p1" by (rule insideD [OF assms(1) a p])
  show "within s p p'"
  proof (cases bar)
    case True
    then obtain r where r: "parsepipe k s (after_token s p2) = Inr (r, p')"
      using e a d by (auto simp: sbind_eq split: sum.splits)
    have 2: "within s p1 (after_token s p2)" using within_after [of s p1 "[124]" p2] d True by simp
    from 1 2 insideD [OF assms(2) r within_le [OF 2]] show ?thesis by (blast intro: within_trans)
  next
    case False
    with e a d have "p' = p2" by simp
    with 1 within_peek [OF d within_le [OF 1]] show ?thesis by (blast intro: within_trans)
  qed
qed

lemma inside_parseblock:
  assumes "inside (parseline k) s"
  shows "inside (parseblock (Suc k)) s"
proof (rule insideI)
  fix p c p' assume p: "p \<le> length s" and e: "parseblock (Suc k) s p = Inr (c, p')"
  obtain p1 where a: "peek s p [40] = (True, p1)" using e by (cases "peek s p [40]") (auto split: if_splits)
  obtain c0 p2 where b: "parseline k s (after_token s p1) = Inr (c0, p2)"
    using e a by (auto simp: sbind_eq split: sum.splits)
  obtain p3 where d: "peek s p2 [41] = (True, p3)" using e a b by (cases "peek s p2 [41]") (auto split: if_splits)
  obtain rs where r: "redirs s (after_token s p3) = Inr (rs, p')"
    using e a b d by (auto simp: parseredirs_def sbind_eq split: sum.splits)
  have 1: "within s p (after_token s p1)" "within s p2 (after_token s p3)"
    using within_after [OF a] within_after [OF d] by simp_all
  from 1 insideD [OF assms b within_le [OF 1(1)]] within_redirs [OF r within_le [OF 1(2)]]
  show "within s p p'" by (blast intro: within_trans)
qed

lemma inside_parseexec:
  assumes "inside (parseblock k) s"
  shows "inside (parseexec (Suc k)) s"
proof (rule insideI)
  fix p c p' assume p: "p \<le> length s" and e: "parseexec (Suc k) s p = Inr (c, p')"
  obtain b p1 where a: "peek s p [40] = (b, p1)" by (cases "peek s p [40]")
  have 1: "within s p p1" by (rule within_peek [OF a p])
  show "within s p p'"
  proof (cases b)
    case True
    then have "parseblock k s p1 = Inr (c, p')" using e a by simp
    with 1 insideD [OF assms _ within_le [OF 1]] show ?thesis by (blast intro: within_trans)
  next
    case False
    then obtain rs p2 where r: "redirs s p1 = Inr (rs, p2)" "exec_args s p2 [] rs = Inr (c, p')"
      using e a by (auto simp: sbind_eq split: sum.splits)
    have 2: "within s p1 p2" by (rule within_redirs [OF r(1) within_le [OF 1]])
    from 1 2 within_exec_args [OF r(2) within_le [OF 2]] show ?thesis by (blast intro: within_trans)
  qed
qed

lemma inside_parser:
  "inside (parseline k) s \<and> inside (parsepipe k) s \<and> inside (parseblock k) s \<and> inside (parseexec k) s"
proof (induction k)
  case 0
  then show ?case by (simp add: inside_def)
next
  case (Suc k)
  then show ?case by (blast intro: inside_parseline inside_parsepipe inside_parseblock inside_parseexec)
qed

text \<open>A parsing function with enough fuel for what is left of the line does not run out of it.\<close>

definition fuelled :: "(byte list \<Rightarrow> nat \<Rightarrow> sherr + cmd \<times> nat) \<Rightarrow> byte list \<Rightarrow> nat \<Rightarrow> nat \<Rightarrow> bool" where
  "fuelled f s extra k \<longleftrightarrow> (\<forall>p. p \<le> length s \<longrightarrow> 4 * (length s - p) + extra \<le> k \<longrightarrow> f s p \<noteq> Inl NoFuel)"

lemma redirs_no_fuel: "redirs s p \<noteq> Inl NoFuel"
proof (induction s p rule: redirs.induct)
  case (1 s p)
  obtain b q where k: "peek s p [60, 62] = (b, q)" by (cases "peek s p [60, 62]")
  obtain a1 a2 a3 p1 where t: "gettoken s q = (a1, a2, a3, p1)" by (cases "gettoken s q")
  obtain b1 b2 b3 p2 where f: "gettoken s p1 = (b1, b2, b3, p2)" by (cases "gettoken s p1")
  show ?case
    using 1 k t f by (cases "redirs s p2") (auto simp: redirs.simps [of s p] Let_def)
qed

lemma exec_args_no_fuel: "exec_args s p argv rs \<noteq> Inl NoFuel"
proof (induction s p argv rs rule: exec_args.induct)
  case (1 s p argv rs)
  obtain b q where k: "peek s p [124, 41, 38, 59] = (b, q)" by (cases "peek s p [124, 41, 38, 59]")
  obtain tok q' e p1 where t: "gettoken s q = (tok, q', e, p1)" by (cases "gettoken s q")
  show ?case
  proof (cases "redirs s p1")
    case (Inl err)
    with k t redirs_no_fuel [of s p1] show ?thesis by (simp add: exec_args.simps [of s p argv rs] Let_def)
  next
    case (Inr r)
    with k t 1 show ?thesis by (cases r) (simp add: exec_args.simps [of s p argv rs] Let_def)
  qed
qed

lemma parse_within:
  "parsepipe k s p = Inr (c, p') \<Longrightarrow> p \<le> length s \<Longrightarrow> within s p p'"
  "parseexec k s p = Inr (c, p') \<Longrightarrow> p \<le> length s \<Longrightarrow> within s p p'"
  using inside_parser [of k s] by (simp_all add: inside_def)

lemma fuelled_parseline:
  assumes "fuelled (parsepipe k) s 3 k" "fuelled (parseline k) s 4 k"
  shows "fuelled (parseline (Suc k)) s 4 (Suc k)"
  unfolding fuelled_def
proof (intro allI impI notI)
  fix p assume p: "p \<le> length s" "4 * (length s - p) + 4 \<le> Suc k" and n: "parseline (Suc k) s p = Inl NoFuel"
  have "parsepipe k s p \<noteq> Inl NoFuel" using assms(1) p by (simp add: fuelled_def)
  then obtain c0 p1 where a: "parsepipe k s p = Inr (c0, p1)" using n by (auto simp: sbind_eq split: sum.splits)
  obtain c1 p2 where b: "backs c0 s p1 = (c1, p2)" by (cases "backs c0 s p1")
  have 1: "within s p p1" by (rule parse_within(1) [OF a p(1)])
  then have 2: "within s p p2" using within_backs [OF b within_le] by (blast intro: within_trans)
  obtain semi p3 where d: "peek s p2 [59] = (semi, p3)" by (cases "peek s p2 [59]")
  then have semi "parseline k s (after_token s p3) = Inl NoFuel"
    using n a b by (auto simp: sbind_eq split: sum.splits if_splits)
  moreover have "p < after_token s p3" "after_token s p3 \<le> length s"
    using peek_after [of s p2 "[59]" p3] d calculation(1) 2 by (auto simp: within_def)
  moreover from this have "4 * (length s - after_token s p3) + 4 \<le> k" using p(2) by linarith
  ultimately show False using assms(2) by (simp add: fuelled_def)
qed

lemma fuelled_parsepipe:
  assumes "fuelled (parseexec k) s 2 k" "fuelled (parsepipe k) s 3 k"
  shows "fuelled (parsepipe (Suc k)) s 3 (Suc k)"
  unfolding fuelled_def
proof (intro allI impI notI)
  fix p assume p: "p \<le> length s" "4 * (length s - p) + 3 \<le> Suc k" and n: "parsepipe (Suc k) s p = Inl NoFuel"
  have "parseexec k s p \<noteq> Inl NoFuel" using assms(1) p by (simp add: fuelled_def)
  then obtain c0 p1 where a: "parseexec k s p = Inr (c0, p1)" using n by (auto simp: sbind_eq split: sum.splits)
  have 1: "within s p p1" by (rule parse_within(2) [OF a p(1)])
  obtain bar p2 where d: "peek s p1 [124] = (bar, p2)" by (cases "peek s p1 [124]")
  then have bar "parsepipe k s (after_token s p2) = Inl NoFuel"
    using n a by (auto simp: sbind_eq split: sum.splits if_splits)
  moreover have "p < after_token s p2" "after_token s p2 \<le> length s"
    using peek_after [of s p1 "[124]" p2] d calculation(1) 1 by (auto simp: within_def)
  moreover from this have "4 * (length s - after_token s p2) + 3 \<le> k" using p(2) by linarith
  ultimately show False using assms(2) by (simp add: fuelled_def)
qed

lemma fuelled_parseblock:
  assumes "fuelled (parseline k) s 4 k"
  shows "fuelled (parseblock (Suc k)) s 1 (Suc k)"
  unfolding fuelled_def
proof (intro allI impI notI)
  fix p assume p: "p \<le> length s" "4 * (length s - p) + 1 \<le> Suc k" and n: "parseblock (Suc k) s p = Inl NoFuel"
  obtain p1 where a: "peek s p [40] = (True, p1)" using n by (cases "peek s p [40]") (auto split: if_splits)
  have "p < after_token s p1" "after_token s p1 \<le> length s" using peek_after [OF a] by auto
  moreover from this have "4 * (length s - after_token s p1) + 4 \<le> k" using p(2) by linarith
  ultimately have "parseline k s (after_token s p1) \<noteq> Inl NoFuel" using assms by (simp add: fuelled_def)
  with n a show False
    by (auto simp: sbind_eq parseredirs_def redirs_no_fuel split: sum.splits if_splits prod.splits)
qed

lemma fuelled_parseexec:
  assumes "fuelled (parseblock k) s 1 k"
  shows "fuelled (parseexec (Suc k)) s 2 (Suc k)"
  unfolding fuelled_def
proof (intro allI impI notI)
  fix p assume p: "p \<le> length s" "4 * (length s - p) + 2 \<le> Suc k" and n: "parseexec (Suc k) s p = Inl NoFuel"
  obtain b p1 where a: "peek s p [40] = (b, p1)" by (cases "peek s p [40]")
  have 1: "within s p p1" by (rule within_peek [OF a p(1)])
  then have "4 * (length s - p1) + 1 \<le> k" using p(2) unfolding within_def by linarith
  then have "parseblock k s p1 \<noteq> Inl NoFuel" using assms 1 by (simp add: fuelled_def within_def)
  with n a show False
    by (auto simp: sbind_eq redirs_no_fuel exec_args_no_fuel split: sum.splits if_splits prod.splits)
qed

lemma fuelled_parser:
  "fuelled (parseline k) s 4 k \<and> fuelled (parsepipe k) s 3 k \<and> fuelled (parseblock k) s 1 k \<and> fuelled (parseexec k) s 2 k"
proof (induction k)
  case 0
  then show ?case by (simp add: fuelled_def)
next
  case (Suc k)
  then show ?case by (blast intro: fuelled_parseline fuelled_parsepipe fuelled_parseblock fuelled_parseexec)
qed

text \<open>
  C33. Parsing a command line always ends: the four mutually recursive parsing functions consume a
  character on every cycle, so that the fuel \<open>4 * length s + 4\<close> is never used up. \<^verbatim>\<open>parsecmd\<close>
  returns a command or one of the shell's syntax errors.
\<close>

theorem parsecmd_terminates: "parsecmd s \<noteq> Inl NoFuel"
proof -
  have "parseline (parse_fuel s) s 0 \<noteq> Inl NoFuel"
    using fuelled_parser [of "parse_fuel s" s] by (simp add: fuelled_def parse_fuel_def)
  then show ?thesis
    by (auto simp: parsecmd_def parsed_def sbind_eq split: sum.splits if_splits prod.splits)
qed

section \<open>The strings of a command\<close>

primrec tokens :: "cmd \<Rightarrow> (nat \<times> nat) list" where
  "tokens (EXEC argv) = argv"
| "tokens (REDIR c f mode fd) = f # tokens c"
| "tokens (PIPE l r) = tokens l @ tokens r"
| "tokens (LIST l r) = tokens l @ tokens r"
| "tokens (BACK c) = tokens c"

definition word_at :: "byte list \<Rightarrow> nat \<times> nat \<Rightarrow> bool" where
  "word_at s t \<longleftrightarrow>
     fst t < snd t \<and> snd t \<le> length s \<and> (\<forall>i. fst t \<le> i \<longrightarrow> i < snd t \<longrightarrow> word_char (s ! i)) \<and>
     (snd t < length s \<longrightarrow> \<not> word_char (s ! snd t))"

lemma gettoken_word:
  assumes g: "gettoken s p = (97, q, e, p')" and p: "p \<le> length s"
  shows "word_at s (q, e)"
proof -
  let ?w = "takeWhile word_char (drop q s)"
  have e: "e = q + length ?w" using g by (auto simp: gettoken_def Let_def split: if_splits)
  have le: "q < e" "e \<le> length s" using gettoken_progress [OF g p] by auto
  have "word_char (s ! i)" if "q \<le> i" "i < e" for i
  proof -
    have "?w ! (i - q) = drop q s ! (i - q)" using that e by (intro takeWhile_nth) simp
    moreover have "?w ! (i - q) \<in> set ?w" using that e by (intro nth_mem) simp
    ultimately show ?thesis using that le set_takeWhileD by fastforce
  qed
  moreover have "\<not> word_char (s ! e)" if "e < length s"
  proof -
    have "length ?w < length (drop q s)" using that e by simp
    then have "\<not> word_char (drop q s ! length ?w)" by (rule nth_length_takeWhile)
    then show ?thesis using e le by simp
  qed
  ultimately show ?thesis using le by (simp add: word_at_def)
qed

definition words :: "byte list \<Rightarrow> cmd \<Rightarrow> bool" where
  "words s c \<longleftrightarrow> list_all (word_at s) (tokens c)"

lemma words_simps [simp]:
  "words s (EXEC argv) \<longleftrightarrow> list_all (word_at s) argv"
  "words s (REDIR c f mode fd) \<longleftrightarrow> word_at s f \<and> words s c"
  "words s (PIPE l r) \<longleftrightarrow> words s l \<and> words s r"
  "words s (LIST l r) \<longleftrightarrow> words s l \<and> words s r"
  "words s (BACK c) \<longleftrightarrow> words s c"
  by (simp_all add: words_def)

lemma wrap_simps [simp]: "wrap c [] = c" "wrap c ((f, mode, fd) # rs) = wrap (REDIR c f mode fd) rs"
  by (simp_all add: wrap_def)

lemma words_wrap: "words s (wrap c rs) \<longleftrightarrow> words s c \<and> list_all (\<lambda>r. word_at s (fst r)) rs"
proof (induction rs arbitrary: c)
  case (Cons r rs)
  then show ?case by (cases r) (simp add: conj_ac)
qed simp

lemma words_backs: "words s c \<Longrightarrow> backs c s p = (c', p') \<Longrightarrow> words s c'"
proof (induction c s p rule: backs.induct)
  case (1 c s p)
  then show ?case by (auto simp: backs.simps [of c s p] Let_def split: if_splits)
qed

lemma words_redirs:
  "redirs s p = Inr (rs, p') \<Longrightarrow> p \<le> length s \<Longrightarrow> list_all (\<lambda>r. word_at s (fst r)) rs"
proof (induction s p arbitrary: rs rule: redirs.induct)
  case (1 s p)
  show ?case
  proof (cases "fst (peek s p [60, 62])")
    case False
    with 1(2) show ?thesis by (auto simp: redirs.simps [of s p] Let_def)
  next
    case True
    then obtain q where k: "peek s p [60, 62] = (True, q)" by (cases "peek s p [60, 62]") auto
    obtain a b c p1 where t: "gettoken s q = (a, b, c, p1)" by (cases "gettoken s q")
    obtain a' b' c' p2 where f: "gettoken s p1 = (a', b', c', p2)" by (cases "gettoken s p1")
    have p1: "p1 \<le> length s" using peek_gettoken [OF k t] by auto
    obtain rs1 where r: "redirs s p2 = Inr (rs1, p')" "a' = 97" "rs = ((b', c'), redir_kind a) # rs1"
      using 1(2) k t f by (auto simp: redirs.simps [of s p] Let_def sbind_eq split: sum.splits if_splits)
    have "p2 \<le> length s" using gettoken_progress [OF f p1] by auto
    then have "list_all (\<lambda>r. word_at s (fst r)) rs1" using 1(1) k t f r by simp
    with r(3) gettoken_word [OF f [unfolded r(2)] p1] show ?thesis by simp
  qed
qed

lemma words_exec_args:
  "exec_args s p argv rs = Inr (c, p') \<Longrightarrow> p \<le> length s \<Longrightarrow> list_all (word_at s) argv \<Longrightarrow>
     list_all (\<lambda>r. word_at s (fst r)) rs \<Longrightarrow> words s c"
proof (induction s p argv rs rule: exec_args.induct)
  case (1 s p argv rs)
  obtain b q where k: "peek s p [124, 41, 38, 59] = (b, q)" by (cases "peek s p [124, 41, 38, 59]")
  obtain tok q' e p1 where t: "gettoken s q = (tok, q', e, p1)" by (cases "gettoken s q")
  have q: "q \<le> length s" using within_peek [OF k 1(3)] by (rule within_le)
  have p1: "p1 \<le> length s" using gettoken_progress [OF t q] by auto
  consider "c = wrap (EXEC argv) rs" | rs1 p2 where "\<not> b" "tok = 97" "\<not> length argv + 1 \<ge> 10" "redirs s p1 = Inr (rs1, p2)"
      "exec_args s p2 (argv @ [(q', e)]) (rs @ rs1) = Inr (c, p')"
    using 1(2) k t by (auto simp: exec_args.simps [of s p argv rs] Let_def split: if_splits sum.splits prod.splits)
  then show ?case
  proof cases
    case 1
    with \<open>list_all (word_at s) argv\<close> \<open>list_all _ rs\<close> show ?thesis by (simp add: words_wrap)
  next
    case (2 rs1 p2)
    have "list_all (word_at s) (argv @ [(q', e)])" using 1(4) gettoken_word [OF t [unfolded 2(2)] q] by simp
    moreover have "list_all (\<lambda>r. word_at s (fst r)) (rs @ rs1)" using 1(5) words_redirs [OF 2(4) p1] by simp
    moreover have "p2 \<le> length s" using within_redirs [OF 2(4) p1] by (rule within_le)
    ultimately show ?thesis using 1(1) 2 k t by simp
  qed
qed

text \<open>A parsing function returns commands whose strings are words of the line.\<close>

definition wordy :: "(byte list \<Rightarrow> nat \<Rightarrow> sherr + cmd \<times> nat) \<Rightarrow> byte list \<Rightarrow> bool" where
  "wordy f s \<longleftrightarrow> (\<forall>p c p'. p \<le> length s \<longrightarrow> f s p = Inr (c, p') \<longrightarrow> words s c)"

lemma wordyD: "wordy f s \<Longrightarrow> f s p = Inr (c, p') \<Longrightarrow> p \<le> length s \<Longrightarrow> words s c"
  by (simp add: wordy_def)

lemma wordyI: "(\<And>p c p'. p \<le> length s \<Longrightarrow> f s p = Inr (c, p') \<Longrightarrow> words s c) \<Longrightarrow> wordy f s"
  by (simp add: wordy_def)

lemma wordy_parseline:
  assumes "wordy (parsepipe k) s" "wordy (parseline k) s"
  shows "wordy (parseline (Suc k)) s"
proof (rule wordyI)
  fix p c p' assume p: "p \<le> length s" and e: "parseline (Suc k) s p = Inr (c, p')"
  obtain c0 p1 where a: "parsepipe k s p = Inr (c0, p1)" using e by (auto simp: sbind_eq split: sum.splits)
  obtain c1 p2 where b: "backs c0 s p1 = (c1, p2)" by (cases "backs c0 s p1")
  obtain semi p3 where d: "peek s p2 [59] = (semi, p3)" by (cases "peek s p2 [59]")
  have 1: "words s c1" using words_backs [OF wordyD [OF assms(1) a p] b] .
  show "words s c"
  proof (cases semi)
    case True
    then obtain r where r: "parseline k s (after_token s p3) = Inr (r, p')" "c = LIST c1 r"
      using e a b d by (auto simp: sbind_eq split: sum.splits)
    have "after_token s p3 \<le> length s" using peek_after(2) [of s p2 "[59]" p3] d True by simp
    with 1 r wordyD [OF assms(2) r(1)] show ?thesis by simp
  next
    case False
    with 1 e a b d show ?thesis by simp
  qed
qed

lemma wordy_parsepipe:
  assumes "wordy (parseexec k) s" "wordy (parsepipe k) s"
  shows "wordy (parsepipe (Suc k)) s"
proof (rule wordyI)
  fix p c p' assume p: "p \<le> length s" and e: "parsepipe (Suc k) s p = Inr (c, p')"
  obtain c0 p1 where a: "parseexec k s p = Inr (c0, p1)" using e by (auto simp: sbind_eq split: sum.splits)
  obtain bar p2 where d: "peek s p1 [124] = (bar, p2)" by (cases "peek s p1 [124]")
  have 1: "words s c0" by (rule wordyD [OF assms(1) a p])
  show "words s c"
  proof (cases bar)
    case True
    then obtain r where r: "parsepipe k s (after_token s p2) = Inr (r, p')" "c = PIPE c0 r"
      using e a d by (auto simp: sbind_eq split: sum.splits)
    have "after_token s p2 \<le> length s" using peek_after(2) [of s p1 "[124]" p2] d True by simp
    with 1 r wordyD [OF assms(2) r(1)] show ?thesis by simp
  next
    case False
    with 1 e a d show ?thesis by simp
  qed
qed

lemma wordy_parseblock:
  assumes "wordy (parseline k) s"
  shows "wordy (parseblock (Suc k)) s"
proof (rule wordyI)
  fix p c p' assume p: "p \<le> length s" and e: "parseblock (Suc k) s p = Inr (c, p')"
  obtain p1 where a: "peek s p [40] = (True, p1)" using e by (cases "peek s p [40]") (auto split: if_splits)
  obtain c0 p2 where b: "parseline k s (after_token s p1) = Inr (c0, p2)"
    using e a by (auto simp: sbind_eq split: sum.splits)
  obtain p3 where d: "peek s p2 [41] = (True, p3)" using e a b by (cases "peek s p2 [41]") (auto split: if_splits)
  obtain rs where r: "redirs s (after_token s p3) = Inr (rs, p')" "c = wrap c0 rs"
    using e a b d by (auto simp: parseredirs_def sbind_eq split: sum.splits)
  show "words s c"
    using wordyD [OF assms b peek_after(2) [OF a]] words_redirs [OF r(1) peek_after(2) [OF d]] r(2)
    by (simp add: words_wrap)
qed

lemma wordy_parseexec:
  assumes "wordy (parseblock k) s"
  shows "wordy (parseexec (Suc k)) s"
proof (rule wordyI)
  fix p c p' assume p: "p \<le> length s" and e: "parseexec (Suc k) s p = Inr (c, p')"
  obtain b p1 where a: "peek s p [40] = (b, p1)" by (cases "peek s p [40]")
  have 1: "p1 \<le> length s" using within_peek [OF a p] by (rule within_le)
  show "words s c"
  proof (cases b)
    case True
    then have "parseblock k s p1 = Inr (c, p')" using e a by simp
    then show ?thesis by (rule wordyD [OF assms _ 1])
  next
    case False
    then obtain rs p2 where r: "redirs s p1 = Inr (rs, p2)" "exec_args s p2 [] rs = Inr (c, p')"
      using e a by (auto simp: sbind_eq split: sum.splits)
    show ?thesis
      using words_exec_args [OF r(2) within_le [OF within_redirs [OF r(1) 1]] _ words_redirs [OF r(1) 1]] by simp
  qed
qed

lemma wordy_parser:
  "wordy (parseline k) s \<and> wordy (parsepipe k) s \<and> wordy (parseblock k) s \<and> wordy (parseexec k) s"
proof (induction k)
  case 0
  then show ?case by (simp add: wordy_def)
next
  case (Suc k)
  then show ?case by (blast intro: wordy_parseline wordy_parsepipe wordy_parseblock wordy_parseexec)
qed

lemma parsed_words: "parsed s = Inr c \<Longrightarrow> words s c"
  using wordy_parser [of "parse_fuel s" s]
  by (auto simp: parsed_def wordy_def sbind_eq split: sum.splits prod.splits if_splits)

lemma length_nulterminate [simp]: "length (nulterminate c buf) = length buf"
proof -
  have "length (foldl (\<lambda>b (q, e). b[e := 0]) buf argv) = length buf" for argv :: "(nat \<times> nat) list" and buf :: "byte list"
    by (induction argv arbitrary: buf) auto
  then show ?thesis by (induction c arbitrary: buf) auto
qed

lemma foldl_nul_nth:
  "i < length buf \<Longrightarrow> foldl (\<lambda>b (q, e). b[e := 0]) buf argv ! i = (if i \<in> snd ` set argv then 0 else buf ! i)"
  for argv :: "(nat \<times> nat) list" and buf :: "byte list"
  by (induction argv arbitrary: buf) (simp_all add: nth_list_update split_beta)

lemma nulterminate_nth:
  "i < length buf \<Longrightarrow> nulterminate c buf ! i = (if i \<in> snd ` set (tokens c) then 0 else buf ! i)"
proof (induction c arbitrary: buf)
  case (REDIR c f mode fd)
  then show ?case by (cases "i = snd f") (simp_all add: nth_list_update)
qed (simp_all add: foldl_nul_nth image_Un)

lemma cstr_eq_take:
  assumes "n < length xs" "xs ! n = 0" "\<forall>i<n. xs ! i \<noteq> 0"
  shows "cstr xs = take n xs"
  unfolding cstr_def using assms by (intro takeWhile_eq_take_P_nth) auto

text \<open>
  C34. After \<^verbatim>\<open>nulterminate\<close> every argument and file name of a parsed command is exactly the word
  of the command line it was parsed from: storing the NULs for one string never cuts into
  another.
\<close>

theorem parsecmd_strings:
  assumes "parsecmd s = Inr (c, buf)" "0 \<notin> set s"
  shows "list_all (\<lambda>(q, e). cstr (drop q buf) = take (e - q) (drop q s)) (tokens c)"
proof -
  have c: "parsed s = Inr c" and buf: "buf = nulterminate c (s @ [0])"
    using assms(1) by (auto simp: parsecmd_def sbind_eq split: sum.splits)
  have w: "list_all (word_at s) (tokens c)" using parsed_words [OF c] by (simp add: words_def)
  have len: "length buf = length s + 1" by (simp add: buf)
  have nth: "i \<le> length s \<Longrightarrow> buf ! i = (if i \<in> snd ` set (tokens c) then 0 else (s @ [0]) ! i)" for i
    by (simp add: buf nulterminate_nth)
  have "cstr (drop q buf) = take (e - q) (drop q s)" if t: "(q, e) \<in> set (tokens c)" for q e
  proof -
    have qe: "q < e" "e \<le> length s" and wc: "\<And>i. q \<le> i \<Longrightarrow> i < e \<Longrightarrow> word_char (s ! i)"
      using w t by (auto simp: list_all_iff word_at_def)
    have keep: "buf ! i = s ! i" if i: "q \<le> i" "i < e" for i
    proof -
      have "i \<noteq> snd t'" if "t' \<in> set (tokens c)" for t'
        using w that wc [OF i] i qe by (auto simp: list_all_iff word_at_def)
      then have "i \<notin> snd ` set (tokens c)" by blast
      with nth [of i] i qe show ?thesis by (simp add: nth_append)
    qed
    have "buf ! e = 0" using nth [of e] qe t by force
    moreover have "\<forall>i<e - q. drop q buf ! i \<noteq> 0"
      using keep qe len assms(2) by (auto simp: in_set_conv_nth)
    ultimately have "cstr (drop q buf) = take (e - q) (drop q buf)"
      using qe len by (intro cstr_eq_take) auto
    also have "\<dots> = take (e - q) (drop q s)" using keep qe len by (intro nth_equalityI) auto
    finally show ?thesis .
  qed
  then show ?thesis by (auto simp: list_all_iff)
qed

text \<open>\<open>demo_line\<close> is \<^verbatim>\<open>ls >a| wc\<close>.\<close>

definition demo_line :: "byte list" where
  "demo_line = [108, 115, 32, 62, 97, 124, 32, 119, 99]"

lemma demo_line_parsed:
  "parsecmd demo_line = Inr (PIPE (REDIR (EXEC [(0, 2)]) (4, 5) 0x601 1) (EXEC [(7, 9)]),
     [108, 115, 0, 62, 97, 0, 32, 119, 99, 0])"
  by code_simp

theorem parsecmd_strings_witness:
  "list_all (\<lambda>(q, e). cstr (drop q [108, 115, 0, 62, 97, 0, 32, 119, 99, 0]) = take (e - q) (drop q demo_line))
     (tokens (PIPE (REDIR (EXEC [(0, 2)]) (4, 5) 0x601 1) (EXEC [(7, 9)])))"
  by (rule parsecmd_strings [OF demo_line_parsed]) (simp add: demo_line_def)

section \<open>Running a command\<close>

text \<open>
  What a process of the shell does, as the tree of its system calls with a branch for each
  outcome the code tells apart. A descriptor is a number or an end of the pipe created last.
\<close>

datatype fdesc = Fd nat | ReadEnd | WriteEnd

datatype beh =
  Exit int
| Exec "byte list list" beh
| Close fdesc beh
| Dup fdesc beh
| Open "byte list" uint32 beh beh
| Pipe beh beh
| Fork beh beh beh
| Wait beh
| Print nat "byte list" beh

text \<open>The string a position refers to, in the line after \<^verbatim>\<open>nulterminate\<close>.\<close>

definition str_at :: "byte list \<Rightarrow> nat \<times> nat \<Rightarrow> byte list" where
  "str_at buf t = cstr (drop (fst t) buf)"

definition asc :: "string \<Rightarrow> byte list" where
  "asc cs = map (\<lambda>c. of_nat (of_char c)) cs"

definition panic_beh :: "string \<Rightarrow> beh" where
  "panic_beh msg = Print 2 (asc msg @ [10]) (Exit 1)"

text \<open>\<open>fork1 child parent\<close> is \<^verbatim>\<open>if(fork1() == 0) child; parent\<close>.\<close>

definition fork1 :: "beh \<Rightarrow> beh \<Rightarrow> beh" where
  "fork1 child parent = Fork (panic_beh ''fork'') child parent"

primrec runcmd :: "byte list \<Rightarrow> cmd \<Rightarrow> beh" where
  "runcmd buf (EXEC argv) =
     (if argv = [] then Exit 1
      else Exec (map (str_at buf) argv)
             (Print 2 (asc ''exec '' @ str_at buf (hd argv) @ asc '' failed'' @ [10]) (Exit 0)))"
| "runcmd buf (REDIR c f mode fd) =
     Close (Fd fd)
       (Open (str_at buf f) mode
         (Print 2 (asc ''open '' @ str_at buf f @ asc '' failed'' @ [10]) (Exit 1))
         (runcmd buf c))"
| "runcmd buf (LIST l r) = fork1 (runcmd buf l) (Wait (runcmd buf r))"
| "runcmd buf (PIPE l r) =
     Pipe (panic_beh ''pipe'')
       (fork1 (Close (Fd 1) (Dup WriteEnd (Close ReadEnd (Close WriteEnd (runcmd buf l)))))
         (fork1 (Close (Fd 0) (Dup ReadEnd (Close ReadEnd (Close WriteEnd (runcmd buf r)))))
           (Close ReadEnd (Close WriteEnd (Wait (Wait (Exit 0)))))))"
| "runcmd buf (BACK c) = fork1 (runcmd buf c) (Exit 0)"

text \<open>
  \<^verbatim>\<open>getcmd\<close> returns the line with its NUL, or \<open>None\<close> at the end of the input. \<open>sh_step\<close> is one
  round of the loop in \<^verbatim>\<open>main\<close>; the result is what the shell itself does. A line without a
  newline loses its last character after \<^verbatim>\<open>cd\<close>.
\<close>

definition getcmd :: "byte list list \<Rightarrow> byte list option \<times> byte list list" where
  "getcmd inp =
     (let (buf, inp1) = gets 100 inp in (if hd buf = 0 then None else Some buf, inp1))"

datatype shact = Chdir "byte list" | Run "sherr + beh"

definition sh_step :: "byte list \<Rightarrow> shact" where
  "sh_step buf =
     (if take 3 buf = [99, 100, 32] then Chdir (drop 3 (butlast (cstr buf)))
      else Run (sbind (parsecmd (cstr buf)) (\<lambda>(c, b). Inr (runcmd b c))))"

text \<open>
  \<open>tidy r w b\<close>: on every path of \<open>b\<close>, with the read end (\<open>r\<close>) and the write end (\<open>w\<close>) of the
  last pipe open or not, both ends are closed when a program is executed, when the process waits
  for another, and when the next pipe is created.
\<close>

primrec tidy :: "beh \<Rightarrow> bool \<Rightarrow> bool \<Rightarrow> bool" where
  "tidy (Exit n) r w = True"
| "tidy (Exec argv k) r w = (\<not> r \<and> \<not> w \<and> tidy k r w)"
| "tidy (Close fd k) r w = (case fd of Fd _ \<Rightarrow> tidy k r w | ReadEnd \<Rightarrow> tidy k False w | WriteEnd \<Rightarrow> tidy k r False)"
| "tidy (Dup fd k) r w = ((fd = ReadEnd \<longrightarrow> r) \<and> (fd = WriteEnd \<longrightarrow> w) \<and> tidy k r w)"
| "tidy (Open f mode bad ok) r w = (tidy bad r w \<and> tidy ok r w)"
| "tidy (Pipe bad ok) r w = (\<not> r \<and> \<not> w \<and> tidy bad r w \<and> tidy ok True True)"
| "tidy (Fork bad child parent) r w = (tidy bad r w \<and> tidy child r w \<and> tidy parent r w)"
| "tidy (Wait k) r w = (\<not> r \<and> \<not> w \<and> tidy k r w)"
| "tidy (Print fd str k) r w = tidy k r w"

text \<open>
  C35. Every process that \<^verbatim>\<open>runcmd\<close> creates has closed its descriptors of a pipe before it executes
  a program or waits, so the reader of a pipe sees its end once the writers have exited; no
  pipe descriptor is duplicated after it was closed.
\<close>

theorem runcmd_tidy: "tidy (runcmd buf c) False False"
  by (induction c) (simp_all add: fork1_def panic_beh_def)

end
