(* ===== verification/Uprintf.thy ===== *)
theory Uprintf
  imports Ulib Digits
begin

text \<open>
  \<^verbatim>\<open>user/printf.c\<close>: formatted output of user programs. The functions return the bytes they write
  to the descriptor, one \<^verbatim>\<open>write\<close> per byte.
\<close>

definition udigit :: "nat \<Rightarrow> byte" where
  "udigit d = (if d < 10 then of_nat (48 + d) else of_nat (55 + d))"

definition uprintint_buf :: "int \<Rightarrow> nat \<Rightarrow> bool \<Rightarrow> byte list" where
  "uprintint_buf xx base sgnd =
     (let neg = (sgnd \<and> xx < 0); x = nat ((if neg then - xx else xx) mod 2 ^ 32)
      in digits_in udigit base x @ (if neg then [45] else []))"

definition uprintint :: "int \<Rightarrow> nat \<Rightarrow> bool \<Rightarrow> byte list" where
  "uprintint xx base sgnd = rev (uprintint_buf xx base sgnd)"

definition uprintptr :: "uint64 \<Rightarrow> byte list" where
  "uprintptr x = [48, 120] @ map (\<lambda>i. udigit (unat (drop_bit 60 (push_bit (4 * i) x)))) [0..<16]"

text \<open>
  The arguments of \<^verbatim>\<open>vprintf\<close>; one that is missing or of another kind than its conversion is
  undefined behaviour (\<open>None\<close>). \<open>UStr None\<close> is a null pointer.
\<close>

datatype uarg = UInt int | ULong uint64 | UStr "byte list option"

text \<open>
  The loop of \<^verbatim>\<open>vprintf\<close>: the flag is \<^verbatim>\<open>state == '%'\<close>. \<^verbatim>\<open>%l\<close> passes a
  \<^verbatim>\<open>uint64\<close> to a parameter of type \<^verbatim>\<open>int\<close>.
\<close>

fun vprintf :: "bool \<Rightarrow> byte list \<Rightarrow> uarg list \<Rightarrow> byte list option" where
  "vprintf pct [] ap = Some []"
| "vprintf False (c # fmt) ap =
     (if c = 37 then vprintf True fmt ap else map_option ((#) c) (vprintf False fmt ap))"
| "vprintf True (c # fmt) ap =
     (if c = 100 then
        (case ap of UInt n # ap' \<Rightarrow> map_option ((@) (uprintint n 10 True)) (vprintf False fmt ap') | _ \<Rightarrow> None)
      else if c = 108 then
        (case ap of ULong w # ap' \<Rightarrow> map_option ((@) (uprintint (sint (ucast w :: uint32)) 10 False)) (vprintf False fmt ap') | _ \<Rightarrow> None)
      else if c = 120 then
        (case ap of UInt n # ap' \<Rightarrow> map_option ((@) (uprintint n 16 False)) (vprintf False fmt ap') | _ \<Rightarrow> None)
      else if c = 112 then
        (case ap of ULong w # ap' \<Rightarrow> map_option ((@) (uprintptr w)) (vprintf False fmt ap') | _ \<Rightarrow> None)
      else if c = 115 then
        (case ap of
           UStr None # ap' \<Rightarrow> map_option ((@) [40, 110, 117, 108, 108, 41]) (vprintf False fmt ap')
         | UStr (Some str) # ap' \<Rightarrow> map_option ((@) str) (vprintf False fmt ap')
         | _ \<Rightarrow> None)
      else if c = 99 then
        (case ap of UInt n # ap' \<Rightarrow> map_option ((#) (of_int n)) (vprintf False fmt ap') | _ \<Rightarrow> None)
      else if c = 37 then map_option ((#) 37) (vprintf False fmt ap)
      else map_option ((@) [37, c]) (vprintf False fmt ap))"

section \<open>Bounds and round trip\<close>

lemma digits_fit: "10 \<le> base \<Longrightarrow> length (digits_in dig base (nat (n mod 2 ^ 32))) \<le> 10"
proof (rule length_digits_in)
  assume b: "10 \<le> base"
  have "nat (n mod 2 ^ 32) < 10 ^ 10" by (simp add: nat_less_iff)
  also have "10 ^ 10 \<le> base ^ 10" using b by (rule power_mono) simp
  finally show "nat (n mod 2 ^ 32) < base ^ 10" .
qed simp_all

text \<open>
  In every base from 10 on, the digits and the sign that the user library's \<^verbatim>\<open>printint\<close>
  stores into \<^verbatim>\<open>char buf[16]\<close> are at most 11 bytes, whatever the \<^verbatim>\<open>int\<close>: the buffer does not
  overflow. (The callers use 10 and 16.)
\<close>

lemma uprintint_fits:
  assumes "10 \<le> base"
  shows "length (uprintint_buf xx base sgnd) \<le> 11"
  using digits_fit [OF assms, of udigit xx] digits_fit [OF assms, of udigit "- xx"]
  by (simp add: uprintint_buf_def Let_def)

lemma atoi_loop_digit:
  assumes "d < 10" "10 * n + d < 2 ^ 31"
  shows "atoi_loop (int n) (udigit d # s) = atoi_loop (int (10 * n + d)) s"
proof -
  have u: "unat (udigit d) = 48 + d"
    using assms(1) unfolding udigit_def by (simp add: unat_of_nat del: of_nat_add)
  have range: "48 \<le> udigit d" "udigit d \<le> 57" using u assms(1) by (simp_all add: word_le_nat_alt)
  have "sint (of_int (int (10 * n + d)) :: uint32) = int (10 * n + d)"
    using assms(2) unfolding signed_of_int by (simp add: signed_take_bit_int_eq_self del: of_nat_add of_nat_mult)
  moreover have "int n * 10 + int (unat (udigit d)) - 48 = int (10 * n + d)" using u by simp
  ultimately have "sint (of_int (int n * 10 + int (unat (udigit d)) - 48) :: uint32) = int (10 * n + d)"
    by (simp only:)
  with range show ?thesis by (simp only: atoi_loop.simps simp_thms if_True)
qed

lemma atoi_loop_digits:
  "x < 2 ^ 31 \<Longrightarrow> atoi_loop 0 (rev (digits_in udigit 10 x) @ s) = atoi_loop (int x) s"
proof (induction "udigit" "10 :: nat" x arbitrary: s rule: digits_in.induct)
  case (1 x)
  show ?case
  proof (cases "x div 10 = 0")
    case True
    then have "digits_in udigit 10 x = [udigit x]" by (simp add: digits_in.simps [of _ 10 x])
    with True 1(2) show ?thesis using atoi_loop_digit [of x 0 s] by simp
  next
    case False
    have "digits_in udigit 10 x = udigit (x mod 10) # digits_in udigit 10 (x div 10)"
      using False by (subst digits_in.simps) simp
    then have "atoi_loop 0 (rev (digits_in udigit 10 x) @ s) = atoi_loop (int (x div 10)) (udigit (x mod 10) # s)"
      using 1 False by simp
    also have "\<dots> = atoi_loop (int (10 * (x div 10) + x mod 10)) s"
      using 1(2) by (intro atoi_loop_digit) simp_all
    finally show ?thesis by simp
  qed
qed



end
