(* ===== verification/Demo.thy ===== *)
theory Demo
  imports Trap
begin

text \<open>
  A concrete kernel state for the instances of the theorems: one running process whose address
  space is that of \<open>demo_as\<close> (one user page at address 0), and empty tables.
\<close>

definition demo_proc :: proc where
  "demo_proc = proc0\<lparr>p_state := RUNNING, p_pid := 1, p_sz := 4096, p_pagetable := 0x87FFC000, p_trapframe := 0x87FFA000\<rparr>"

definition inode0 :: inode where
  "inode0 = \<lparr>i_dev = 0, i_inum = 0, i_ref = 0, i_locked = False, i_pid = 0, i_valid = False, i_type = 0,
     i_major = 0, i_minor = 0, i_nlink = 0, i_size = 0, i_addrs = replicate 13 0\<rparr>"

definition openfile0 :: openfile where
  "openfile0 = \<lparr>f_type = FD_NONE, f_ref = 0, f_readable = False, f_writable = False, f_pipe = 0, f_ip = 0, f_off = 0, f_major = 0\<rparr>"

definition demo_sb :: superblock where
  "demo_sb = \<lparr>sb_magic = FSMAGIC, sb_size = 1000, sb_nblocks = 954, sb_ninodes = 200, sb_nlog = 30,
     sb_logstart = 2, sb_inodestart = 32, sb_bmapstart = 45\<rparr>"

definition vdisk0 :: vdisk where
  "vdisk0 = \<lparr>vd_desc = replicate NUM desc0, vd_avail = replicate NUM 0, vd_avail_idx = 0, vd_used = replicate NUM 0,
     vd_used_dev_idx = 0, vd_free = replicate NUM True, vd_used_idx = 0, vd_info_b = replicate NUM None,
     vd_info_status = replicate NUM 0, vd_ops = replicate NUM \<lparr>r_type = 0, r_reserved = 0, r_sector = 0\<rparr>,
     vd_bdisk = replicate 30 False, vd_regs = (\<lambda>_. 0), vd_out = []\<rparr>"

definition demo_k :: kst where
  "demo_k = \<lparr>mem = mem demo_as, freelist = freelist demo_as, kend = kend demo_as,
     procs = demo_proc # replicate 63 proc0, cpus = Some 0 # replicate 7 None, hart = 0, initproc = Some 1, nextpid = 2,
     trampoline = 0x80007000, forkret = 0x80001000,
     disk = (\<lambda>_. replicate 1024 0), dtrace = [], bufs = replicate 30 buf0, lru = [0..<30],
     log_start = 2, log_size = 30, log_outstanding = 0, log_committing = False, log_dev = 1, log_lh = [],
     sb = demo_sb, itable = replicate 50 inode0,
     uart_tx = \<lparr>tx_buf = replicate 32 0, tx_w = 0, tx_r = 0\<rparr>, uart_out = [], uart_room = 0, uart_in = [], uart_cfg = [],
     panicked = False, pr_locking = True, cons = \<lparr>c_buf = replicate 128 0, c_r = 0, c_w = 0, c_e = 0\<rparr>,
     pipes = (\<lambda>_. None), ftable = replicate 100 openfile0, devsw = replicate 10 None, vd = vdisk0,
     ticks = 0, first = False, sstatus = 0, sepc = 0, scause = 0, stval = 0, stvec = 0, satp = 0, sip = 0,
     plic_pending = [], plic_regs = [], kernel_pagetable = 0, kernelvec = 0x80005000, usertrap_addr = 0x80002000,
     uservec = 0x80007000, userret = 0x80007090, etext = 0x80008000, started = True\<rparr>"

lemma demo_k_kmem [simp]: "mem demo_k = mem demo_as" "freelist demo_k = freelist demo_as" "kend demo_k = kend demo_as"
  by (simp_all add: demo_k_def)

lemma demo_k_proc [simp]:
  "myproc demo_k = Some 0" "procs demo_k ! 0 = demo_proc" "length (procs demo_k) = 64" "hart demo_k = 0"
  by (simp_all add: demo_k_def myproc_def)

lemma demo_proc_simps [simp]:
  "p_pagetable demo_proc = 0x87FFC000" "p_killed demo_proc = False" "p_state demo_proc = RUNNING"
  "p_vmas demo_proc = replicate 16 vma0" "p_sz demo_proc = 4096"
  by (simp_all add: demo_proc_def proc0_def)

lemma demo_k_umapped: "umapped 0x87FFC000 demo_k 5 2"
proof -
  have "umapped 0x87FFC000 demo_as 5 (Suc (Suc 0))"
    using demo_pte(1,2) by (auto simp: umapped_def vread_def walkaddr_eq demo_lookup PGROUNDDOWN_eq less_Suc_eq)
  then show ?thesis by (simp add: umapped_def walkaddr_eq numeral_2_eq_2 cong: if_cong)
qed

lemma demo_k_user_wf: "user_wf demo_k [0x87FFB000] 0x87FFC000"
  using demo_user_wf by (simp add: user_wf_def kmem_inv_def pt_wf_def valid_page_def)

end
