(* ===== verification/Pipe_Correct.thy ===== *)
theory Pipe_Correct
  imports Demo
begin

text \<open>
  \<^verbatim>\<open>pipewrite\<close> and \<^verbatim>\<open>piperead\<close> refine a queue: what a writer's address space holds is
  appended to the queue of the pipe, and what the queue holds first appears in the reader's
  address space. The ring underneath is the interpretation \<open>pq\<close>.
\<close>

lemma upd_pipe_simps [simp]:
  "mem (upd_pipe pi f s) = mem s" "freelist (upd_pipe pi f s) = freelist s" "kend (upd_pipe pi f s) = kend s"
  "procs (upd_pipe pi f s) = procs s" "cpus (upd_pipe pi f s) = cpus s" "hart (upd_pipe pi f s) = hart s"
  "pipes (upd_pipe pi f s) pi = map_option f (pipes s pi)" "myproc (upd_pipe pi f s) = myproc s"
  by (simp_all add: upd_pipe_def myproc_def)

lemma wakeup_pipes [simp]: "pipes (wakeup ch s) = pipes s"
  by (simp add: wakeup_def)

section \<open>Writing\<close>

lemma copyin_byte:
  assumes "uview pt s va \<noteq> None"
  shows "\<exists>b. copyin pt va 1 s = (0, [b]) \<and> uview pt s va = Some b"
proof -
  obtain r bs where c: "copyin pt va 1 s = (r, bs)" by (cases "copyin pt va 1 s")
  have m: "umapped pt s va 1" using assms by (simp add: umapped_def)
  have "r = 0" "map Some bs = [uview pt s va]" using copyin_ok [where pt = pt and va = va and len = 1 and s = s] c m by auto
  then show ?thesis using c by (cases bs) auto
qed

lemma user_bytes_Suc:
  "user_bytes pt s va (Suc n) = the (uview pt s va) # user_bytes pt s (va + 1) n"
  by (simp add: user_bytes_def upt_conv_Cons map_Suc_upt [symmetric] comp_def add.assoc del: upt_Suc)

lemma umapped_Suc: "umapped pt s va (Suc n) \<longleftrightarrow> uview pt s va \<noteq> None \<and> umapped pt s (va + 1) n"
  unfolding umapped_def All_less_Suc2 by (simp add: ac_simps)

lemma pipewrite_loop_appends:
  assumes "pipes s pi = Some p" "pipe_inv p" "pi_readopen p" "myproc s = Some pr \<and> pr < length (procs s)" "\<not> p_killed (procs s ! pr)"
    and "pt = p_pagetable (procs s ! pr)" "umapped pt s (addr + of_int i) (nat (n - i))" "i \<le> n"
    and "k = min (nat (n - i)) (PIPESIZE - length (pipe_list p))"
  shows "\<exists>s' p'. pipewrite_loop pi addr n i s = Ok (if i + int k = n then Ret n else Block (i + int k), s') \<and>
    pipes s' pi = Some p' \<and> pipe_inv p' \<and> pi_readopen p' \<and> pi_writeopen p' = pi_writeopen p \<and>
    pipe_list p' = pipe_list p @ user_bytes pt s (addr + of_int i) k"
  using assms
proof (induction k arbitrary: i s p)
  case 0
  show ?case
  proof (cases "i = n")
    case True
    then have "pipewrite_loop pi addr n i s = Ok (Ret n, wakeup (ChPipeRead pi) s)"
      by (subst pipewrite_loop.simps) simp
    with 0 True show ?thesis by (simp add: user_bytes_def)
  next
    case False
    then have "PIPESIZE - length (pipe_list p) = 0" using 0 by (simp add: min_def split: if_splits)
    then have full: "pipe_full p" using pq.full_iff [OF 0(2)] pq.bounded [OF 0(2)] by simp
    let ?s = "wakeup (ChPipeRead pi) s"
    have "\<exists>s1. sleep pr (ChPipeWrite pi) ?s = Ok s1 \<and> pipes s1 = pipes s"
      using 0(4) by (simp add: sleep_def sched_def upd_proc_def myproc_def wakeup_def)
    then obtain s1 where "sleep pr (ChPipeWrite pi) ?s = Ok s1" "pipes s1 = pipes s" by blast
    moreover from this have "pipewrite_loop pi addr n i s = Ok (Block i, s1)"
      using 0 False full by (subst pipewrite_loop.simps) simp
    ultimately show ?thesis using 0 False by (simp add: user_bytes_def)
  qed
next
  case (Suc k)
  have n: "i < n" "length (pipe_list p) < PIPESIZE" using Suc(10) by (auto simp: min_def split: if_splits)
  then have room: "\<not> pipe_full p" using pq.full_iff [OF Suc(3)] by simp
  have m: "nat (n - i) = Suc (nat (n - (i + 1)))" using n(1) by simp
  have um: "uview pt s (addr + of_int i) \<noteq> None" "umapped pt s (addr + of_int (i + 1)) (nat (n - (i + 1)))"
    using Suc(8) unfolding m umapped_Suc by (simp_all add: ac_simps)
  from um(1) obtain b where b: "copyin pt (addr + of_int i) 1 s = (0, [b])" "uview pt s (addr + of_int i) = Some b"
    using copyin_byte [of pt s "addr + of_int i"] by blast
  let ?s = "upd_pipe pi (pipe_put b) s" and ?p = "pipe_put b p"
  have p: "pipe_inv ?p" "pipe_list ?p = pipe_list p @ [b]" using pq.put_ok [OF Suc(3) room] by auto
  have step: "pipewrite_loop pi addr n i s = pipewrite_loop pi addr n (i + 1) ?s"
    using Suc n(1) room b(1) by (simp add: pipewrite_loop.simps [of pi addr n i])
  have "umapped pt ?s (addr + of_int (i + 1)) (nat (n - (i + 1)))" using um(2) umapped_cong [of ?s s] by simp
  moreover have "k = min (nat (n - (i + 1))) (PIPESIZE - length (pipe_list ?p))"
    using Suc(10) n p(2) by (auto simp: min_def split: if_splits)
  moreover have "pipes ?s pi = Some ?p" "pi_readopen ?p" "pi_writeopen ?p = pi_writeopen p"
    using Suc(2,4) by (simp_all add: pipe_put_def)
  ultimately obtain s' p' where r: "pipewrite_loop pi addr n (i + 1) ?s =
      Ok (if i + 1 + int k = n then Ret n else Block (i + 1 + int k), s')" "pipes s' pi = Some p'" "pipe_inv p'"
      "pi_readopen p'" "pi_writeopen p' = pi_writeopen p"
      "pipe_list p' = pipe_list ?p @ user_bytes pt ?s (addr + of_int (i + 1)) k"
    using Suc.IH [of ?s ?p "i + 1"] Suc(5,6,7) n(1) p(1) by auto
  have "user_bytes pt s (addr + of_int i) (Suc k) = b # user_bytes pt ?s (addr + of_int (i + 1)) k"
    using b(2) uview_cong [of ?s s pt] by (simp add: user_bytes_Suc) (simp add: user_bytes_def ac_simps)
  with r p(2) show ?case unfolding step by (intro exI [of _ s'] exI [of _ p']) (simp add: ac_simps)
qed

text \<open>
  C13. \<^verbatim>\<open>pipewrite\<close> appends the caller's bytes to the queue of the pipe, in order: with a reader
  and the caller's buffer mapped, it writes as many bytes as there is room for; it returns \<open>n\<close>
  when they all fit and otherwise sleeps with the pipe full, having written the first ones.
\<close>

theorem pipewrite_correct:
  assumes "pipes s pi = Some p" "pipe_inv p" "pi_readopen p" "myproc s = Some pr" "pr < length (procs s)"
    and "\<not> p_killed (procs s ! pr)" "pt = p_pagetable (procs s ! pr)" "umapped pt s addr n"
    and "k = min n (PIPESIZE - length (pipe_list p))"
  shows "\<exists>s' p'. pipewrite pi addr (int n) s = Ok (if k = n then Ret (int n) else Block (int k), s') \<and>
    pipes s' pi = Some p' \<and> pipe_inv p' \<and> pi_readopen p' \<and> pi_writeopen p' = pi_writeopen p \<and>
    pipe_list p' = pipe_list p @ user_bytes pt s addr k"
proof -
  have "umapped pt s (addr + of_int 0) (nat (int n - 0))" "k = min (nat (int n - 0)) (PIPESIZE - length (pipe_list p))"
    "myproc s = Some pr \<and> pr < length (procs s)"
    using assms by simp_all
  from pipewrite_loop_appends [OF assms(1,2,3) this(3) assms(6,7) this(1) _ this(2)]
  show ?thesis by (cases "k = n") (simp_all add: pipewrite_def)
qed

section \<open>Reading\<close>

lemma kframe_pipes: "kframe s s' \<Longrightarrow> pipes s' = pipes s" for s :: "'a filest_scheme"
  by (cases s; cases s') (simp add: kframe_def)

lemma copyout_byte:
  fixes s :: "'a filest_scheme"
  assumes "user_wf s ps pt" "uview pt s va \<noteq> None"
  shows "\<exists>s'. copyout pt va [b] s = (0, s') \<and> user_wf s' ps pt \<and> uview pt s' = vwrite va [b] (uview pt s) \<and>
    pipes s' = pipes s \<and> procs s' = procs s \<and> myproc s' = myproc s"
proof -
  have "umapped pt s va (length [b])" using assms(2) by (simp add: umapped_def)
  with copyout_ok [OF assms(1), of "[b]" va] obtain s' where
    s': "copyout pt va [b] s = (0, s')" "user_wf s' ps pt" "uview pt s' = vwrite va [b] (uview pt s)" by auto
  have "kframe s s'" using kframe_copyout [of pt va "[b]" s] s'(1) by simp
  then show ?thesis using s' kframe_pipes [of s s'] kframe_pstate [of s s'] by (auto simp: myproc_def)
qed

lemma piperead_loop_removes:
  assumes "pipes s pi = Some p" "pipe_inv p" "myproc s = Some pr" "pt = p_pagetable (procs s ! pr)"
    and "user_wf s ps pt" "umapped pt s (addr + of_int i) k" "i \<le> n" "k < 2 ^ 63"
    and "k = min (nat (n - i)) (length (pipe_list p))"
  shows "\<exists>s' p'. piperead_loop pi addr n i s = (i + int k, s') \<and> pipes s' pi = Some p' \<and> pipe_inv p' \<and>
    pipe_list p' = drop k (pipe_list p) \<and> pi_readopen p' = pi_readopen p \<and> pi_writeopen p' = pi_writeopen p \<and>
    user_wf s' ps pt \<and> uview pt s' = vwrite (addr + of_int i) (take k (pipe_list p)) (uview pt s)"
  using assms
proof (induction k arbitrary: i s p)
  case 0
  have "piperead_loop pi addr n i s = (i, s)"
  proof (cases "i < n")
    case True
    then have "pipe_list p = []" using 0(9) by (simp add: min_def split: if_splits)
    then have "pipe_empty p" using pq.empty_iff [OF 0(2)] by simp
    with 0(1) show ?thesis by (subst piperead_loop.simps) simp
  qed (subst piperead_loop.simps, simp)
  with 0 show ?case by simp
next
  case (Suc k)
  have n: "i < n" "pipe_list p \<noteq> []" using Suc(10) by (auto simp: min_def split: if_splits)
  then have ne: "\<not> pipe_empty p" using pq.empty_iff [OF Suc(3)] by simp
  obtain b p1 where g: "pipe_get p = (b, p1)" by (cases "pipe_get p")
  have p1: "pipe_inv p1" "pipe_list p = b # pipe_list p1" using pq.get_ok [OF Suc(3) ne] g by auto
  let ?s = "upd_pipe pi (\<lambda>_. p1) s"
  have um: "uview pt s (addr + of_int i) \<noteq> None" "umapped pt s (addr + of_int (i + 1)) k"
    using Suc(7) unfolding umapped_Suc by (simp_all add: ac_simps)
  have v: "uview pt ?s = uview pt s" by (rule uview_cong) simp
  have "user_wf ?s ps pt" using Suc(6) user_wf_cong [of ?s s ps pt] by simp
  then obtain s2 where s2: "copyout pt (addr + of_int i) [b] ?s = (0, s2)" "user_wf s2 ps pt"
      "uview pt s2 = vwrite (addr + of_int i) [b] (uview pt s)" "pipes s2 = pipes ?s" "procs s2 = procs s"
      "myproc s2 = myproc s"
    using copyout_byte [of ?s ps pt "addr + of_int i" b] um(1) v by auto
  have step: "piperead_loop pi addr n i s = piperead_loop pi addr n (i + 1) s2"
    using Suc(2,4,5) n(1) ne g s2(1) by (subst piperead_loop.simps) simp
  have "umapped pt s2 (addr + of_int (i + 1)) k"
    using um(2) unfolding umapped_def s2(3) vwrite_def by simp
  moreover have "k = min (nat (n - (i + 1))) (length (pipe_list p1))"
    using Suc(10) n p1(2) by (auto simp: min_def split: if_splits)
  ultimately obtain s' p' where r: "piperead_loop pi addr n (i + 1) s2 = (i + 1 + int k, s')" "pipes s' pi = Some p'"
      "pipe_inv p'" "pipe_list p' = drop k (pipe_list p1)" "pi_readopen p' = pi_readopen p1"
      "pi_writeopen p' = pi_writeopen p1" "user_wf s' ps pt"
      "uview pt s' = vwrite (addr + of_int (i + 1)) (take k (pipe_list p1)) (uview pt s2)"
    using Suc.IH [of s2 p1 "i + 1"] Suc(2,4,5,9) n(1) p1(1) s2 by auto
  have "pi_readopen p1 = pi_readopen p" "pi_writeopen p1 = pi_writeopen p" using g by (auto simp: pipe_get_def)
  moreover have "uview pt s' = vwrite (addr + of_int i) (b # take k (pipe_list p1)) (uview pt s)"
    using vwrite_append [of "[b]" "take k (pipe_list p1)" "addr + of_int i" "uview pt s"] Suc(9)
    unfolding r(8) s2(3) by (simp add: ac_simps)
  ultimately show ?case unfolding step using r p1(2) by (intro exI [of _ s'] exI [of _ p']) (simp add: ac_simps)
qed

text \<open>
  C14. \<^verbatim>\<open>piperead\<close> delivers the bytes at the front of the queue: when the pipe is not empty, or has
  no writer left, and the caller's buffer is mapped, it returns \<open>k\<close>, the smaller of \<open>n\<close> and the
  number of bytes in the pipe, the caller's view of its memory is overwritten with the first \<open>k\<close>
  bytes of the queue, and these are removed from it. (With no writer and an empty pipe it
  returns 0, the end of the file.)
\<close>

theorem piperead_correct:
  assumes "pipes s pi = Some p" "pipe_inv p" "pipe_list p \<noteq> [] \<or> \<not> pi_writeopen p" "myproc s = Some pr"
    and "pt = p_pagetable (procs s ! pr)" "user_wf s ps pt" "umapped pt s addr k"
    and "k = min n (length (pipe_list p))"
  shows "\<exists>s' p'. piperead pi addr (int n) s = Ok (Ret (int k), s') \<and> pipes s' pi = Some p' \<and> pipe_inv p' \<and>
    pipe_list p' = drop k (pipe_list p) \<and> user_wf s' ps pt \<and>
    uview pt s' = vwrite addr (take k (pipe_list p)) (uview pt s)"
proof -
  have "length (pipe_list p) \<le> 512" using pq.bounded [OF assms(2)] by simp
  then have k: "k < 2 ^ 63" using assms(8) by (simp add: min_def)
  have "umapped pt s (addr + of_int 0) k" "k = min (nat (int n - 0)) (length (pipe_list p))" using assms(7,8) by simp_all
  from piperead_loop_removes [OF assms(1,2,4,5,6) this(1) _ k this(2)]
  obtain s' p' where r: "piperead_loop pi addr (int n) 0 s = (int k, s')" "pipes s' pi = Some p'" "pipe_inv p'"
      "pipe_list p' = drop k (pipe_list p)" "user_wf s' ps pt"
      "uview pt s' = vwrite addr (take k (pipe_list p)) (uview pt s)" by auto
  have "\<not> (pipe_empty p \<and> pi_writeopen p)" using assms(3) pq.empty_iff [OF assms(2)] by simp
  then have "piperead pi addr (int n) s = Ok (Ret (int k), wakeup (ChPipeWrite pi) s')"
    using assms(1,4) r(1) by (auto simp: piperead_def)
  moreover have "user_wf (wakeup (ChPipeWrite pi) s') ps pt"
    using r(5) user_wf_cong [of "wakeup (ChPipeWrite pi) s'" s'] by (simp add: wakeup_def)
  moreover have "uview pt (wakeup (ChPipeWrite pi) s') = uview pt s'" by (rule uview_cong) (simp add: wakeup_def)
  ultimately show ?thesis using r by simp
qed

section \<open>Instances\<close>

definition demo_pipe :: pipe where
  "demo_pipe = \<lparr>pi_data = replicate 512 7, pi_nread = 3, pi_nwrite = 5, pi_readopen = True, pi_writeopen = True\<rparr>"

definition demo_ks :: kst where
  "demo_ks = demo_k\<lparr>pipes := [0x87FF9000 \<mapsto> demo_pipe]\<rparr>"

lemma demo_ks_simps:
  "pipes demo_ks 0x87FF9000 = Some demo_pipe" "pipe_inv demo_pipe" "pi_readopen demo_pipe" "pipe_list demo_pipe = [7, 7]"
  "myproc demo_ks = Some 0" "0 < length (procs demo_ks)" "\<not> p_killed (procs demo_ks ! 0)"
  "0x87FFC000 = p_pagetable (procs demo_ks ! 0)" "umapped 0x87FFC000 demo_ks 5 2"
  "user_wf demo_ks [0x87FFB000] 0x87FFC000"
proof -
  show "pipes demo_ks 0x87FF9000 = Some demo_pipe" "myproc demo_ks = Some 0" "0 < length (procs demo_ks)"
    "\<not> p_killed (procs demo_ks ! 0)" "0x87FFC000 = p_pagetable (procs demo_ks ! 0)"
    using demo_k_proc by (simp_all add: demo_ks_def myproc_def)
  show "pipe_inv demo_pipe" "pi_readopen demo_pipe" "pipe_list demo_pipe = [7, 7]"
    by (simp_all add: demo_pipe_def pipe_inv_def ring_ok_def pipe_list_def ring_list_def upt_rec)
  show "umapped 0x87FFC000 demo_ks 5 2"
    using demo_k_umapped umapped_cong [of demo_ks demo_k] by (simp add: demo_ks_def)
  show "user_wf demo_ks [0x87FFB000] 0x87FFC000"
    using demo_k_user_wf user_wf_cong [of demo_ks demo_k] by (simp add: demo_ks_def)
qed

theorem pipewrite_correct_witness:
  "\<exists>s' p'. pipewrite 0x87FF9000 5 2 demo_ks = Ok (Ret 2, s') \<and> pipes s' 0x87FF9000 = Some p' \<and>
     pipe_list p' = [7, 7] @ user_bytes 0x87FFC000 demo_ks 5 2"
  using pipewrite_correct [where n = 2 and k = 2, OF demo_ks_simps(1,2,3,5,6,7,8,9)] demo_ks_simps(4) by auto

theorem piperead_correct_witness:
  "\<exists>s' p'. piperead 0x87FF9000 5 2 demo_ks = Ok (Ret 2, s') \<and> pipes s' 0x87FF9000 = Some p' \<and>
     pipe_list p' = [] \<and> uview 0x87FFC000 s' = vwrite 5 [7, 7] (uview 0x87FFC000 demo_ks)"
  using piperead_correct [where n = 2 and k = 2, OF demo_ks_simps(1,2) _ demo_ks_simps(5,8,10,9)] demo_ks_simps(4)
  by auto

end
