(* ===== verification/Virtio_Correct.thy ===== *)
theory Virtio_Correct
  imports Demo
begin

text \<open>
  Correctness of the disk driver. The driver, the device and the rest of the kernel take steps in any
  order (\<open>vstep\<close>); the device is a parameter, and \<open>device_ok\<close> is what the virtio specification
  says it does with a chain of descriptors. In every reachable state the driver does not panic and its
  descriptors are accounted for; the device's transfer is the effect \<open>virtio_disk_rw\<close> that the
  buffer cache relies on; and a request is finished only after that transfer.
\<close>

section \<open>The system\<close>

record dreq =
  rq_buf :: nat
  rq_write :: bool
  rq_i0 :: nat
  rq_i1 :: nat
  rq_i2 :: nat
  rq_done :: bool

record 'a vsys =
  vs :: 'a
  reqs :: "dreq list"
  seen :: uint16
  work :: "nat list"

abbreviation idxs :: "dreq \<Rightarrow> nat list" where
  "idxs r \<equiv> [rq_i0 r, rq_i1 r, rq_i2 r]"

text \<open>The descriptors of a request, as the legacy block protocol wants them.\<close>

definition formatted :: "vdisk \<Rightarrow> nat \<Rightarrow> dreq \<Rightarrow> bool" where
  "formatted d sector r \<longleftrightarrow>
     vd_desc d ! rq_i0 r = \<lparr>d_addr = DOps (rq_i0 r), d_len = 16, d_flags = VRING_DESC_F_NEXT, d_next = rq_i1 r\<rparr> \<and>
     vd_desc d ! rq_i1 r = \<lparr>d_addr = DData (rq_buf r), d_len = BSIZE,
       d_flags = (if rq_write r then 0 else VRING_DESC_F_WRITE) OR VRING_DESC_F_NEXT, d_next = rq_i2 r\<rparr> \<and>
     vd_desc d ! rq_i2 r = \<lparr>d_addr = DStatus (rq_i0 r), d_len = 1, d_flags = VRING_DESC_F_WRITE, d_next = 0\<rparr> \<and>
     vd_ops d ! rq_i0 r = \<lparr>r_type = (if rq_write r then VIRTIO_BLK_T_OUT else VIRTIO_BLK_T_IN), r_reserved = 0,
       r_sector = sector\<rparr>"

text \<open>The transfer of a block and the completion the device reports in the used ring.\<close>

definition transfer :: "nat \<Rightarrow> bool \<Rightarrow> nat \<Rightarrow> 'a vst_scheme \<Rightarrow> 'a vst_scheme" where
  "transfer b w blk s =
     (if w then s\<lparr>disk := (disk s)(blk := b_data (bufs s ! b)), dtrace := dtrace s @ [(blk, b_data (bufs s ! b))]\<rparr>
      else upd_buf b (\<lambda>x. x\<lparr>b_data := disk s blk\<rparr>) s)"

definition report :: "nat \<Rightarrow> vdisk \<Rightarrow> vdisk" where
  "report h d = d\<lparr>vd_info_status := (vd_info_status d)[h := 0],
     vd_used := (vd_used d)[unat (vd_used_dev_idx d) mod NUM := h], vd_used_dev_idx := vd_used_dev_idx d + 1\<rparr>"

definition device_ok :: "(nat \<Rightarrow> 'a vst_scheme \<Rightarrow> 'a vst_scheme) \<Rightarrow> bool" where
  "device_ok dev \<longleftrightarrow> (\<forall>s r sector. formatted (vd s) sector r \<longrightarrow>
     dev (rq_i0 r) s = upd_vd (report (rq_i0 r)) (transfer (rq_buf r) (rq_write r) (sector div 2) s))"

text \<open>
  The kernel starts with cleared book-keeping. A process calls \<^verbatim>\<open>virtio_disk_rw\<close> on a buffer it has
  locked, so there is one request per buffer (\<open>vsubmit\<close>; \<open>vretry\<close> when it has to sleep). The
  rest of the kernel does not touch the driver's state, nor the block number of a buffer in transfer.
\<close>

inductive vinit :: "'a vst_scheme vsys \<Rightarrow> bool" where
  "\<lbrakk>virtio_disk_init pfn s0 = Ok s; vd_used_idx (vd s0) = 0; length (vd_info_b (vd s0)) = NUM;
    length (vd_info_status (vd s0)) = NUM; length (vd_ops (vd s0)) = NUM; length (vd_bdisk (vd s0)) = 30\<rbrakk>
   \<Longrightarrow> vinit \<lparr>vs = s, reqs = [], seen = 0, work = []\<rparr>"

inductive vstep :: "(nat \<Rightarrow> 'a vst_scheme \<Rightarrow> 'a vst_scheme) \<Rightarrow> 'a vst_scheme vsys \<Rightarrow> 'a vst_scheme vsys \<Rightarrow> bool"
  for dev where
  vsubmit: "\<lbrakk>b < 30; b \<notin> rq_buf ` set (reqs S); b_blockno (bufs (vs S) ! b) < 2 ^ 31;
      virtio_disk_submit b w (vs S) = Ok (Some i0, s'); i1 = d_next (vd_desc (vd s') ! i0);
      r = \<lparr>rq_buf = b, rq_write = w, rq_i0 = i0, rq_i1 = i1, rq_i2 = d_next (vd_desc (vd s') ! i1), rq_done = False\<rparr>\<rbrakk>
    \<Longrightarrow> vstep dev S (S\<lparr>vs := s', reqs := reqs S @ [r]\<rparr>)"
| vretry: "virtio_disk_submit b w (vs S) = Ok (None, s') \<Longrightarrow> vstep dev S (S\<lparr>vs := s'\<rparr>)"
| vfetch: "seen S \<noteq> vd_avail_idx (vd (vs S)) \<Longrightarrow>
    vstep dev S (S\<lparr>seen := seen S + 1, work := vd_avail (vd (vs S)) ! (unat (seen S) mod NUM) # work S\<rparr>)"
| vcomplete: "h \<in> set (work S) \<Longrightarrow>
    vstep dev S (S\<lparr>vs := dev h (vs S), work := remove1 h (work S),
      reqs := map (\<lambda>r. if rq_i0 r = h then r\<lparr>rq_done := True\<rparr> else r) (reqs S)\<rparr>)"
| vintr: "virtio_disk_intr (vs S) = Ok s' \<Longrightarrow> vstep dev S (S\<lparr>vs := s'\<rparr>)"
| vfinish: "\<lbrakk>r \<in> set (reqs S); virtio_disk_finish (rq_buf r) (rq_i0 r) (vs S) = Ok (Some s')\<rbrakk>
    \<Longrightarrow> vstep dev S (S\<lparr>vs := s', reqs := remove1 r (reqs S)\<rparr>)"
| vother: "\<lbrakk>vd s' = vd (vs S); \<And>r. r \<in> set (reqs S) \<Longrightarrow> b_blockno (bufs s' ! rq_buf r) = b_blockno (bufs (vs S) ! rq_buf r)\<rbrakk>
    \<Longrightarrow> vstep dev S (S\<lparr>vs := s'\<rparr>)"

inductive vreach :: "(nat \<Rightarrow> 'a vst_scheme \<Rightarrow> 'a vst_scheme) \<Rightarrow> 'a vst_scheme vsys \<Rightarrow> bool" for dev where
  start: "vinit S \<Longrightarrow> vreach dev S"
| step: "\<lbrakk>vreach dev S; vstep dev S S'\<rbrakk> \<Longrightarrow> vreach dev S'"

section \<open>Descriptors\<close>

text \<open>The driver changes, apart from its own state, only what \<^verbatim>\<open>wakeup\<close> changes.\<close>

definition vframe :: "'a vst_scheme \<Rightarrow> 'a vst_scheme \<Rightarrow> bool" where
  "vframe s s' \<longleftrightarrow> (\<exists>d p. s' = s\<lparr>vd := d, procs := p\<rparr>)"

lemma vframe_refl [simp]: "vframe s s"
  unfolding vframe_def by (intro exI [of _ "vd s"] exI [of _ "procs s"]) simp

lemma vframe_trans:
  assumes "vframe s s1" "vframe s1 s2"
  shows "vframe s s2"
proof -
  obtain d p d' p' where "s1 = s\<lparr>vd := d, procs := p\<rparr>" "s2 = s1\<lparr>vd := d', procs := p'\<rparr>"
    using assms unfolding vframe_def by blast
  then have "s2 = s\<lparr>vd := d', procs := p'\<rparr>" by simp
  then show ?thesis unfolding vframe_def by blast
qed

lemma vframe_bufs: "vframe s s' \<Longrightarrow> bufs s' = bufs s"
  by (auto simp: vframe_def)

lemma vframe_upd_vd: "vframe s (upd_vd f s)"
  unfolding vframe_def upd_vd_def by (intro exI [of _ "f (vd s)"] exI [of _ "procs s"]) simp

lemma vframe_wakeup: "vframe s (wakeup ch s)"
  unfolding vframe_def wakeup_def by (intro exI [of _ "vd s"] exI) simp

lemma upd_vd_vd [simp]: "vd (upd_vd f s) = f (vd s)"
  by (simp add: upd_vd_def)

text \<open>The state of the descriptors after freeing or allocating a list of them.\<close>

definition freed :: "nat list \<Rightarrow> vdisk \<Rightarrow> vdisk" where
  "freed is d = d\<lparr>vd_desc := fold (\<lambda>i ds. ds[i := desc0]) is (vd_desc d), vd_free := fold (\<lambda>i f. f[i := True]) is (vd_free d)\<rparr>"

definition taken :: "nat list \<Rightarrow> vdisk \<Rightarrow> vdisk" where
  "taken is d = d\<lparr>vd_free := fold (\<lambda>i f. f[i := False]) is (vd_free d)\<rparr>"

lemma length_fold_upd [simp]: "length (fold (\<lambda>i f. f[i := x]) is f) = length f"
  by (induction "is" arbitrary: f) simp_all

lemma nth_fold_upd: "j < length f \<Longrightarrow> fold (\<lambda>i f. f[i := x]) is f ! j = (if j \<in> set is then x else f ! j)"
  by (induction "is" arbitrary: f) (auto simp: nth_list_update)

lemma nth_freed: "i < length (vd_free d) \<Longrightarrow> vd_free (freed is d) ! i \<longleftrightarrow> i \<in> set is \<or> vd_free d ! i"
  by (simp add: freed_def nth_fold_upd)

lemma nth_taken: "i < length (vd_free d) \<Longrightarrow> vd_free (taken is d) ! i \<longleftrightarrow> vd_free d ! i \<and> i \<notin> set is"
  by (simp add: taken_def nth_fold_upd)

lemma free_desc_ok:
  assumes "i < NUM" "\<not> vd_free (vd s) ! i"
  shows "\<exists>s'. free_desc i s = Ok s' \<and> vframe s s' \<and> vd s' = freed [i] (vd s)"
  using assms vframe_trans [OF vframe_upd_vd vframe_wakeup]
  by (auto simp: free_desc_def freed_def set_desc_def)

lemma rfold_free:
  assumes "distinct is" "\<And>i. i \<in> set is \<Longrightarrow> i < NUM \<and> \<not> vd_free (vd s) ! i" "length (vd_free (vd s)) = NUM"
  shows "\<exists>s'. rfold free_desc is s = Ok s' \<and> vframe s s' \<and> vd s' = freed is (vd s)"
  using assms
proof (induction "is" arbitrary: s)
  case (Cons i "is")
  obtain s1 where s1: "free_desc i s = Ok s1" "vframe s s1" "vd s1 = freed [i] (vd s)"
    using free_desc_ok [of i s] Cons.prems(2) by auto
  have "\<exists>s'. rfold free_desc is s1 = Ok s' \<and> vframe s1 s' \<and> vd s' = freed is (vd s1)"
  proof (rule Cons.IH)
    show "distinct is" "length (vd_free (vd s1)) = NUM" using Cons.prems s1(3) by (simp_all add: freed_def)
    show "j < NUM \<and> \<not> vd_free (vd s1) ! j" if "j \<in> set is" for j
    proof -
      have "j \<noteq> i" "j < NUM" "\<not> vd_free (vd s) ! j" using that Cons.prems(1,2) by auto
      then show ?thesis using s1(3) by (simp add: freed_def)
    qed
  qed
  then show ?case using s1 vframe_trans [OF s1(2)] by (auto simp: freed_def)
qed (simp add: freed_def)

lemma alloc_desc_cases:
  assumes "length (vd_free d) = NUM"
  obtains (none) "alloc_desc d = (None, d)"
  | (some) i where "alloc_desc d = (Some i, taken [i] d)" "i < NUM" "vd_free d ! i"
proof (cases "find_index (\<lambda>f. f) (vd_free d)")
  case None
  then show ?thesis using that(1) by (simp add: alloc_desc_def)
next
  case (Some i)
  then show ?thesis using that(2) [of i] find_index_Some [OF Some] assms by (auto simp: alloc_desc_def taken_def)
qed

lemma alloc_n_ok:
  assumes "length (vd_free (vd s)) = NUM" "distinct got" "\<And>i. i \<in> set got \<Longrightarrow> i < NUM \<and> \<not> vd_free (vd s) ! i"
  shows "\<exists>r s'. alloc_n k got s = Ok (r, s') \<and> vframe s s' \<and>
    (case r of
       Some is \<Rightarrow> \<exists>new. is = got @ new \<and> length new = k \<and> distinct is \<and>
         (\<forall>i\<in>set new. i < NUM \<and> vd_free (vd s) ! i) \<and> vd s' = taken new (vd s)
     | None \<Rightarrow> \<exists>new. distinct (got @ new) \<and> (\<forall>i\<in>set new. i < NUM \<and> vd_free (vd s) ! i) \<and> vd s' = freed (got @ new) (taken new (vd s)))"
  using assms
proof (induction k arbitrary: got s)
  case 0
  then show ?case by (simp add: taken_def)
next
  case (Suc k)
  from Suc.prems(1) show ?case
  proof (cases rule: alloc_desc_cases)
    case none
    from rfold_free [OF Suc.prems(2,3,1)] none Suc.prems(2) show ?thesis
      by (auto simp: taken_def intro!: exI [of _ "[]"])
  next
    case (some i)
    let ?s = "s\<lparr>vd := taken [i] (vd s)\<rparr>"
    have fr: "vframe s ?s" using vframe_upd_vd [of s "taken [i]"] by (simp add: upd_vd_def)
    have ni: "i \<notin> set got" using some(3) Suc.prems(3) by blast
    have f: "vd_free (taken [i] (vd s)) ! j = (j \<noteq> i \<and> vd_free (vd s) ! j)" if "j < NUM" for j
      using that Suc.prems(1) some(2) by (auto simp: taken_def nth_list_update)
    have "\<exists>r s'. alloc_n k (got @ [i]) ?s = Ok (r, s') \<and> vframe ?s s' \<and>
      (case r of
         Some is \<Rightarrow> \<exists>new. is = (got @ [i]) @ new \<and> length new = k \<and> distinct is \<and>
           (\<forall>i\<in>set new. i < NUM \<and> vd_free (vd ?s) ! i) \<and> vd s' = taken new (vd ?s)
       | None \<Rightarrow> \<exists>new. distinct ((got @ [i]) @ new) \<and> (\<forall>i\<in>set new. i < NUM \<and> vd_free (vd ?s) ! i) \<and>
           vd s' = freed ((got @ [i]) @ new) (taken new (vd ?s)))"
    proof (rule Suc.IH)
      show "length (vd_free (vd ?s)) = NUM" "distinct (got @ [i])" using Suc.prems ni by (simp_all add: taken_def)
      show "j < NUM \<and> \<not> vd_free (vd ?s) ! j" if "j \<in> set (got @ [i])" for j
        using that Suc.prems(3) some(2) f by auto
    qed
    then obtain r s' where r: "alloc_n k (got @ [i]) ?s = Ok (r, s')" "vframe ?s s'"
      "case r of
         Some is \<Rightarrow> \<exists>new. is = (got @ [i]) @ new \<and> length new = k \<and> distinct is \<and>
           (\<forall>i\<in>set new. i < NUM \<and> vd_free (vd ?s) ! i) \<and> vd s' = taken new (vd ?s)
       | None \<Rightarrow> \<exists>new. distinct ((got @ [i]) @ new) \<and> (\<forall>i\<in>set new. i < NUM \<and> vd_free (vd ?s) ! i) \<and>
           vd s' = freed ((got @ [i]) @ new) (taken new (vd ?s))" by blast
    have t: "taken new (taken [i] (vd s)) = taken (i # new) (vd s)" for new by (simp add: taken_def)
    show ?thesis
    proof (cases r)
      case None
      then obtain new where "distinct ((got @ [i]) @ new)" "\<forall>i\<in>set new. i < NUM \<and> vd_free (vd ?s) ! i"
        "vd s' = freed ((got @ [i]) @ new) (taken new (vd ?s))" using r(3) by auto
      then have "distinct (got @ i # new) \<and> (\<forall>j\<in>set (i # new). j < NUM \<and> vd_free (vd s) ! j) \<and>
        vd s' = freed (got @ i # new) (taken (i # new) (vd s))" using some f t by auto
      then show ?thesis using None r(1) some(1) vframe_trans [OF fr r(2)] by (auto intro!: exI [of _ "i # new"])
    next
      case (Some js)
      then obtain new where "js = (got @ [i]) @ new" "length new = k" "distinct js"
        "\<forall>i\<in>set new. i < NUM \<and> vd_free (vd ?s) ! i" "vd s' = taken new (vd ?s)" using r(3) by auto
      then have "js = got @ i # new \<and> length (i # new) = Suc k \<and> distinct js \<and>
        (\<forall>j\<in>set (i # new). j < NUM \<and> vd_free (vd s) ! j) \<and> vd s' = taken (i # new) (vd s)" using some f t by auto
      then show ?thesis using Some r(1) some(1) vframe_trans [OF fr r(2)] by (auto intro!: exI [of _ "i # new"])
    qed
  qed
qed


text \<open>Freeing the chain of a request frees its three descriptors.\<close>

lemma free_chain_ok:
  assumes "formatted (vd s) sec r" "length (vd_free (vd s)) = NUM" "length (vd_desc (vd s)) = NUM" "distinct (idxs r)"
    and "\<And>i. i \<in> set (idxs r) \<Longrightarrow> i < NUM \<and> \<not> vd_free (vd s) ! i"
  shows "\<exists>s'. free_chain (rq_i0 r) s = Ok s' \<and> vframe s s' \<and> vd s' = freed (idxs r) (vd s)"
proof -
  have free: "rq_i0 r < NUM" "\<not> vd_free (vd s) ! rq_i0 r" "rq_i1 r < NUM" "\<not> vd_free (vd s) ! rq_i1 r"
    "rq_i2 r < NUM" "\<not> vd_free (vd s) ! rq_i2 r" using assms(5) by simp_all
  have ne: "rq_i1 r \<noteq> rq_i0 r" "rq_i2 r \<noteq> rq_i0 r" "rq_i2 r \<noteq> rq_i1 r" using assms(4) by auto
  note fmt = assms(1) [unfolded formatted_def]
  obtain s1 where s1: "free_desc (rq_i0 r) s = Ok s1" "vframe s s1" "vd s1 = freed [rq_i0 r] (vd s)"
    using free_desc_ok [OF free(1,2)] by blast
  have f1: "\<not> vd_free (vd s1) ! rq_i1 r" "\<not> vd_free (vd s1) ! rq_i2 r" "length (vd_free (vd s1)) = NUM"
    "vd_desc (vd s1) ! rq_i1 r = vd_desc (vd s) ! rq_i1 r" "vd_desc (vd s1) ! rq_i2 r = vd_desc (vd s) ! rq_i2 r"
    using free ne assms(2,3) by (simp_all add: s1(3) freed_def)
  obtain s2 where s2: "free_desc (rq_i1 r) s1 = Ok s2" "vframe s1 s2" "vd s2 = freed [rq_i1 r] (vd s1)"
    using free_desc_ok [OF free(3) f1(1)] by blast
  have f2: "\<not> vd_free (vd s2) ! rq_i2 r" "length (vd_free (vd s2)) = NUM"
    "vd_desc (vd s2) ! rq_i2 r = vd_desc (vd s) ! rq_i2 r"
    using f1 ne by (simp_all add: s2(3) freed_def)
  obtain s3 where s3: "free_desc (rq_i2 r) s2 = Ok s3" "vframe s2 s3" "vd s3 = freed [rq_i2 r] (vd s2)"
    using free_desc_ok [OF free(5) f2(1)] by blast
  have "free_chain (rq_i2 r) s2 = Ok s3" by (subst free_chain.simps) (simp add: fmt f2 s3(1))
  then have "free_chain (rq_i1 r) s1 = Ok s3" by (subst free_chain.simps) (simp add: fmt f1 s2(1))
  then have "free_chain (rq_i0 r) s = Ok s3" by (subst free_chain.simps) (simp add: fmt assms(2) s1(1))
  moreover have "vd s3 = freed (idxs r) (vd s)" by (simp add: s3(3) s2(3) s1(3) freed_def)
  ultimately show ?thesis using vframe_trans [OF s1(2) vframe_trans [OF s2(2) s3(2)]] by blast
qed

section \<open>The interrupt\<close>

text \<open>The handler drains the used ring: it marks the buffers of all completed requests.\<close>

lemma intr_loop_ok:
  assumes "ring_ok (vd_used (vd s)) (vd_used_idx (vd s)) (vd_used_dev_idx (vd s))" "length (vd_used (vd s)) = NUM"
    and "u = ring_list (vd_used (vd s)) (vd_used_idx (vd s)) (vd_used_dev_idx (vd s))"
    and "\<And>h. h \<in> set u \<Longrightarrow> h < NUM \<and> vd_info_status (vd s) ! h = 0 \<and> vd_info_b (vd s) ! h = Some (buf h)"
  shows "\<exists>s'. intr_loop s = Ok s' \<and> vframe s s' \<and>
    vd s' = (vd s)\<lparr>vd_bdisk := fold (\<lambda>b f. f[b := False]) (map buf u) (vd_bdisk (vd s)), vd_used_idx := vd_used_dev_idx (vd s)\<rparr>"
  using assms
proof (induction u arbitrary: s)
  case Nil
  then have "vd_used_idx (vd s) = vd_used_dev_idx (vd s)" using ring_list_empty by metis
  then have "intr_loop s = Ok s" "(vd s)\<lparr>vd_used_idx := vd_used_dev_idx (vd s)\<rparr> = vd s"
    by (subst intr_loop.simps, simp_all)
  then show ?case by simp
next
  case (Cons h u)
  let ?d = "vd s"
  let ?s1 = "upd_vd (\<lambda>d. d\<lparr>vd_bdisk := (vd_bdisk d)[buf h := False], vd_used_idx := vd_used_idx d + 1\<rparr>) s"
  let ?s = "wakeup (ChDisk (buf h)) ?s1"
  have ne: "vd_used_idx ?d \<noteq> vd_used_dev_idx ?d" using Cons.prems(3) ring_list_empty by (metis list.distinct(1))
  from ring_get [OF Cons.prems(1) ne]
  have g: "ring_ok (vd_used ?d) (vd_used_idx ?d + 1) (vd_used_dev_idx ?d)"
    "h # u = vd_used ?d ! (unat (vd_used_idx ?d) mod NUM) # ring_list (vd_used ?d) (vd_used_idx ?d + 1) (vd_used_dev_idx ?d)"
    using Cons.prems(2,3) by simp_all
  have h: "h < NUM" "vd_info_status ?d ! h = 0" "vd_info_b ?d ! h = Some (buf h)" using Cons.prems(4) [of h] by simp_all
  have "\<exists>s'. intr_loop ?s = Ok s' \<and> vframe ?s s' \<and>
    vd s' = (vd ?s)\<lparr>vd_bdisk := fold (\<lambda>b f. f[b := False]) (map buf u) (vd_bdisk (vd ?s)), vd_used_idx := vd_used_dev_idx (vd ?s)\<rparr>"
  proof (rule Cons.IH)
    show "ring_ok (vd_used (vd ?s)) (vd_used_idx (vd ?s)) (vd_used_dev_idx (vd ?s))" "length (vd_used (vd ?s)) = NUM"
      "u = ring_list (vd_used (vd ?s)) (vd_used_idx (vd ?s)) (vd_used_dev_idx (vd ?s))" using g Cons.prems(2) by simp_all
    show "k < NUM \<and> vd_info_status (vd ?s) ! k = 0 \<and> vd_info_b (vd ?s) ! k = Some (buf k)" if "k \<in> set u" for k
      using Cons.prems(4) [of k] that by simp
  qed
  moreover have "intr_loop s = intr_loop ?s"
    by (subst intr_loop.simps) (use ne h g(2) in \<open>simp add: Let_def\<close>)
  moreover have "vframe s ?s" using vframe_trans [OF vframe_upd_vd vframe_wakeup] .
  ultimately show ?case using vframe_trans [of s ?s] by auto
qed


section \<open>The invariant\<close>

definition vlen :: "vdisk \<Rightarrow> bool" where
  "vlen d \<longleftrightarrow> length (vd_desc d) = NUM \<and> length (vd_avail d) = NUM \<and> length (vd_used d) = NUM \<and>
     length (vd_free d) = NUM \<and> length (vd_info_b d) = NUM \<and> length (vd_info_status d) = NUM \<and>
     length (vd_ops d) = NUM \<and> length (vd_bdisk d) = 30"

text \<open>Every descriptor is free or belongs to one request.\<close>

definition desc_inv :: "vdisk \<Rightarrow> dreq list \<Rightarrow> bool" where
  "desc_inv d rs \<longleftrightarrow> distinct (concat (map idxs rs)) \<and> (\<forall>i\<in>set (concat (map idxs rs)). i < NUM) \<and>
     (\<forall>i<NUM. vd_free d ! i \<longleftrightarrow> i \<notin> set (concat (map idxs rs)))"

text \<open>The descriptors of a request say what the request is.\<close>

definition req_inv :: "'a vst_scheme \<Rightarrow> dreq list \<Rightarrow> bool" where
  "req_inv s rs \<longleftrightarrow> distinct (map rq_buf rs) \<and>
     (\<forall>r\<in>set rs. rq_buf r < 30 \<and> b_blockno (bufs s ! rq_buf r) < 2 ^ 31 \<and>
        formatted (vd s) (b_blockno (bufs s ! rq_buf r) * 2) r \<and> vd_info_b (vd s) ! rq_i0 r = Some (rq_buf r))"

text \<open>
  A request whose buffer is marked busy is in exactly one place: in the available ring, with the device,
  or in the used ring. Those past the device have status 0.
\<close>

definition queue_inv :: "vdisk \<Rightarrow> uint16 \<Rightarrow> nat list \<Rightarrow> dreq list \<Rightarrow> bool" where
  "queue_inv d sn w rs \<longleftrightarrow>
     ring_ok (vd_avail d) sn (vd_avail_idx d) \<and> ring_ok (vd_used d) (vd_used_idx d) (vd_used_dev_idx d) \<and>
     (let a = ring_list (vd_avail d) sn (vd_avail_idx d); u = ring_list (vd_used d) (vd_used_idx d) (vd_used_dev_idx d) in
      distinct (a @ w @ u) \<and> set (a @ w @ u) = rq_i0 ` {r \<in> set rs. vd_bdisk d ! rq_buf r} \<and>
      (\<forall>r\<in>set rs. (rq_done r \<longleftrightarrow> rq_i0 r \<notin> set (a @ w)) \<and> (rq_done r \<longrightarrow> vd_info_status d ! rq_i0 r = 0)))"

definition vinv :: "'a vst_scheme vsys \<Rightarrow> bool" where
  "vinv S \<longleftrightarrow> vlen (vd (vs S)) \<and> desc_inv (vd (vs S)) (reqs S) \<and> req_inv (vs S) (reqs S) \<and>
     queue_inv (vd (vs S)) (seen S) (work S) (reqs S)"

lemma idxs_inj:
  "\<lbrakk>distinct (concat (map idxs rs)); r \<in> set rs; r' \<in> set rs; i \<in> set (idxs r); i \<in> set (idxs r')\<rbrakk> \<Longrightarrow> r = r'"
proof (induction rs)
  case (Cons x rs)
  have d: "set (idxs x) \<inter> set (concat (map idxs rs)) = {}" "distinct (concat (map idxs rs))"
    using Cons.prems(1) by (simp_all only: list.map concat.simps distinct_append)
  have "i \<in> set (concat (map idxs rs))" if "y \<in> set rs" "i \<in> set (idxs y)" for y
    using that by (simp only: set_concat set_map) blast
  then have "y = x \<or> i \<notin> set (idxs x)" if "y \<in> set (x # rs)" "i \<in> set (idxs y)" for y
    using that d(1) by (simp only: set_simps) blast
  then show ?case using Cons.IH [OF d(2)] Cons.prems(2-5) by (metis set_ConsD)
qed simp

lemma length_idxs: "length (concat (map idxs rs)) = 3 * length rs"
  by (induction rs) simp_all

lemma reqs_bound:
  assumes "desc_inv d rs"
  shows "length rs \<le> 2"
proof -
  have "set (concat (map idxs rs)) \<subseteq> {..<NUM}" using assms unfolding desc_inv_def by blast
  then have "card (set (concat (map idxs rs))) \<le> NUM" using card_mono [of "{..<NUM}"] by fastforce
  moreover have "card (set (concat (map idxs rs))) = 3 * length rs"
    using assms unfolding desc_inv_def by (simp only: distinct_card length_idxs)
  ultimately show ?thesis by simp
qed

lemma heads_distinct:
  assumes "desc_inv d rs"
  shows "inj_on rq_i0 (set rs)"
proof (rule inj_onI)
  show "r = r'" if "r \<in> set rs" "r' \<in> set rs" "rq_i0 r = rq_i0 r'" for r r'
    using idxs_inj [of rs r r' "rq_i0 r"] assms that by (simp add: desc_inv_def)
qed

lemma queue_bound:
  assumes "queue_inv d sn w rs" "desc_inv d rs"
  shows "length (ring_list (vd_avail d) sn (vd_avail_idx d)) + length w
    + length (ring_list (vd_used d) (vd_used_idx d) (vd_used_dev_idx d)) \<le> 2"
proof -
  let ?q = "ring_list (vd_avail d) sn (vd_avail_idx d) @ w @ ring_list (vd_used d) (vd_used_idx d) (vd_used_dev_idx d)"
  have q: "distinct ?q" "set ?q = rq_i0 ` {r \<in> set rs. vd_bdisk d ! rq_buf r}"
    using assms(1) unfolding queue_inv_def Let_def by blast+
  have "length ?q = card (set ?q)" using q(1) distinct_card by metis
  also have "\<dots> \<le> card {r \<in> set rs. vd_bdisk d ! rq_buf r}" unfolding q(2) by (rule card_image_le) simp
  also have "\<dots> \<le> card (set rs)" by (rule card_mono) auto
  also have "\<dots> \<le> length rs" by (rule card_length)
  finally show ?thesis using reqs_bound [OF assms(2)] by simp
qed

section \<open>Preservation\<close>

lemma vinit_inv:
  assumes "vinit S"
  shows "vinv S"
  using assms
proof cases
  case (1 pfn s0 s)
  have f: "vd_desc (vd s) = replicate NUM desc0" "vd_avail (vd s) = replicate NUM 0" "vd_avail_idx (vd s) = 0"
    "vd_used (vd s) = replicate NUM 0" "vd_used_dev_idx (vd s) = 0" "vd_free (vd s) = replicate NUM True"
    "vd_used_idx (vd s) = vd_used_idx (vd s0)" "vd_info_b (vd s) = vd_info_b (vd s0)"
    "vd_info_status (vd s) = vd_info_status (vd s0)" "vd_ops (vd s) = vd_ops (vd s0)" "vd_bdisk (vd s) = vd_bdisk (vd s0)"
    using 1(2) by (auto simp: virtio_disk_init_def Let_def split: if_splits)
  have "ring_ok (replicate NUM x) (0 :: uint16) 0" "ring_list (replicate NUM x) (0 :: uint16) 0 = []" for x :: nat
    by (simp_all add: ring_ok_def ring_list_def)
  then show ?thesis using 1(3-7) f unfolding vinv_def vlen_def desc_inv_def req_inv_def queue_inv_def 1(1)
    by (simp add: Let_def)
qed


lemma formatted_cong:
  assumes "\<And>i. i \<in> set (idxs r) \<Longrightarrow> vd_desc d' ! i = vd_desc d ! i" "vd_ops d' ! rq_i0 r = vd_ops d ! rq_i0 r"
  shows "formatted d' sec r = formatted d sec r"
  using assms by (simp add: formatted_def)

lemma req_idx:
  assumes "desc_inv d rs" "r \<in> set rs" "i \<in> set (idxs r)"
  shows "i < NUM \<and> \<not> vd_free d ! i"
proof -
  have "i \<in> set (concat (map idxs rs))" using assms(2,3) unfolding set_concat set_map by blast
  then show ?thesis using assms(1) unfolding desc_inv_def by blast
qed

text \<open>A call that has to wait for descriptors gives back the ones it took.\<close>

lemma vretry_inv:
  assumes "vinv S" "virtio_disk_submit b w (vs S) = Ok (None, s')"
  shows "vinv (S\<lparr>vs := s'\<rparr>)"
proof -
  let ?d = "vd (vs S)"
  have len: "vlen ?d" using assms(1) by (simp add: vinv_def)
  obtain r s1 where r: "alloc_n 3 [] (vs S) = Ok (r, s1)" "vframe (vs S) s1"
    "case r of
       Some is \<Rightarrow> length is = 3
     | None \<Rightarrow> \<exists>new. (\<forall>i\<in>set new. i < NUM \<and> vd_free ?d ! i) \<and> vd s1 = freed new (taken new ?d)"
    using alloc_n_ok [of "vs S" "[]" 3] len by (fastforce simp: vlen_def split: option.splits)
  have s': "r = None" "s' = s1"
    using assms(2) r(1,3) by (auto simp: virtio_disk_submit_def alloc3_desc_def length_Suc_conv numeral_3_eq_3 split: option.splits list.splits)
  then obtain new where new: "\<forall>i\<in>set new. i < NUM \<and> vd_free ?d ! i" "vd s' = freed new (taken new ?d)" using r(3) by auto
  have free: "vd_free (vd s') = vd_free ?d"
    using new len by (intro nth_equalityI) (auto simp: freed_def taken_def nth_fold_upd vlen_def)
  have desc: "vd_desc (vd s') ! i = vd_desc ?d ! i" if "i < NUM" "\<not> vd_free ?d ! i" for i
    using new len that by (auto simp: freed_def taken_def nth_fold_upd vlen_def)
  have fields: "length (vd_desc (vd s')) = length (vd_desc ?d)" "vd_avail (vd s') = vd_avail ?d"
    "vd_avail_idx (vd s') = vd_avail_idx ?d" "vd_used (vd s') = vd_used ?d" "vd_used_dev_idx (vd s') = vd_used_dev_idx ?d"
    "vd_used_idx (vd s') = vd_used_idx ?d" "vd_info_b (vd s') = vd_info_b ?d" "vd_ops (vd s') = vd_ops ?d"
    "vd_info_status (vd s') = vd_info_status ?d" "vd_bdisk (vd s') = vd_bdisk ?d"
    by (simp_all add: new(2) freed_def taken_def)
  have "formatted (vd s') sec r = formatted ?d sec r" if "r \<in> set (reqs S)" for r sec
    using req_idx [of ?d "reqs S" r] desc that assms(1) by (intro formatted_cong) (auto simp: vinv_def fields)
  moreover have "bufs s' = bufs (vs S)" using vframe_bufs [OF r(2)] s'(2) by simp
  ultimately show ?thesis using assms(1)
    unfolding vinv_def vlen_def desc_inv_def req_inv_def queue_inv_def by (simp add: fields free Let_def)
qed

lemma vother_inv:
  assumes "vinv S" "vd s' = vd (vs S)"
    and "\<And>r. r \<in> set (reqs S) \<Longrightarrow> b_blockno (bufs s' ! rq_buf r) = b_blockno (bufs (vs S) ! rq_buf r)"
  shows "vinv (S\<lparr>vs := s'\<rparr>)"
  using assms by (simp add: vinv_def req_inv_def)

lemma vfetch_inv:
  assumes "vinv S" "seen S \<noteq> vd_avail_idx (vd (vs S))"
  shows "vinv (S\<lparr>seen := seen S + 1, work := vd_avail (vd (vs S)) ! (unat (seen S) mod NUM) # work S\<rparr>)"
proof -
  have "length (vd_avail (vd (vs S))) = NUM" "ring_ok (vd_avail (vd (vs S))) (seen S) (vd_avail_idx (vd (vs S)))"
    using assms(1) by (simp_all add: vinv_def vlen_def queue_inv_def)
  from ring_get [OF this(2) assms(2)] this(1) assms(1) show ?thesis
    unfolding vinv_def queue_inv_def by (simp add: Let_def)
qed

text \<open>The interrupt handler clears the busy mark of exactly the requests in the used ring.\<close>

lemma vintr_ok:
  assumes "vinv S"
  shows "\<exists>s'. virtio_disk_intr (vs S) = Ok s' \<and> vinv (S\<lparr>vs := s'\<rparr>) \<and> vframe (vs S) s' \<and>
    (\<forall>r\<in>set (reqs S). rq_done r \<longrightarrow> \<not> vd_bdisk (vd s') ! rq_buf r)"
proof -
  let ?d = "vd (vs S)" and ?s = "upd_vd (\<lambda>d. write_reg 0x064 (vd_regs d 0x060 AND 3) d) (vs S)"
  let ?u = "ring_list (vd_used ?d) (vd_used_idx ?d) (vd_used_dev_idx ?d)"
  let ?a = "ring_list (vd_avail ?d) (seen S) (vd_avail_idx ?d)"
  let ?B = "fold (\<lambda>b f. f[b := False]) (map (\<lambda>h. the (vd_info_b ?d ! h)) ?u) (vd_bdisk ?d)"
  have inv: "vlen ?d" "desc_inv ?d (reqs S)" "req_inv (vs S) (reqs S)" "queue_inv ?d (seen S) (work S) (reqs S)"
    using assms by (simp_all add: vinv_def)
  have q: "distinct (?a @ work S @ ?u)" "set (?a @ work S @ ?u) = rq_i0 ` {r \<in> set (reqs S). vd_bdisk ?d ! rq_buf r}"
    and dn: "\<And>r. r \<in> set (reqs S) \<Longrightarrow> rq_done r \<longleftrightarrow> rq_i0 r \<notin> set (?a @ work S)"
    and st: "\<And>r. r \<in> set (reqs S) \<Longrightarrow> rq_done r \<Longrightarrow> vd_info_status ?d ! rq_i0 r = 0"
    using inv(4) unfolding queue_inv_def Let_def by blast+
  have info: "\<And>r. r \<in> set (reqs S) \<Longrightarrow> vd_info_b ?d ! rq_i0 r = Some (rq_buf r)" using inv(3) by (simp add: req_inv_def)
  have ur: "\<exists>r\<in>set (reqs S). h = rq_i0 r" if "h \<in> set ?u" for h
  proof -
    have "h \<in> rq_i0 ` {r \<in> set (reqs S). vd_bdisk ?d ! rq_buf r}" using that unfolding q(2) [symmetric] by simp
    then show ?thesis by blast
  qed
  have u: "h < NUM \<and> vd_info_status ?d ! h = 0 \<and> vd_info_b ?d ! h = Some (the (vd_info_b ?d ! h))" if h: "h \<in> set ?u" for h
  proof -
    obtain r where r: "r \<in> set (reqs S)" "h = rq_i0 r" using ur [OF h] by blast
    moreover have "rq_done r" using dn [OF r(1)] q(1) h r(2) by auto
    ultimately show ?thesis using st info req_idx [OF inv(2) r(1), of h] by simp
  qed
  obtain s' where s': "intr_loop ?s = Ok s'" "vframe ?s s'"
    "vd s' = (vd ?s)\<lparr>vd_bdisk := ?B, vd_used_idx := vd_used_dev_idx ?d\<rparr>"
    using intr_loop_ok [of ?s ?u "\<lambda>h. the (vd_info_b ?d ! h)"] inv u
    by (auto simp: write_reg_def queue_inv_def vlen_def)
  have B0: "?B ! rq_buf r \<longleftrightarrow> vd_bdisk ?d ! rq_buf r \<and> rq_i0 r \<notin> set ?u" if "r \<in> set (reqs S)" for r
  proof -
    have "inj_on rq_buf (set (reqs S))" using inv(3) by (simp add: req_inv_def distinct_map)
    then have "h = rq_i0 r" if "h \<in> set ?u" "rq_buf r = the (vd_info_b ?d ! h)" for h
      using that ur [of h] info \<open>r \<in> set (reqs S)\<close> by (metis inj_onD option.sel)
    then have "rq_buf r \<in> set (map (\<lambda>h. the (vd_info_b ?d ! h)) ?u) \<longleftrightarrow> rq_i0 r \<in> set ?u"
      using info [OF that] by (auto simp: image_iff) (metis option.sel)
    moreover have "rq_buf r < length (vd_bdisk ?d)" using that inv(1,3) by (simp add: vlen_def req_inv_def)
    ultimately show ?thesis by (simp only: nth_fold_upd) simp
  qed
  obtain B where sB: "vd s' = (vd ?s)\<lparr>vd_bdisk := B, vd_used_idx := vd_used_dev_idx ?d\<rparr>" "length B = length (vd_bdisk ?d)"
    and B: "\<And>r. r \<in> set (reqs S) \<Longrightarrow> B ! rq_buf r \<longleftrightarrow> vd_bdisk ?d ! rq_buf r \<and> rq_i0 r \<notin> set ?u"
    by (rule that [OF s'(3) length_fold_upd B0])
  have q': "set (?a @ work S) = rq_i0 ` {r \<in> set (reqs S). B ! rq_buf r}"
  proof -
    have "set (?a @ work S) = set (?a @ work S @ ?u) - set ?u" using q(1) by auto
    also have "\<dots> = rq_i0 ` {r \<in> set (reqs S). vd_bdisk ?d ! rq_buf r \<and> rq_i0 r \<notin> set ?u}" unfolding q(2) by blast
    also have "\<dots> = rq_i0 ` {r \<in> set (reqs S). B ! rq_buf r}" using B by (intro arg_cong [of _ _ "\<lambda>A. rq_i0 ` A"]) blast
    finally show ?thesis .
  qed
  have fr: "vframe (vs S) s'" using vframe_trans [OF vframe_upd_vd s'(2)] .
  have "ring_list (vd_used ?d) (vd_used_dev_idx ?d) (vd_used_dev_idx ?d) = []" using ring_list_empty by blast
  moreover have "ring_ok (vd_used ?d) (vd_used_dev_idx ?d) (vd_used_dev_idx ?d)"
    using inv(4) by (simp add: queue_inv_def ring_ok_def)
  moreover have "distinct (?a @ work S)" using q(1) by auto
  ultimately have "queue_inv (vd s') (seen S) (work S) (reqs S)"
    using inv(4) q' dn st unfolding queue_inv_def Let_def by (simp add: sB write_reg_def)
  moreover have "vlen (vd s')" "desc_inv (vd s') (reqs S)"
    using inv(1,2) by (simp_all add: sB write_reg_def vlen_def desc_inv_def)
  moreover have "req_inv s' (reqs S)"
    using inv(3) vframe_bufs [OF fr] by (simp add: req_inv_def sB write_reg_def formatted_def)
  moreover have "\<not> vd_bdisk (vd s') ! rq_buf r" if "r \<in> set (reqs S)" "rq_done r" for r
  proof
    assume "vd_bdisk (vd s') ! rq_buf r"
    then have "rq_i0 r \<in> set (?a @ work S)" unfolding q' using that by (simp add: sB)
    then show False using dn that by blast
  qed
  ultimately show ?thesis using s'(1) fr by (auto simp: virtio_disk_intr_def vinv_def)
qed


text \<open>The device completes a request it has taken.\<close>

lemma transfer_simps [simp]: "vd (transfer b w blk s) = vd s"
  by (simp add: transfer_def upd_buf_def)

lemma transfer_blockno: "b_blockno (bufs (transfer b w blk s) ! i) = b_blockno (bufs s ! i)"
  by (cases "b < length (bufs s)"; cases "i = b") (simp_all add: transfer_def upd_buf_def list_update_beyond)

lemma work_req:
  assumes "queue_inv d sn w rs" "h \<in> set w"
  shows "\<exists>r\<in>set rs. h = rq_i0 r"
proof -
  have "h \<in> rq_i0 ` {r \<in> set rs. vd_bdisk d ! rq_buf r}"
    using assms unfolding queue_inv_def Let_def by (metis Un_iff set_append)
  then show ?thesis by blast
qed

lemma image_update:
  assumes "\<And>x. k (f x) = k x" "\<And>x. b (f x) = b x"
  shows "k ` {y \<in> f ` A. P (b y)} = k ` {x \<in> A. P (b x)}"
proof -
  have "{y \<in> f ` A. P (b y)} = f ` {x \<in> A. P (b x)}" by (auto simp: assms)
  then show ?thesis by (simp add: image_image assms)
qed

lemma vcomplete_inv:
  assumes "vinv S" "device_ok dev" "h \<in> set (work S)"
  shows "vinv (S\<lparr>vs := dev h (vs S), work := remove1 h (work S),
    reqs := map (\<lambda>r. if rq_i0 r = h then r\<lparr>rq_done := True\<rparr> else r) (reqs S)\<rparr>)"
proof -
  let ?d = "vd (vs S)" and ?f = "\<lambda>r. if rq_i0 r = h then r\<lparr>rq_done := True\<rparr> else r"
  let ?u = "ring_list (vd_used ?d) (vd_used_idx ?d) (vd_used_dev_idx ?d)"
  let ?a = "ring_list (vd_avail ?d) (seen S) (vd_avail_idx ?d)"
  have inv: "vlen ?d" "desc_inv ?d (reqs S)" "req_inv (vs S) (reqs S)" "queue_inv ?d (seen S) (work S) (reqs S)"
    using assms by (simp_all add: vinv_def)
  obtain r where r: "r \<in> set (reqs S)" "h = rq_i0 r" using work_req [OF inv(4) assms(3)] by blast
  then obtain sec where dev: "dev h (vs S) = upd_vd (report h) (transfer (rq_buf r) (rq_write r) (sec div 2) (vs S))"
    using inv(3) assms(2) unfolding req_inv_def device_ok_def by blast
  have f: "idxs (?f x) = idxs x" "rq_buf (?f x) = rq_buf x" "rq_i0 (?f x) = rq_i0 x" for x by simp_all
  have fmt: "formatted (report h ?d) sec (?f x) = formatted ?d sec x" for sec x by (simp add: formatted_def report_def)
  have q: "distinct (?a @ work S @ ?u)" "set (?a @ work S @ ?u) = rq_i0 ` {r \<in> set (reqs S). vd_bdisk ?d ! rq_buf r}"
    and dn: "\<And>r. r \<in> set (reqs S) \<Longrightarrow> rq_done r \<longleftrightarrow> rq_i0 r \<notin> set (?a @ work S)"
    and st: "\<And>r. r \<in> set (reqs S) \<Longrightarrow> rq_done r \<Longrightarrow> vd_info_status ?d ! rq_i0 r = 0"
    and ok: "ring_ok (vd_avail ?d) (seen S) (vd_avail_idx ?d)" "ring_ok (vd_used ?d) (vd_used_idx ?d) (vd_used_dev_idx ?d)"
    using inv(4) unfolding queue_inv_def Let_def by blast+
  have "unat (vd_used_dev_idx ?d - vd_used_idx ?d) \<noteq> length (vd_used ?d)"
    using queue_bound [OF inv(4,2)] inv(1) by (simp add: vlen_def)
  from ring_put [OF ok(2) this, of h] inv(1)
  have put: "ring_ok (vd_used (report h ?d)) (vd_used_idx ?d) (vd_used_dev_idx ?d + 1)"
    "ring_list (vd_used (report h ?d)) (vd_used_idx ?d) (vd_used_dev_idx ?d + 1) = ?u @ [h]"
    by (simp_all add: report_def vlen_def)
  have w: "distinct (work S)" "h \<notin> set ?a" "h \<notin> set ?u" using q(1) assms(3) by auto
  have img: "rq_i0 ` {r \<in> ?f ` set (reqs S). P (rq_buf r)} = rq_i0 ` {r \<in> set (reqs S). P (rq_buf r)}" for P
    by (rule image_update) (rule f)+
  have "queue_inv (report h ?d) (seen S) (remove1 h (work S)) (map ?f (reqs S))"
    unfolding queue_inv_def Let_def
  proof (intro conjI ballI)
    show "ring_ok (vd_avail (report h ?d)) (seen S) (vd_avail_idx (report h ?d))" using ok(1) by (simp add: report_def)
    show "ring_ok (vd_used (report h ?d)) (vd_used_idx (report h ?d)) (vd_used_dev_idx (report h ?d))"
      using put(1) by (simp add: report_def)
    have la: "ring_list (vd_avail (report h ?d)) (seen S) (vd_avail_idx (report h ?d)) = ?a"
      "ring_list (vd_used (report h ?d)) (vd_used_idx (report h ?d)) (vd_used_dev_idx (report h ?d)) = ?u @ [h]"
      using put(2) by (simp_all add: report_def)
    show "distinct (ring_list (vd_avail (report h ?d)) (seen S) (vd_avail_idx (report h ?d)) @ remove1 h (work S) @
      ring_list (vd_used (report h ?d)) (vd_used_idx (report h ?d)) (vd_used_dev_idx (report h ?d)))"
      unfolding la using q(1) w by auto
    have "set (?a @ remove1 h (work S) @ ?u @ [h]) = set (?a @ work S @ ?u)" using w assms(3) by auto
    also have "\<dots> = rq_i0 ` {r \<in> set (map ?f (reqs S)). vd_bdisk (report h ?d) ! rq_buf r}"
      unfolding q(2) set_map img by (simp add: report_def)
    finally show "set (ring_list (vd_avail (report h ?d)) (seen S) (vd_avail_idx (report h ?d)) @ remove1 h (work S) @
      ring_list (vd_used (report h ?d)) (vd_used_idx (report h ?d)) (vd_used_dev_idx (report h ?d))) =
      rq_i0 ` {r \<in> set (map ?f (reqs S)). vd_bdisk (report h ?d) ! rq_buf r}" unfolding la .
    fix x assume "x \<in> set (map ?f (reqs S))"
    then obtain y where y: "y \<in> set (reqs S)" "x = ?f y" by auto
    have h: "h < length (vd_info_status ?d)" using req_idx [OF inv(2) r(1), of h] r(2) inv(1) by (simp add: vlen_def)
    show "rq_done x \<longleftrightarrow> rq_i0 x \<notin> set (ring_list (vd_avail (report h ?d)) (seen S) (vd_avail_idx (report h ?d)) @ remove1 h (work S))"
      unfolding la y(2) using dn [OF y(1)] w by auto
    show "rq_done x \<longrightarrow> vd_info_status (report h ?d) ! rq_i0 x = 0"
      unfolding y(2) using st [OF y(1)] h by (simp add: report_def nth_list_update)
  qed
  moreover have "vlen (report h ?d)" using inv(1) by (simp add: vlen_def report_def)
  moreover have "map idxs (map ?f (reqs S)) = map idxs (reqs S)" "map rq_buf (map ?f (reqs S)) = map rq_buf (reqs S)"
    "vd_free (report h ?d) = vd_free ?d" by (simp_all add: report_def)
  then have "desc_inv (report h ?d) (map ?f (reqs S))" "distinct (map rq_buf (map ?f (reqs S)))"
    using inv(2,3) unfolding desc_inv_def req_inv_def by (simp_all only:) blast+
  moreover have "bufs (dev h (vs S)) = bufs (transfer (rq_buf r) (rq_write r) (sec div 2) (vs S))" "vd (dev h (vs S)) = report h ?d"
    "vd_info_b (report h ?d) = vd_info_b ?d" unfolding dev by (simp_all add: upd_vd_def report_def)
  then have "req_inv (dev h (vs S)) (map ?f (reqs S))"
    using inv(3) calculation unfolding req_inv_def by (simp only: set_map ball_simps f fmt transfer_blockno) blast
  ultimately show ?thesis unfolding vinv_def by (simp add: dev)
qed


lemma remove1_idxs:
  assumes "distinct (concat (map idxs rs))" "r \<in> set rs"
  shows "distinct (concat (map idxs (remove1 r rs)))"
    and "set (concat (map idxs (remove1 r rs))) = set (concat (map idxs rs)) - set (idxs r)"
    and "set (remove1 r rs) = set rs - {r}"
proof -
  obtain xs ys where rs: "rs = xs @ r # ys" "r \<notin> set xs" using split_list_first [OF assms(2)] by blast
  have c: "concat (map idxs rs) = concat (map idxs xs) @ idxs r @ concat (map idxs ys)" by (simp add: rs(1))
  have d: "distinct (concat (map idxs xs) @ idxs r @ concat (map idxs ys))" using assms(1) unfolding c .
  have rm: "remove1 r rs = xs @ ys" using rs by (simp add: remove1_append)
  show "distinct (concat (map idxs (remove1 r rs)))" unfolding rm using d by (simp only: map_append concat_append distinct_append set_append) blast
  have "set (concat (map idxs (remove1 r rs))) = set (concat (map idxs xs)) \<union> set (concat (map idxs ys))" unfolding rm by simp
  also have "\<dots> = set (concat (map idxs rs)) - set (idxs r)"
    unfolding c using d by (simp only: distinct_append set_append) blast
  finally show "set (concat (map idxs (remove1 r rs))) = set (concat (map idxs rs)) - set (idxs r)" .
  have "r \<notin> set ys"
  proof
    assume "r \<in> set ys"
    then have "set (idxs r) \<subseteq> set (concat (map idxs ys))" unfolding set_concat set_map by blast
    then show False using d by (simp only: distinct_append set_append) auto
  qed
  then show "set (remove1 r rs) = set rs - {r}" unfolding rm using rs by auto
qed

text \<open>A request is finished when its buffer is no longer busy; its descriptors become free.\<close>

lemma vfinish_ok:
  assumes "vinv S" "r \<in> set (reqs S)" "\<not> vd_bdisk (vd (vs S)) ! rq_buf r"
  shows "\<exists>s'. virtio_disk_finish (rq_buf r) (rq_i0 r) (vs S) = Ok (Some s') \<and> vframe (vs S) s' \<and>
    vinv (S\<lparr>vs := s', reqs := remove1 r (reqs S)\<rparr>) \<and> rq_done r \<and> (\<forall>i\<in>set (idxs r). vd_free (vd s') ! i)"
proof -
  let ?d = "vd (vs S)" and ?s = "upd_vd (\<lambda>d. d\<lparr>vd_info_b := (vd_info_b d)[rq_i0 r := None]\<rparr>) (vs S)" and ?rs = "remove1 r (reqs S)"
  let ?u = "ring_list (vd_used ?d) (vd_used_idx ?d) (vd_used_dev_idx ?d)"
  let ?a = "ring_list (vd_avail ?d) (seen S) (vd_avail_idx ?d)"
  have inv: "vlen ?d" "desc_inv ?d (reqs S)" "req_inv (vs S) (reqs S)" "queue_inv ?d (seen S) (work S) (reqs S)"
    using assms by (simp_all add: vinv_def)
  have di: "distinct (concat (map idxs (reqs S)))" using inv(2) by (simp add: desc_inv_def)
  note rm = remove1_idxs [OF di assms(2)]
  have "distinct (idxs r)" using di assms(2) by (auto simp: distinct_concat_iff)
  then obtain s' where s': "free_chain (rq_i0 r) ?s = Ok s'" "vframe ?s s'" "vd s' = freed (idxs r) (vd ?s)"
    using free_chain_ok [of ?s "b_blockno (bufs (vs S) ! rq_buf r) * 2" r] inv(1,3) assms(2) req_idx [OF inv(2) assms(2)]
    by (auto simp: vlen_def req_inv_def formatted_def)
  have fields: "length (vd_desc (vd s')) = length (vd_desc ?d)" "vd_avail (vd s') = vd_avail ?d"
    "vd_avail_idx (vd s') = vd_avail_idx ?d" "vd_used (vd s') = vd_used ?d" "vd_used_dev_idx (vd s') = vd_used_dev_idx ?d"
    "vd_used_idx (vd s') = vd_used_idx ?d" "vd_info_b (vd s') = (vd_info_b ?d)[rq_i0 r := None]" "vd_ops (vd s') = vd_ops ?d"
    "vd_info_status (vd s') = vd_info_status ?d" "vd_bdisk (vd s') = vd_bdisk ?d" "length (vd_free (vd s')) = length (vd_free ?d)"
    by (simp_all add: s'(3) freed_def)
  have free: "vd_free (vd s') ! i \<longleftrightarrow> i \<in> set (idxs r) \<or> vd_free ?d ! i" if "i < NUM" for i
    using inv(1) that unfolding s'(3) by (subst nth_freed) (simp_all add: vlen_def)
  have desc: "vd_desc (vd s') ! i = vd_desc ?d ! i" if "i \<notin> set (idxs r)" for i
    using that by (simp add: s'(3) freed_def)
  have other: "x \<in> set (reqs S)" "set (idxs x) \<inter> set (idxs r) = {}" if "x \<in> set ?rs" for x
    using idxs_inj [OF di _ assms(2), of x] that rm(3) by blast+
  have fmt: "formatted (vd s') sec x = formatted ?d sec x" if "x \<in> set ?rs" for x sec
    using other(2) [OF that] desc by (intro formatted_cong) (auto simp: fields(8))
  have nq: "rq_i0 r \<notin> rq_i0 ` {x \<in> set (reqs S). vd_bdisk ?d ! rq_buf x}"
    using heads_distinct [OF inv(2)] assms(2,3) by (auto dest: inj_onD)
  have dset: "rq_i0 ` {x \<in> set ?rs. vd_bdisk ?d ! rq_buf x} = rq_i0 ` {x \<in> set (reqs S). vd_bdisk ?d ! rq_buf x}"
    unfolding rm(3) using assms(3) by (intro arg_cong [of _ _ "\<lambda>A. rq_i0 ` A"]) auto
  have fr: "vframe (vs S) s'" using vframe_trans [OF vframe_upd_vd s'(2)] .
  have c: "queue_inv (vd s') (seen S) (work S) ?rs"
    using inv(4) unfolding queue_inv_def Let_def fields dset by (simp add: rm(3))
  have d: "vlen (vd s')" using inv(1) by (simp add: vlen_def fields)
  have e: "desc_inv (vd s') ?rs"
    unfolding desc_inv_def rm(2)
  proof (intro conjI ballI allI impI)
    show "distinct (concat (map idxs ?rs))" by (rule rm(1))
    show "i < NUM" if "i \<in> set (concat (map idxs (reqs S))) - set (idxs r)" for i
      using that inv(2) unfolding desc_inv_def by blast
    show "vd_free (vd s') ! i \<longleftrightarrow> i \<notin> set (concat (map idxs (reqs S))) - set (idxs r)" if "i < NUM" for i
      using free [OF that] inv(2) that unfolding desc_inv_def by blast
  qed
  have "distinct (map rq_buf ?rs)"
    using inv(3) unfolding req_inv_def by (simp add: distinct_map rm(3) inj_on_diff)
  moreover have "rq_i0 r \<noteq> rq_i0 x" if "x \<in> set ?rs" for x using other(2) [OF that] by auto
  ultimately have "req_inv s' ?rs" using inv(3) other(1) fmt unfolding req_inv_def vframe_bufs [OF fr]
    by (simp add: fields)
  moreover have "rq_done r \<longleftrightarrow> rq_i0 r \<notin> set (?a @ work S)" "rq_i0 r \<notin> set (?a @ work S @ ?u)"
    using inv(4) assms(2) nq unfolding queue_inv_def Let_def by blast+
  then have "rq_done r" by simp
  moreover have "\<forall>i\<in>set (idxs r). vd_free (vd s') ! i" using free req_idx [OF inv(2) assms(2)] by blast
  ultimately show ?thesis using s'(1) fr assms(3) c d e by (simp add: virtio_disk_finish_def vinv_def)
qed


text \<open>A call that gets its descriptors makes a request of them.\<close>

lemma submit_cases:
  assumes "length (vd_free (vd s)) = NUM"
  obtains (retry) s' where "virtio_disk_submit b w s = Ok (None, s')"
  | (request) i0 i1 i2 s' where "virtio_disk_submit b w s = Ok (Some i0, s')" "vframe s s'"
      "distinct [i0, i1, i2]" "\<And>i. i \<in> {i0, i1, i2} \<Longrightarrow> i < NUM \<and> vd_free (vd s) ! i"
      "vd s' = format_request b (b_blockno (bufs s ! b)) w i0 i1 i2 (taken [i0, i1, i2] (vd s))"
proof -
  obtain r s1 where r: "alloc_n 3 [] s = Ok (r, s1)" "vframe s s1"
    "case r of Some is \<Rightarrow> length is = 3 \<and> distinct is \<and> (\<forall>i\<in>set is. i < NUM \<and> vd_free (vd s) ! i) \<and> vd s1 = taken is (vd s)
     | None \<Rightarrow> True"
    using alloc_n_ok [of s "[]" 3] assms by (fastforce split: option.splits)
  show thesis
  proof (cases r)
    case None
    then show thesis using retry r(1) by (simp add: virtio_disk_submit_def alloc3_desc_def)
  next
    case (Some js)
    then obtain i0 i1 i2 where js: "js = [i0, i1, i2]" using r(3) by (auto simp: length_Suc_conv numeral_3_eq_3)
    let ?s = "upd_vd (format_request b (b_blockno (bufs s1 ! b)) w i0 i1 i2) s1"
    have "virtio_disk_submit b w s = Ok (Some i0, ?s)" using r(1) Some js by (simp add: virtio_disk_submit_def alloc3_desc_def)
    moreover have "vframe s ?s" by (rule vframe_trans [OF r(2) vframe_upd_vd])
    ultimately show thesis
      by (rule request [of i0 _ i1 i2]) (use r(3) Some js vframe_bufs [OF r(2)] in auto)
  qed
qed

lemma format_request_simps:
  assumes "d' = format_request b blk w i0 i1 i2 d"
  shows "vd_free d' = vd_free d" "vd_info_b d' = (vd_info_b d)[i0 := Some b]" "vd_used d' = vd_used d"
    "vd_info_status d' = (vd_info_status d)[i0 := 0xff]" "vd_bdisk d' = (vd_bdisk d)[b := True]"
    "vd_avail d' = (vd_avail d)[unat (vd_avail_idx d) mod NUM := i0]" "vd_avail_idx d' = vd_avail_idx d + 1"
    "vd_used_idx d' = vd_used_idx d" "vd_used_dev_idx d' = vd_used_dev_idx d" "length (vd_ops d') = length (vd_ops d)"
    "length (vd_desc d') = length (vd_desc d)"
  by (simp_all add: assms format_request_def Let_def set_desc_def write_reg_def)

lemma format_request_formatted:
  assumes "d' = format_request (rq_buf r) blk (rq_write r) (rq_i0 r) (rq_i1 r) (rq_i2 r) d" "distinct (idxs r)"
    and "length (vd_desc d) = NUM" "length (vd_ops d) = NUM" "\<And>i. i \<in> set (idxs r) \<Longrightarrow> i < NUM"
  shows "formatted d' ((blk * 2) mod 2 ^ 32) r"
    and "\<And>i. i \<notin> set (idxs r) \<Longrightarrow> vd_desc d' ! i = vd_desc d ! i" "\<And>i. i \<noteq> rq_i0 r \<Longrightarrow> vd_ops d' ! i = vd_ops d ! i"
  using assms(2-5) by (simp_all add: assms(1) formatted_def format_request_def Let_def set_desc_def write_reg_def)


lemma queue_submit:
  assumes "queue_inv d sn w rs" "desc_inv d rs" "vlen d" "b < 30" "b \<notin> rq_buf ` set rs" "\<And>x. x \<in> set rs \<Longrightarrow> rq_buf x < 30"
    and "rq_buf r = b" "\<not> rq_done r" "rq_i0 r < NUM" "vd_free d ! rq_i0 r"
    and "vd_used d' = vd_used d" "vd_info_status d' = (vd_info_status d)[rq_i0 r := 0xff]" "vd_bdisk d' = (vd_bdisk d)[b := True]"
    and "vd_avail d' = (vd_avail d)[unat (vd_avail_idx d) mod NUM := rq_i0 r]" "vd_avail_idx d' = vd_avail_idx d + 1"
    and "vd_used_idx d' = vd_used_idx d" "vd_used_dev_idx d' = vd_used_dev_idx d"
  shows "queue_inv d' sn w (rs @ [r])"
proof -
  let ?a = "ring_list (vd_avail d) sn (vd_avail_idx d)" and ?u = "ring_list (vd_used d) (vd_used_idx d) (vd_used_dev_idx d)"
  have q: "distinct (?a @ w @ ?u)" "set (?a @ w @ ?u) = rq_i0 ` {x \<in> set rs. vd_bdisk d ! rq_buf x}"
    and dn: "\<And>x. x \<in> set rs \<Longrightarrow> rq_done x \<longleftrightarrow> rq_i0 x \<notin> set (?a @ w)"
    and st: "\<And>x. x \<in> set rs \<Longrightarrow> rq_done x \<Longrightarrow> vd_info_status d ! rq_i0 x = 0"
    and ok: "ring_ok (vd_avail d) sn (vd_avail_idx d)" "ring_ok (vd_used d) (vd_used_idx d) (vd_used_dev_idx d)"
    using assms(1) unfolding queue_inv_def Let_def by blast+
  have "unat (vd_avail_idx d - sn) \<noteq> length (vd_avail d)" using queue_bound [OF assms(1,2)] assms(3) by (simp add: vlen_def)
  from ring_put [OF ok(1) this, of "rq_i0 r"] assms(3)
  have put: "ring_ok (vd_avail d') sn (vd_avail_idx d')" "ring_list (vd_avail d') sn (vd_avail_idx d') = ?a @ [rq_i0 r]"
    by (simp_all add: assms(14,15) vlen_def)
  have ne: "rq_i0 x \<noteq> rq_i0 r" if "x \<in> set rs" for x using req_idx [OF assms(2) that, of "rq_i0 x"] assms(10) by auto
  then have nq: "rq_i0 r \<notin> set (?a @ w @ ?u)" unfolding q(2) by force
  have bd: "vd_bdisk d' ! rq_buf x = vd_bdisk d ! rq_buf x" if "x \<in> set rs" for x
  proof -
    have "b \<noteq> rq_buf x" using that assms(5) by blast
    then show ?thesis by (simp add: assms(13))
  qed
  have "{x \<in> set (rs @ [r]). vd_bdisk d' ! rq_buf x} = insert r {x \<in> set rs. vd_bdisk d ! rq_buf x}"
    using bd assms(3,4,7) by (auto simp: assms(13) vlen_def)
  then have "set (ring_list (vd_avail d') sn (vd_avail_idx d') @ w @ ?u) = rq_i0 ` {x \<in> set (rs @ [r]). vd_bdisk d' ! rq_buf x}"
    unfolding put(2) using q(2) by auto
  moreover have "distinct (ring_list (vd_avail d') sn (vd_avail_idx d') @ w @ ?u)" unfolding put(2) using q(1) nq by auto
  moreover have "(rq_done x \<longleftrightarrow> rq_i0 x \<notin> set (ring_list (vd_avail d') sn (vd_avail_idx d') @ w)) \<and>
      (rq_done x \<longrightarrow> vd_info_status d' ! rq_i0 x = 0)" if "x \<in> set (rs @ [r])" for x
  proof (cases "x \<in> set rs")
    case True
    then show ?thesis unfolding put(2) using dn [OF True] st [OF True] ne [OF True] by (simp add: assms(12))
  next
    case False
    then show ?thesis unfolding put(2) using that assms(8) by simp
  qed
  ultimately show ?thesis using put(1) ok(2) unfolding queue_inv_def Let_def assms(11,16,17) by blast
qed

lemma vsubmit_inv:
  assumes "vinv S" "b < 30" "b \<notin> rq_buf ` set (reqs S)" "b_blockno (bufs (vs S) ! b) < 2 ^ 31"
    and "virtio_disk_submit b w (vs S) = Ok (Some j0, s')" "j1 = d_next (vd_desc (vd s') ! j0)"
    and "r = \<lparr>rq_buf = b, rq_write = w, rq_i0 = j0, rq_i1 = j1, rq_i2 = d_next (vd_desc (vd s') ! j1), rq_done = False\<rparr>"
  shows "vinv (S\<lparr>vs := s', reqs := reqs S @ [r]\<rparr>)"
proof -
  let ?d = "vd (vs S)" and ?blk = "b_blockno (bufs (vs S) ! b)"
  let ?u = "ring_list (vd_used ?d) (vd_used_idx ?d) (vd_used_dev_idx ?d)"
  let ?a = "ring_list (vd_avail ?d) (seen S) (vd_avail_idx ?d)"
  have inv: "vlen ?d" "desc_inv ?d (reqs S)" "req_inv (vs S) (reqs S)" "queue_inv ?d (seen S) (work S) (reqs S)"
    using assms(1) by (simp_all add: vinv_def)
  have "length (vd_free ?d) = NUM" using inv(1) by (simp add: vlen_def)
  then obtain i1 i2 where i: "vframe (vs S) s'" "distinct [j0, i1, i2]" "\<And>i. i \<in> {j0, i1, i2} \<Longrightarrow> i < NUM \<and> vd_free ?d ! i"
    "vd s' = format_request b ?blk w j0 i1 i2 (taken [j0, i1, i2] ?d)"
    by (cases rule: submit_cases [where b = b and w = w]) (use assms(5) in auto)
  let ?r = "\<lparr>rq_buf = b, rq_write = w, rq_i0 = j0, rq_i1 = i1, rq_i2 = i2, rq_done = False\<rparr>"
  have ix: "\<And>i. i \<in> set (idxs ?r) \<Longrightarrow> i < NUM \<and> vd_free ?d ! i" using i(3) by simp
  have "formatted (vd s') ((?blk * 2) mod 2 ^ 32) ?r"
    and desc: "\<And>i. i \<notin> set (idxs ?r) \<Longrightarrow> vd_desc (vd s') ! i = vd_desc ?d ! i"
    and ops: "\<And>i. i \<noteq> j0 \<Longrightarrow> vd_ops (vd s') ! i = vd_ops ?d ! i"
    using format_request_formatted [of "vd s'" ?r ?blk "taken [j0, i1, i2] ?d"] i ix inv(1) by (simp_all add: taken_def vlen_def)
  then have f: "formatted (vd s') (?blk * 2) ?r" using assms(4) by simp
  then have r: "r = ?r" using assms(6,7) by (simp add: formatted_def)
  note fields = format_request_simps [OF i(4)]
  have new: "set (idxs ?r) \<inter> set (idxs x) = {}" if "x \<in> set (reqs S)" for x
    using ix req_idx [OF inv(2) that] by blast
  have dis: "set (idxs ?r) \<inter> set (concat (map idxs (reqs S))) = {}" using new unfolding set_concat set_map by blast
  have free: "vd_free (vd s') ! i \<longleftrightarrow> vd_free ?d ! i \<and> i \<notin> set (idxs ?r)" if "i < NUM" for i
    using that inv(1) unfolding fields(1) by (subst nth_taken) (simp_all add: vlen_def)
  have "desc_inv (vd s') (reqs S @ [?r])"
    unfolding desc_inv_def map_append concat_append set_append list.map concat.simps append_Nil2
  proof (intro conjI ballI allI impI)
    show "distinct (concat (map idxs (reqs S)) @ idxs ?r)"
      using inv(2) dis i(2) unfolding desc_inv_def distinct_append by auto
    show "k < NUM" if "k \<in> set (concat (map idxs (reqs S))) \<union> set (idxs ?r)" for k
      using that inv(2) ix unfolding desc_inv_def by blast
    show "vd_free (vd s') ! k \<longleftrightarrow> k \<notin> set (concat (map idxs (reqs S))) \<union> set (idxs ?r)" if "k < NUM" for k
      using free [OF that] inv(2) that unfolding desc_inv_def by blast
  qed
  moreover have "vlen (vd s')" using inv(1) by (simp add: vlen_def fields taken_def)
  moreover have "req_inv s' (reqs S @ [?r])"
  proof -
    have "formatted (vd s') sec x = formatted ?d sec x" "vd_info_b (vd s') ! rq_i0 x = vd_info_b ?d ! rq_i0 x"
      if "x \<in> set (reqs S)" for x sec
    proof -
      have ne: "rq_i0 x \<noteq> j0" using new [OF that] by auto
      then show "vd_info_b (vd s') ! rq_i0 x = vd_info_b ?d ! rq_i0 x" by (simp add: fields taken_def)
      show "formatted (vd s') sec x = formatted ?d sec x" using desc ops new [OF that] ne by (intro formatted_cong) blast+
    qed
    moreover have "vd_info_b (vd s') ! j0 = Some b" using ix [of j0] inv(1) by (simp add: fields taken_def vlen_def)
    ultimately show ?thesis using inv(3) f assms(2,3,4) unfolding req_inv_def vframe_bufs [OF i(1)] by simp
  qed
  moreover have "queue_inv (vd s') (seen S) (work S) (reqs S @ [?r])"
    using queue_submit [OF inv(4,2,1), of b ?r "vd s'"] ix [of j0] inv(3) assms(2,3) fields by (auto simp: req_inv_def taken_def)
  ultimately show ?thesis by (simp add: vinv_def r)
qed


lemma vstep_inv:
  assumes "vstep dev S S'" "device_ok dev" "vinv S"
  shows "vinv S'"
  using assms(1)
proof cases
  case (vsubmit b w i0 s' i1 r)
  then show ?thesis using vsubmit_inv [OF assms(3)] by blast
next
  case (vretry b w s')
  then show ?thesis using vretry_inv [OF assms(3)] by blast
next
  case vfetch
  then show ?thesis using vfetch_inv [OF assms(3)] by blast
next
  case (vcomplete h)
  then show ?thesis using vcomplete_inv [OF assms(3,2)] by blast
next
  case (vintr s')
  then show ?thesis using vintr_ok [OF assms(3)] by auto
next
  case (vfinish r s')
  have "\<not> vd_bdisk (vd (vs S)) ! rq_buf r" using vfinish(3) by (auto simp: virtio_disk_finish_def)
  then show ?thesis using vfinish_ok [OF assms(3) vfinish(2)] vfinish by auto
next
  case (vother s')
  then show ?thesis using vother_inv [OF assms(3)] by blast
qed

lemma vreach_inv: "vreach dev S \<Longrightarrow> device_ok dev \<Longrightarrow> vinv S"
  by (induction rule: vreach.induct) (auto intro: vinit_inv vstep_inv)

section \<open>Properties\<close>



text \<open>
  C20. \<^verbatim>\<open>virtio_disk_rw\<close> returns only after the device has completed the request; and once it
  has, the next interrupt lets it return, with the request's descriptors free again.
\<close>

theorem virtio_finishes:
  assumes "device_ok dev" "vreach dev S" "r \<in> set (reqs S)"
  shows "(\<forall>s'. virtio_disk_finish (rq_buf r) (rq_i0 r) (vs S) = Ok (Some s') \<longrightarrow> rq_done r) \<and>
    (rq_done r \<longrightarrow> (\<exists>s1 s2. virtio_disk_intr (vs S) = Ok s1 \<and> virtio_disk_finish (rq_buf r) (rq_i0 r) s1 = Ok (Some s2) \<and>
       (\<forall>i\<in>set (idxs r). vd_free (vd s2) ! i)))"
proof (intro conjI allI impI)
  have inv: "vinv S" using vreach_inv assms by blast
  show "rq_done r" if "virtio_disk_finish (rq_buf r) (rq_i0 r) (vs S) = Ok (Some s')" for s'
  proof -
    have "\<not> vd_bdisk (vd (vs S)) ! rq_buf r" using that by (auto simp: virtio_disk_finish_def)
    then show ?thesis using vfinish_ok [OF inv assms(3)] by blast
  qed
  assume dn: "rq_done r"
  obtain s1 where s1: "virtio_disk_intr (vs S) = Ok s1" "vinv (S\<lparr>vs := s1\<rparr>)" "\<not> vd_bdisk (vd s1) ! rq_buf r"
    using vintr_ok [OF inv] assms(3) dn by blast
  then show "\<exists>s1 s2. virtio_disk_intr (vs S) = Ok s1 \<and> virtio_disk_finish (rq_buf r) (rq_i0 r) s1 = Ok (Some s2) \<and>
       (\<forall>i\<in>set (idxs r). vd_free (vd s2) ! i)" using vfinish_ok [OF s1(2), of r] assms(3) by auto
qed


section \<open>Instances\<close>

text \<open>A device that reads its command from the descriptors.\<close>

definition demo_dev :: "nat \<Rightarrow> kst \<Rightarrow> kst" where
  "demo_dev h s =
     (let d = vd s; d0 = vd_desc d ! h; d1 = vd_desc d ! d_next d0; q = vd_ops d ! h in
      case d_addr d1 of
        DData b \<Rightarrow> upd_vd (report h) (transfer b (r_type q = VIRTIO_BLK_T_OUT) (r_sector q div 2) s)
      | _ \<Rightarrow> s)"

lemma demo_dev_ok: "device_ok demo_dev"
  by (auto simp: device_ok_def demo_dev_def formatted_def Let_def)

definition demo_regs :: "nat \<Rightarrow> uint32" where
  "demo_regs = (\<lambda>_. 0)(0x000 := 0x74726976, 0x004 := 1, 0x008 := 2, 0x00c := 0x554d4551, 0x034 := 8)"

definition demo_vk :: kst where
  "demo_vk = demo_k\<lparr>vd := vdisk0\<lparr>vd_regs := demo_regs\<rparr>\<rparr>"

lemma demo_start:
  "\<exists>s :: kst. vreach dev \<lparr>vs = s, reqs = [], seen = 0, work = []\<rparr> \<and> vd_free (vd s) = replicate NUM True \<and>
     vd_avail_idx (vd s) = 0 \<and> b_blockno (bufs s ! 0) = 0"
proof -
  obtain s where s: "virtio_disk_init 0x80010 demo_vk = Ok s" "vd_free (vd s) = replicate NUM True" "vd_avail_idx (vd s) = 0"
      "bufs s = bufs demo_k"
    by (simp add: virtio_disk_init_def demo_vk_def demo_regs_def Let_def upd_vd_def)
  have "vinit \<lparr>vs = s, reqs = [], seen = 0, work = []\<rparr>"
    by (rule vinit.intros [OF s(1)]) (simp_all add: demo_vk_def vdisk0_def)
  then have "vreach dev \<lparr>vs = s, reqs = [], seen = 0, work = []\<rparr>" by (rule vreach.start)
  moreover have "b_blockno (bufs s ! 0) = 0" by (simp add: s(4) demo_k_def buf0_def)
  ultimately show ?thesis using s(2,3) by blast
qed

lemma demo_submit:
  assumes "vd_free (vd s) = replicate NUM True"
  shows "\<exists>i0 s'. virtio_disk_submit b w s = Ok (Some i0, s') \<and> vd_avail_idx (vd s') = vd_avail_idx (vd s) + 1"
proof -
  have "replicate NUM True = [True, True, True, True, True, True, True, True]" by (simp add: numeral_eq_Suc)
  then have "\<exists>s1. alloc_n 3 [] s = Ok (Some [0, 1, 2], s1) \<and> vd_avail_idx (vd s1) = vd_avail_idx (vd s)"
    using assms by (simp add: numeral_3_eq_3 alloc_desc_def)
  then show ?thesis by (auto simp: virtio_disk_submit_def alloc3_desc_def format_request_simps(7) [OF refl])
qed

text \<open>A state in which the device has taken a request to write buffer 0, and one in which it is done.\<close>

lemma demo_taken: "\<exists>S r. vreach demo_dev S \<and> r \<in> set (reqs S) \<and> rq_i0 r \<in> set (work S)"
proof -
  obtain s where s: "vreach demo_dev \<lparr>vs = s, reqs = [], seen = 0, work = []\<rparr>" "vd_free (vd s) = replicate NUM True"
      "vd_avail_idx (vd s) = 0" "b_blockno (bufs s ! 0) = 0" using demo_start by blast
  obtain i0 s' where s': "virtio_disk_submit 0 True s = Ok (Some i0, s')" "vd_avail_idx (vd s') = 1"
    using demo_submit [OF s(2)] s(3) by fastforce
  let ?S = "\<lparr>vs = s, reqs = [], seen = 0, work = []\<rparr>" and ?i1 = "d_next (vd_desc (vd s') ! i0)"
  let ?S1 = "?S\<lparr>vs := s', reqs := reqs ?S @ [\<lparr>rq_buf = 0, rq_write = True, rq_i0 = i0, rq_i1 = ?i1,
    rq_i2 = d_next (vd_desc (vd s') ! ?i1), rq_done = False\<rparr>]\<rparr>"
  have "vstep demo_dev ?S ?S1" by (rule vsubmit [OF _ _ _ _ refl refl]) (use s s' in simp_all)
  then have r1: "vreach demo_dev ?S1" by (rule vreach.step [OF s(1)])
  have "vstep demo_dev ?S1 (?S1\<lparr>seen := seen ?S1 + 1, work := vd_avail (vd (vs ?S1)) ! (unat (seen ?S1) mod NUM) # work ?S1\<rparr>)"
    by (rule vfetch) (use s' in simp)
  then have r2: "vreach demo_dev (?S1\<lparr>seen := seen ?S1 + 1, work := vd_avail (vd (vs ?S1)) ! (unat (seen ?S1) mod NUM) # work ?S1\<rparr>)"
    by (rule vreach.step [OF r1])
  have "\<exists>S. vreach demo_dev S \<and> work S \<noteq> []" by (rule exI, rule conjI, rule r2) simp
  then obtain S h where S: "vreach demo_dev S" "h \<in> set (work S)" by fastforce
  have "queue_inv (vd (vs S)) (seen S) (work S) (reqs S)" using vreach_inv [OF S(1) demo_dev_ok] by (simp add: vinv_def)
  then show ?thesis using work_req [OF _ S(2)] S by blast
qed

lemma demo_done: "\<exists>S r. vreach demo_dev S \<and> r \<in> set (reqs S) \<and> rq_done r"
proof -
  obtain S r where S: "vreach demo_dev S" "r \<in> set (reqs S)" "rq_i0 r \<in> set (work S)" using demo_taken by blast
  let ?f = "\<lambda>x. if rq_i0 x = rq_i0 r then x\<lparr>rq_done := True\<rparr> else x"
  let ?S = "S\<lparr>vs := demo_dev (rq_i0 r) (vs S), work := remove1 (rq_i0 r) (work S), reqs := map ?f (reqs S)\<rparr>"
  have "vreach demo_dev ?S" by (rule vreach.step [OF S(1) vcomplete [OF S(3)]])
  moreover have "?f r \<in> set (reqs ?S)" "rq_done (?f r)" using S(2) by simp_all
  ultimately show ?thesis by blast
qed



theorem virtio_finishes_witness:
  "\<exists>S r s1 s2. vreach demo_dev S \<and> r \<in> set (reqs S) \<and> virtio_disk_intr (vs S) = Ok s1 \<and>
     virtio_disk_finish (rq_buf r) (rq_i0 r) s1 = Ok (Some s2)"
  using demo_done virtio_finishes [OF demo_dev_ok] by blast

end
