(* ===== verification/Fs_Frame.thy ===== *)
theory Fs_Frame
  imports Demo
begin

text \<open>
  What the file system leaves alone of the process table: an operation on blocks, inodes or open files
  may wake processes up, and changes nothing else of them. Where the state of a process does not matter,
  \<open>pview\<close> is that part of the process table, and every operation keeps it.
\<close>

definition pview :: "'a pstate_scheme \<Rightarrow> proc list \<times> nat option list \<times> nat" where
  "pview s = (map (\<lambda>q. q\<lparr>p_state := UNUSED\<rparr>) (procs s), cpus s, hart s)"

lemma pview_proc:
  assumes "pview s' = pview s"
  shows "length (procs s') = length (procs s)" "cpus s' = cpus s" "hart s' = hart s" "myproc s' = myproc s"
    and "p < length (procs s) \<Longrightarrow> (procs s' ! p)\<lparr>p_state := UNUSED\<rparr> = (procs s ! p)\<lparr>p_state := UNUSED\<rparr>"
proof -
  have m: "map (\<lambda>q. q\<lparr>p_state := UNUSED\<rparr>) (procs s') = map (\<lambda>q. q\<lparr>p_state := UNUSED\<rparr>) (procs s)"
    and c: "cpus s' = cpus s" "hart s' = hart s" using assms by (simp_all add: pview_def)
  show l: "length (procs s') = length (procs s)" using m by (metis length_map)
  show "cpus s' = cpus s" "hart s' = hart s" "myproc s' = myproc s" using c by (simp_all add: myproc_def)
  show "(procs s' ! p)\<lparr>p_state := UNUSED\<rparr> = (procs s ! p)\<lparr>p_state := UNUSED\<rparr>" if "p < length (procs s)"
    using arg_cong [OF m, of "\<lambda>xs. xs ! p"] that l by simp
qed

lemma pview_fields:
  assumes "pview s' = pview s" "p < length (procs s)"
  shows "p_vmas (procs s' ! p) = p_vmas (procs s ! p)" "p_pagetable (procs s' ! p) = p_pagetable (procs s ! p)"
    "p_sz (procs s' ! p) = p_sz (procs s ! p)" "p_ofile (procs s' ! p) = p_ofile (procs s ! p)"
    "p_killed (procs s' ! p) = p_killed (procs s ! p)" "p_trapframe (procs s' ! p) = p_trapframe (procs s ! p)"
  using arg_cong [OF pview_proc(5) [OF assms], of p_vmas] arg_cong [OF pview_proc(5) [OF assms], of p_pagetable]
    arg_cong [OF pview_proc(5) [OF assms], of p_sz] arg_cong [OF pview_proc(5) [OF assms], of p_ofile]
    arg_cong [OF pview_proc(5) [OF assms], of p_killed] arg_cong [OF pview_proc(5) [OF assms], of p_trapframe] by simp_all

lemma pview_wakeup [simp]: "pview (wakeup ch s) = pview s"
  by (auto simp: pview_def wakeup_def Let_def intro!: nth_equalityI)

lemma pview_upd [simp]:
  "pview (upd_buf i f s1) = pview s1" "pview (upd_inode j g s2) = pview s2" "pview (upd_file k h s3) = pview s3"
  "pview (s4\<lparr>mem := m\<rparr>) = pview s4" "pview (set_data i bs s1) = pview s1"
  "pview (set_addr j n a s2) = pview s2"
  by (simp_all add: pview_def upd_buf_def upd_inode_def upd_file_def set_data_def set_addr_def)

lemma pview_bframe:
  assumes "bframe s s'"
  shows "pview s' = pview s"
proof -
  have "pwake (procs s) (procs s')" using assms by (simp add: bframe_def)
  then have "map (\<lambda>q. q\<lparr>p_state := UNUSED\<rparr>) (procs s') = map (\<lambda>q. q\<lparr>p_state := UNUSED\<rparr>) (procs s)"
    by (auto simp: pwake_def intro!: nth_equalityI)
  then show ?thesis using bframe_pstate(1,2) [OF assms] by (simp add: pview_def)
qed

lemma pview_kframe:
  assumes "kframe s s'"
  shows "pview s' = pview s"
proof -
  have m: "kmem.more s' = kmem.more s" using assms by (simp add: kframe_def)
  then show ?thesis by (cases s; cases s') (simp add: pview_def)
qed

section \<open>Blocks and the log\<close>

named_theorems pv

lemmas block_pv [pv] =
  bread_frame [THEN pview_bframe] bwrite_frame [THEN pview_bframe] brelse_frame [THEN pview_bframe]

lemma log_pv [pv]:
  "install_trans r t bs s = Ok s' \<Longrightarrow> pview s' = pview s"
  "write_log t bs s = Ok s' \<Longrightarrow> pview s' = pview s"
proof -
  show "install_trans r t bs s = Ok s' \<Longrightarrow> pview s' = pview s"
    by (induction bs arbitrary: t s) (auto simp: Let_def bunpin_def split: if_splits dest!: pv)
  show "write_log t bs s = Ok s' \<Longrightarrow> pview s' = pview s"
    by (induction bs arbitrary: t s) (auto dest!: pv)
qed


lemma pview_log_fields [simp]:
  "pview (s\<lparr>log_lh := l\<rparr>) = pview s" "pview (s\<lparr>log_outstanding := n\<rparr>) = pview s" "pview (s\<lparr>log_committing := c\<rparr>) = pview s"
  "pview (bpin i s1) = pview s1" "pview (bunpin i s1) = pview s1"
  by (simp_all add: pview_def bpin_def bunpin_def upd_buf_def)

lemma write_head_pv [pv]: "write_head s = Ok s' \<Longrightarrow> pview s' = pview s"
  by (auto simp: write_head_def dest!: pv)

lemma commit_pv [pv]: "commit s = Ok s' \<Longrightarrow> pview s' = pview s"
  by (auto simp: commit_def split: if_splits dest!: pv)

lemma op_pv [pv]:
  "begin_op s = Ok s' \<Longrightarrow> pview s' = pview s" "end_op s = Ok s' \<Longrightarrow> pview s' = pview s" "log_write b s = Ok s' \<Longrightarrow> pview s' = pview s"
  by (auto simp: begin_op_def end_op_def log_write_def Let_def split: if_splits dest!: pv)

section \<open>Inodes\<close>

lemma bzero_pv [pv]: "bzero d b s = Ok s' \<Longrightarrow> pview s' = pview s"
  by (auto simp: bzero_def dest!: pv)

lemma balloc_from_pv [pv]: "balloc_from d bs s = Ok (b, s') \<Longrightarrow> pview s' = pview s"
  by (induction bs arbitrary: s) (auto split: option.splits dest!: pv)

lemma balloc_pv [pv]: "balloc d s = Ok (b, s') \<Longrightarrow> pview s' = pview s"
  by (auto simp: balloc_def dest!: pv)

lemma bfree_pv [pv]: "bfree d b s = Ok s' \<Longrightarrow> pview s' = pview s"
  by (auto simp: bfree_def Let_def split: if_splits dest!: pv)

lemma iupdate_pv [pv]: "iupdate ip s = Ok s' \<Longrightarrow> pview s' = pview s"
  by (auto simp: iupdate_def dest!: pv)

lemma acquiresleep_pv [pv]: "acquiresleep_inode ip s = Ok s' \<Longrightarrow> pview s' = pview s"
  by (auto simp: acquiresleep_inode_def split: if_splits)

lemma releasesleep_pv [simp]: "pview (releasesleep_inode ip s) = pview s"
  by (simp add: releasesleep_inode_def)

lemma ilock_pv [pv]: "ilock ip s = Ok s' \<Longrightarrow> pview s' = pview s"
  by (auto simp: ilock_def Let_def split: if_splits dest!: pv)

lemma iunlock_pv [pv]: "iunlock ip s = Ok s' \<Longrightarrow> pview s' = pview s"
  by (auto simp: iunlock_def split: if_splits)

lemma bmap_addr_pv [pv]: "bmap_addr ip k s = Ok (a, s') \<Longrightarrow> pview s' = pview s"
  by (auto simp: bmap_addr_def Let_def split: if_splits dest!: pv)

lemma bmap_pv [pv]: "bmap ip n s = Ok (a, s') \<Longrightarrow> pview s' = pview s"
  by (auto simp: bmap_def Let_def split: if_splits dest!: pv)

lemma rfold_pv:
  assumes "\<And>x s s'. f x s = Ok s' \<Longrightarrow> pview s' = pview s" "rfold f xs s = Ok s'"
  shows "pview s' = pview s"
  using assms(2) by (induction xs arbitrary: s) (auto dest: assms(1))

lemma itrunc_pv [pv]:
  assumes "itrunc ip s = Ok s'"
  shows "pview s' = pview s"
proof -
  let ?f = "\<lambda>k s. if i_addrs (itable s ! ip) ! k \<noteq> 0
    then rbind (bfree (i_dev (itable s ! ip)) (i_addrs (itable s ! ip) ! k) s) (\<lambda>s1. Ok (set_addr ip k 0 s1)) else Ok s"
  have direct: "rfold ?f xs s = Ok s' \<Longrightarrow> pview s' = pview s" for xs and s s' :: "'a fsst_scheme"
    by (erule rfold_pv [rotated]) (auto split: if_splits dest!: pv)
  have indirect: "rfold (\<lambda>j s. let a = get32 (4 * j) (bdata s bp) in
      if a \<noteq> 0 then bfree (i_dev (itable s ! ip)) a s else Ok s) xs s = Ok s' \<Longrightarrow> pview s' = pview s"
    for bp xs and s s' :: "'a fsst_scheme"
    by (erule rfold_pv [rotated]) (auto simp: Let_def split: if_splits dest!: pv)
  show ?thesis using assms unfolding itrunc_def
    by (auto simp del: neq0_conv split: if_splits dest!: pv direct indirect)
qed

lemma iput_pv [pv]: "iput ip s = Ok s' \<Longrightarrow> pview s' = pview s"
  by (auto simp: iput_def split: if_splits dest!: pv)

section \<open>Contents\<close>

lemmas kmem_pv [pv] = kframes [THEN pview_kframe]

lemma copy_to_pv [pv]: "copy_to dst bs s = (r, dst', s') \<Longrightarrow> pview s' = pview s"
  by (cases dst) (auto simp: either_copyout_def split: if_splits prod.splits dest!: pv)

lemma readi_loop_pv [pv]: "readi_loop ip dst off n tot s = Ok (r, dst', s') \<Longrightarrow> pview s' = pview s"
proof (induction ip dst off n tot s rule: readi_loop.induct)
  case (1 ip dst off n tot s)
  show ?case
  proof (cases "tot < n")
    case False
    then show ?thesis using "1.prems" by (simp add: readi_loop.simps [of ip dst off n tot s])
  next
    case True
    from "1.prems" True obtain a s1 bp s2 q dst1 s3 s4 where
      st: "bmap ip (off div BSIZE) s = Ok (a, s1)" "bread (i_dev (itable s1 ! ip)) a s1 = Ok (bp, s2)"
        "copy_to dst (slice (off mod BSIZE) (chunk_len (n - tot) off) (bdata s2 bp)) s2 = (q, dst1, s3)"
        "brelse bp s3 = Ok s4"
      and rest: "(if q = -1 then Ok (-1, dst1, s4)
        else readi_loop ip dst1 (off + chunk_len (n - tot) off) n (tot + chunk_len (n - tot) off) s4) = Ok (r, dst', s')"
      by (auto simp: readi_loop.simps [of ip dst off n tot s] Let_def split: prod.splits)
    have "pview s4 = pview s" using st by (auto dest!: pv)
    then show ?thesis using rest "1.IH" [OF True st(1) refl st(2) refl refl st(3) [symmetric] refl refl st(4)] by (auto split: if_splits)
  qed
qed

lemma writei_loop_pv [pv]: "writei_loop ip src off n tot s = Ok (r, off', s') \<Longrightarrow> pview s' = pview s"
proof (induction ip src off n tot s rule: writei_loop.induct)
  case (1 ip src off n tot s)
  show ?case
  proof (cases "tot < n")
    case False
    then show ?thesis using "1.prems" by (simp add: writei_loop.simps [of ip src off n tot s])
  next
    case True
    let ?m = "chunk_len (n - tot) off"
    from "1.prems" True obtain a s1 bp s2 q bs src1 where
      st: "bmap ip (off div BSIZE) s = Ok (a, s1)" "bread (i_dev (itable s1 ! ip)) a s1 = Ok (bp, s2)"
        "copy_from src ?m s2 = (q, bs, src1)"
      and rest: "(let s3 = set_data bp (splice (off mod BSIZE) bs (bdata s2 bp)) s2 in
        if q = -1 then rbind (brelse bp s3) (\<lambda>s4. Ok (tot, off, s4))
        else rbind (log_write bp s3) (\<lambda>s4. rbind (brelse bp s4) (\<lambda>s5. writei_loop ip src1 (off + ?m) n (tot + ?m) s5))) = Ok (r, off', s')"
      by (auto simp: writei_loop.simps [of ip src off n tot s] Let_def split: prod.splits)
    have p2: "pview s2 = pview s" using st(1,2) by (auto dest!: pv)
    show ?thesis
    proof (cases "q = -1")
      case True
      then show ?thesis using rest p2 by (auto simp: Let_def dest!: pv)
    next
      case False
      then obtain s4 s5 where w: "log_write bp (set_data bp (splice (off mod BSIZE) bs (bdata s2 bp)) s2) = Ok s4"
          "brelse bp s4 = Ok s5" "writei_loop ip src1 (off + ?m) n (tot + ?m) s5 = Ok (r, off', s')"
        using rest by (auto simp: Let_def)
      have "pview s5 = pview s" using w(1,2) p2 by (auto dest!: pv)
      then show ?thesis using "1.IH" [OF True st(1) refl st(2) refl refl st(3) [symmetric] refl refl refl False w(1,2,3)] by simp
    qed
  qed
qed

lemma readi_pv [pv]: "readi ip dst off n s = Ok (r, dst', s') \<Longrightarrow> pview s' = pview s"
  by (auto simp: readi_def Let_def split: if_splits dest!: pv)

lemma writei_pv [pv]: "writei ip src off n s = Ok (r, s') \<Longrightarrow> pview s' = pview s"
  by (auto simp: writei_def Let_def split: if_splits dest!: pv)

section \<open>Open files\<close>

lemma filedup_pv [pv]: "filedup f s = Ok s' \<Longrightarrow> pview s' = pview s"
  by (auto simp: filedup_def split: if_splits)

lemma pview_pipes [simp]: "pview (s\<lparr>pipes := ps\<rparr>) = pview s" "pview (upd_pipe pi f s) = pview s"
  by (simp_all add: pview_def upd_pipe_def)

lemma pipeclose_pv [pv]: "pipeclose pi w s = Ok s' \<Longrightarrow> pview s' = pview s"
  by (auto simp: pipeclose_def Let_def split: if_splits dest!: pv)

lemma fileclose_pv [pv]: "fileclose f s = Ok s' \<Longrightarrow> pview s' = pview s"
  by (auto simp: fileclose_def Let_def split: if_splits filetype.splits dest!: pv)

end
