(* ===== verification/Vma_Correct.thy ===== *)
theory Vma_Correct
  imports Fs_Frame
begin

text \<open>
  Correctness of \<^verbatim>\<open>mmap\<close> and \<^verbatim>\<open>munmap\<close>: the table of mappings of a process stays
  well-formed (\<open>vmas_ok\<close>: whole pages below the trapframe, pairwise disjoint, with a file and valid
  permissions), \<^verbatim>\<open>mmap\<close> adds one fresh range to the addresses it maps, and \<^verbatim>\<open>munmap\<close>
  removes exactly the range it is given.
\<close>

section \<open>Well-formed mappings\<close>

definition vma_range :: "vma \<Rightarrow> nat set" where
  "vma_range v = {unat (v_addr v)..<unat (v_addr v) + unat (v_length v)}"

definition mapped :: "vma list \<Rightarrow> nat set" where
  "mapped vs = (\<Union>v\<in>{v \<in> set vs. v_used v}. vma_range v)"

definition vma_ok :: "vma \<Rightarrow> bool" where
  "vma_ok v \<longleftrightarrow> page_aligned (v_addr v) \<and> page_aligned (v_length v) \<and> v_length v \<noteq> 0 \<and>
     unat (v_addr v) + unat (v_length v) \<le> unat (TRAPFRAME :: uint64) \<and> v_file v \<noteq> None \<and>
     v_prot v \<noteq> 0 \<and> v_prot v AND NOT (PROT_READ OR PROT_WRITE OR PROT_EXEC) = 0 \<and>
     (v_flags v = MAP_SHARED \<or> v_flags v = MAP_PRIVATE)"

definition vmas_ok :: "vma list \<Rightarrow> bool" where
  "vmas_ok vs \<longleftrightarrow> length vs = 16 \<and> (\<forall>v\<in>set vs. v_used v \<longrightarrow> vma_ok v) \<and>
     (\<forall>i<16. \<forall>j<16. i \<noteq> j \<longrightarrow> v_used (vs ! i) \<longrightarrow> v_used (vs ! j) \<longrightarrow> vma_range (vs ! i) \<inter> vma_range (vs ! j) = {})"

lemma vmas_okD:
  assumes "vmas_ok vs" "i < 16" "v_used (vs ! i)"
  shows "vma_ok (vs ! i)"
  using assms by (simp add: vmas_ok_def)

lemma mapped_nth: "a \<in> mapped vs \<longleftrightarrow> (\<exists>i<length vs. v_used (vs ! i) \<and> a \<in> vma_range (vs ! i))"
  unfolding mapped_def by (auto simp: in_set_conv_nth)

text \<open>Replacing one entry: the addresses of the other entries stay mapped, those of the entry go.\<close>

lemma mapped_update:
  assumes "vmas_ok vs" "i < 16"
  shows "mapped (vs[i := v]) =
    mapped vs - (if v_used (vs ! i) then vma_range (vs ! i) else {}) \<union> (if v_used v then vma_range v else {})"
proof (rule set_eqI)
  fix a
  have len: "length vs = 16" using assms(1) by (simp add: vmas_ok_def)
  have other: "a \<notin> vma_range (vs ! i)" if "j < 16" "j \<noteq> i" "v_used (vs ! j)" "a \<in> vma_range (vs ! j)" "v_used (vs ! i)" for j
    using assms(1,2) that unfolding vmas_ok_def by blast
  show "a \<in> mapped (vs[i := v]) \<longleftrightarrow> a \<in> mapped vs - (if v_used (vs ! i) then vma_range (vs ! i) else {}) \<union>
      (if v_used v then vma_range v else {})"
    using other assms(2) len by (auto simp: mapped_nth nth_list_update split: if_splits)
qed

lemma vmas_ok_update:
  assumes "vmas_ok vs" "i < 16" "v_used v \<Longrightarrow> vma_ok v"
    and "\<And>j. v_used v \<Longrightarrow> j < 16 \<Longrightarrow> j \<noteq> i \<Longrightarrow> v_used (vs ! j) \<Longrightarrow> vma_range v \<inter> vma_range (vs ! j) = {}"
  shows "vmas_ok (vs[i := v])"
  unfolding vmas_ok_def
proof (intro conjI ballI allI impI)
  have len: "length vs = 16" using assms(1) by (simp add: vmas_ok_def)
  then show "length (vs[i := v]) = 16" by simp
  show "vma_ok x" if "x \<in> set (vs[i := v])" "v_used x" for x
    using that assms(1,3) set_update_subset_insert [of vs i v] unfolding vmas_ok_def by blast
  show "vma_range (vs[i := v] ! j) \<inter> vma_range (vs[i := v] ! k) = {}"
    if jk: "j < 16" "k < 16" "j \<noteq> k" "v_used (vs[i := v] ! j)" "v_used (vs[i := v] ! k)" for j k
  proof -
    consider "j = i" "k \<noteq> i" | "k = i" "j \<noteq> i" | "j \<noteq> i" "k \<noteq> i" using jk(3) by blast
    then show ?thesis
    proof cases
      case 1
      then show ?thesis using jk assms(2) len assms(4) [of k] by simp
    next
      case 2
      then show ?thesis using jk assms(2) len assms(4) [of j] by (simp add: Int_commute)
    next
      case 3
      then show ?thesis using jk assms(1) unfolding vmas_ok_def by simp
    qed
  qed
qed

lemma vmas_ok_shrink:
  assumes "vmas_ok vs" "i < 16" "v_used (vs ! i)" "v_used v \<Longrightarrow> vma_ok v" "v_used v \<Longrightarrow> vma_range v \<subseteq> vma_range (vs ! i)"
  shows "vmas_ok (vs[i := v])"
proof (rule vmas_ok_update [OF assms(1,2,4)])
  show "vma_range v \<inter> vma_range (vs ! j) = {}" if "v_used v" "j < 16" "j \<noteq> i" "v_used (vs ! j)" for j
  proof -
    have "vma_range (vs ! i) \<inter> vma_range (vs ! j) = {}" using assms(1-3) that unfolding vmas_ok_def by metis
    then show ?thesis using assms(5) [OF that(1)] by blast
  qed
qed

section \<open>The address chosen by mmap\<close>

lemma vma_lowest_fold:
  assumes "page_aligned low" "\<And>v. v \<in> set vs \<Longrightarrow> v_used v \<Longrightarrow> page_aligned (v_addr v)"
  shows "page_aligned (foldl (\<lambda>low v. if v_used v \<and> v_addr v < low then v_addr v else low) low vs) \<and>
    foldl (\<lambda>low v. if v_used v \<and> v_addr v < low then v_addr v else low) low vs \<le> low \<and>
    (\<forall>v\<in>set vs. v_used v \<longrightarrow> foldl (\<lambda>low v. if v_used v \<and> v_addr v < low then v_addr v else low) low vs \<le> v_addr v)"
  using assms
proof (induction vs arbitrary: low)
  case (Cons v vs)
  let ?low = "if v_used v \<and> v_addr v < low then v_addr v else low"
  have "page_aligned ?low" using Cons.prems by simp
  from Cons.IH [OF this] Cons.prems(2)
  have ih: "page_aligned (foldl (\<lambda>low v. if v_used v \<and> v_addr v < low then v_addr v else low) ?low vs)"
    "foldl (\<lambda>low v. if v_used v \<and> v_addr v < low then v_addr v else low) ?low vs \<le> ?low"
    "\<forall>v\<in>set vs. v_used v \<longrightarrow> foldl (\<lambda>low v. if v_used v \<and> v_addr v < low then v_addr v else low) ?low vs \<le> v_addr v" by simp_all
  have "?low \<le> low" "v_used v \<longrightarrow> ?low \<le> v_addr v" by auto
  then show ?case using ih order_trans [OF ih(2)] by auto
qed simp

lemma vma_lowest:
  assumes "vmas_ok vs"
  shows "page_aligned (vma_lowest vs)" "vma_lowest vs \<le> TRAPFRAME" "\<And>v. v \<in> set vs \<Longrightarrow> v_used v \<Longrightarrow> vma_lowest vs \<le> v_addr v"
  using vma_lowest_fold [of TRAPFRAME vs] assms by (auto simp: vma_lowest_def vmas_ok_def vma_ok_def page_aligned_def)


lemma page_aligned_diff: "page_aligned a \<Longrightarrow> page_aligned b \<Longrightarrow> b \<le> a \<Longrightarrow> page_aligned (a - b)"
  by (simp add: page_aligned_unat unat_sub mod_eq_0_iff_dvd dvd_diff_nat)

lemma PGROUNDUP_length:
  assumes "len \<noteq> 0" "len \<le> MAXVA"
  shows "unat len \<le> unat (PGROUNDUP len)" "unat (PGROUNDUP len) < unat len + 4096" "PGROUNDUP len \<noteq> 0"
proof -
  have "unat len \<le> 0x4000000000" using assms(2) by (simp add: word_le_nat_alt)
  then have "unat (PGROUNDUP len) = (unat len + 4095) div 4096 * 4096" by (intro unat_PGROUNDUP) simp
  moreover have "0 < unat len" using assms(1) by (simp add: unat_gt_0)
  ultimately show "unat len \<le> unat (PGROUNDUP len)" "unat (PGROUNDUP len) < unat len + 4096" by linarith+
  then show "PGROUNDUP len \<noteq> 0" using \<open>0 < unat len\<close> by (metis unat_0 leD)
qed

lemma upd_vma_proc:
  "p < length (procs s) \<Longrightarrow> p_vmas (procs (upd_vma p i f s) ! p) = (p_vmas (procs s ! p))[i := f (p_vmas (procs s ! p) ! i)]"
  "q \<noteq> p \<Longrightarrow> procs (upd_vma p i f s) ! q = procs s ! q" "length (procs (upd_vma p i f s)) = length (procs s)"
  by (simp_all add: upd_vma_def upd_proc_def)

text \<open>
  The reasons for \<^verbatim>\<open>mmap\<close> to fail: bad arguments, no free entry, or no room between the memory of the
  process and its lowest mapping.
\<close>

definition mmap_rejects :: "uint64 \<Rightarrow> uint64 \<Rightarrow> uint32 \<Rightarrow> uint32 \<Rightarrow> nat \<Rightarrow> uint64 \<Rightarrow> 'a filest_scheme \<Rightarrow> bool" where
  "mmap_rejects req len prot flags f off s \<longleftrightarrow> \<not> mmap_ok req len prot flags (ftable s ! f) off \<or>
     (\<forall>v\<in>set (p_vmas (procs s ! cur s)). v_used v) \<or>
     unat (vma_lowest (p_vmas (procs s ! cur s))) < unat (PGROUNDUP len) + unat (PGROUNDUP (p_sz (procs s ! cur s)))"

lemma do_mmap_cases:
  assumes "do_mmap req len prot flags f off s = Ok (r, s')" "p = cur s" "vs = p_vmas (procs s ! p)"
  obtains (failed) "r = - 1" "s' = s" "mmap_rejects req len prot flags f off s"
  | (mapped) i s1 where "mmap_ok req len prot flags (ftable s ! f) off" "find_index (\<lambda>v. \<not> v_used v) vs = Some i"
      "PGROUNDUP len \<le> vma_lowest vs" "PGROUNDUP (p_sz (procs s ! p)) \<le> vma_lowest vs - PGROUNDUP len" "filedup f s = Ok s1"
      "r = vma_lowest vs - PGROUNDUP len"
      "s' = upd_vma p i (\<lambda>_. \<lparr>v_used = True, v_addr = r, v_length = PGROUNDUP len, v_prot = prot, v_flags = flags,
        v_file = Some f, v_offset = off\<rparr>) s1"
proof (cases "mmap_ok req len prot flags (ftable s ! f) off")
  case False
  then show thesis using assms(1) by (intro failed) (simp_all add: do_mmap_def Let_def mmap_rejects_def)
next
  case ok: True
  show thesis
  proof (cases "find_index (\<lambda>v. \<not> v_used v) vs")
    case None
    then have "mmap_rejects req len prot flags f off s" using assms(2,3) by (simp add: mmap_rejects_def find_index_None)
    then show thesis using None assms ok by (intro failed) (simp_all add: do_mmap_def Let_def)
  next
    case i: (Some i)
    show thesis
    proof (cases "PGROUNDUP len > vma_lowest vs \<or> vma_lowest vs - PGROUNDUP len < PGROUNDUP (p_sz (procs s ! p))")
      case True
      then have "unat (vma_lowest vs) < unat (PGROUNDUP len) + unat (PGROUNDUP (p_sz (procs s ! p)))"
        by (auto simp: word_less_nat_alt word_le_nat_alt unat_sub_if' split: if_splits)
      then have "mmap_rejects req len prot flags f off s" using assms(2,3) by (simp add: mmap_rejects_def)
      then show thesis using True assms ok i by (intro failed) (simp_all add: do_mmap_def Let_def)
    next
      case False
      note le = False [unfolded de_Morgan_disj not_less]
      have "rbind (filedup f s) (\<lambda>s1. Ok (vma_lowest vs - PGROUNDUP len,
          upd_vma p i (\<lambda>_. \<lparr>v_used = True, v_addr = vma_lowest vs - PGROUNDUP len, v_length = PGROUNDUP len, v_prot = prot,
            v_flags = flags, v_file = Some f, v_offset = off\<rparr>) s1)) = Ok (r, s')"
        using assms(1) unfolding do_mmap_def Let_def
        by (simp only: assms(2) [symmetric] assms(3) [symmetric] ok i if_not_P [OF False] option.case not_True_eq_False if_False)
      then obtain s1 where "filedup f s = Ok s1" "r = vma_lowest vs - PGROUNDUP len"
          "s' = upd_vma p i (\<lambda>_. \<lparr>v_used = True, v_addr = r, v_length = PGROUNDUP len, v_prot = prot, v_flags = flags,
            v_file = Some f, v_offset = off\<rparr>) s1" by (cases "filedup f s") auto
      then show thesis by (rule mapped [OF ok i conjunct1 [OF le] conjunct2 [OF le]])
    qed
  qed
qed

lemma do_mmap_ok:
  assumes "do_mmap req len prot flags f off s = Ok (r, s')" "p = cur s" "p < length (procs s)" "vmas_ok (p_vmas (procs s ! p))"
    and "vs = p_vmas (procs s ! p)" "vs' = p_vmas (procs s' ! p)" "rng = {unat r..<unat r + unat (PGROUNDUP len)}"
  shows "(r = - 1 \<and> s' = s \<and> mmap_rejects req len prot flags f off s) \<or>
    (vmas_ok vs' \<and> mapped vs' = mapped vs \<union> rng \<and> mapped vs \<inter> rng = {} \<and> page_aligned r \<and> unat len \<le> card rng \<and>
     unat (PGROUNDUP (p_sz (procs s ! p))) \<le> unat r \<and> unat r + unat (PGROUNDUP len) \<le> unat (TRAPFRAME :: uint64) \<and>
     ftable s' = (ftable s)[f := (ftable s ! f)\<lparr>f_ref := f_ref (ftable s ! f) + 1\<rparr>])"
proof -
  let ?len = "PGROUNDUP len" and ?low = "vma_lowest vs"
  from assms(1,2,5) show ?thesis
  proof (cases rule: do_mmap_cases)
    case (mapped i s1)
    let ?v = "\<lparr>v_used = True, v_addr = r, v_length = ?len, v_prot = prot, v_flags = flags, v_file = Some f, v_offset = off\<rparr>"
    have len: "len \<noteq> 0" "len \<le> MAXVA" and pf: "prot \<noteq> 0" "prot AND NOT (PROT_READ OR PROT_WRITE OR PROT_EXEC) = 0"
        "flags = MAP_SHARED \<or> flags = MAP_PRIVATE" using mapped(1) by (auto simp: mmap_ok_def not_less)
    have i: "i < 16" "\<not> v_used (vs ! i)" using find_index_Some [OF mapped(2)] assms(4,5) by (auto simp: vmas_ok_def)
    have ok: "vmas_ok vs" using assms(4,5) by simp
    note low = vma_lowest [OF ok]
    have r: "unat r = unat ?low - unat ?len" "unat ?len \<le> unat ?low" using mapped(3,6) by (simp_all add: unat_sub word_le_nat_alt)
    have lowle: "unat ?low \<le> unat (TRAPFRAME :: uint64)" using low(2) by (simp add: word_le_nat_alt)
    have vok: "vma_ok ?v" using low(1) mapped(3,6) r lowle pf PGROUNDUP_length(3) [OF len] by (simp add: vma_ok_def page_aligned_diff)
    have dis: "vma_range ?v \<inter> vma_range v = {}" if "v \<in> set vs" "v_used v" for v
    proof -
      have "unat ?low \<le> unat (v_addr v)" using low(3) [OF that] by (simp add: word_le_nat_alt)
      then show ?thesis using r by (auto simp: vma_range_def)
    qed
    have f: "procs s1 = procs s" "ftable s1 = (ftable s)[f := (ftable s ! f)\<lparr>f_ref := f_ref (ftable s ! f) + 1\<rparr>]"
      using mapped(5) by (auto simp: filedup_def upd_file_def split: if_splits)
    have vs': "vs' = vs[i := ?v]" using upd_vma_proc(1) [of p s1] f assms(3,5,6) mapped(7) by simp
    have "vmas_ok vs'" unfolding vs' using ok i vok dis by (intro vmas_ok_update) (auto simp: vmas_ok_def)
    moreover have "mapped vs' = mapped vs \<union> rng" unfolding vs' assms(7)
      using mapped_update [OF ok i(1), of ?v] i(2) by (simp add: vma_range_def)
    moreover have "rng = vma_range ?v" by (simp add: assms(7) vma_range_def)
    then have "mapped vs \<inter> rng = {}" using dis unfolding mapped_def by blast
    moreover have "unat len \<le> card rng" using PGROUNDUP_length(1) [OF len] by (simp add: assms(7))
    moreover have "unat (PGROUNDUP (p_sz (procs s ! p))) \<le> unat r" using mapped(4,6) by (simp add: word_le_nat_alt)
    moreover have "ftable s' = ftable s1" using mapped(7) by (simp add: upd_vma_def upd_proc_def)
    ultimately show ?thesis using vok r lowle f(2) by (simp add: vma_ok_def)
  qed simp
qed

section \<open>munmap\<close>

lemma vma_unmap_page_pv: "vma_unmap_page p i va (e, s) = Ok (e', s') \<Longrightarrow> pview s' = pview s"
  by (auto simp: vma_unmap_page_def Let_def split: if_splits option.splits dest!: pv)

lemma vma_unmap_pages_pv: "rfold (\<lambda>k. vma_unmap_page p i (g k)) ks (e, s) = Ok (e', s') \<Longrightarrow> pview s' = pview s"
proof (induction ks arbitrary: e s)
  case (Cons k ks)
  then obtain e1 s1 where "vma_unmap_page p i (g k) (e, s) = Ok (e1, s1)" "rfold (\<lambda>k. vma_unmap_page p i (g k)) ks (e1, s1) = Ok (e', s')"
    by auto
  then show ?case using Cons.IH vma_unmap_page_pv by metis
qed simp


lemma vma_unmap_cases:
  assumes "vma_unmap p addr len s = Ok (r, s')" "vs = p_vmas (procs s ! p)" "fin = addr + PGROUNDUP len" "p < length (procs s)"
  obtains (failed) "r = - 1" "s' = s" "addr mod PGSIZE \<noteq> 0 \<or> len = 0 \<or> len > MAXVA \<or> fin < addr \<or>
      (case find_index (\<lambda>v. v_used v \<and> addr \<ge> v_addr v \<and> fin \<le> v_addr v + v_length v) vs of
         None \<Rightarrow> True | Some i \<Rightarrow> addr \<noteq> v_addr (vs ! i) \<and> fin \<noteq> v_addr (vs ! i) + v_length (vs ! i))"
  | (unmapped) i v s1 where "addr mod PGSIZE = 0" "len \<noteq> 0" "len \<le> MAXVA" "addr \<le> fin"
      "find_index (\<lambda>v. v_used v \<and> addr \<ge> v_addr v \<and> fin \<le> v_addr v + v_length v) vs = Some i" "v = vs ! i"
      "addr = v_addr v \<or> fin = v_addr v + v_length v" "pview s1 = pview s"
      "s' = upd_vma p i (\<lambda>_. if addr = v_addr v \<and> fin = v_addr v + v_length v then vma0
         else if addr = v_addr v then v\<lparr>v_addr := fin, v_offset := v_offset v + PGROUNDUP len, v_length := v_length v - PGROUNDUP len\<rparr>
         else v\<lparr>v_length := v_length v - PGROUNDUP len\<rparr>) s1"
proof (cases "addr mod PGSIZE \<noteq> 0 \<or> len = 0 \<or> len > MAXVA \<or> fin < addr")
  case True
  then have "vma_unmap p addr len s = Ok (-1, s)" using assms(3) by (auto simp: vma_unmap_def Let_def)
  then show thesis using assms(1) True by (intro failed) auto
next
  case args: False
  show thesis
  proof (cases "find_index (\<lambda>v. v_used v \<and> addr \<ge> v_addr v \<and> fin \<le> v_addr v + v_length v) vs")
    case None
    then have "vma_unmap p addr len s = Ok (-1, s)" using assms(2,3) by (auto simp: vma_unmap_def Let_def)
    then show thesis using assms(1) None by (intro failed) simp_all
  next
    case i: (Some i)
    let ?v = "vs ! i"
    show thesis
    proof (cases "addr \<noteq> v_addr ?v \<and> fin \<noteq> v_addr ?v + v_length ?v")
      case True
      then have "vma_unmap p addr len s = Ok (-1, s)" using i assms(2,3) by (auto simp: vma_unmap_def vma_of_def Let_def)
      then show thesis using assms(1) True i by (intro failed) simp_all
    next
      case ends: False
      let ?fold = "rfold (\<lambda>k. vma_unmap_page p i (addr + of_nat k * PGSIZE)) [0..<unat (PGROUNDUP len) div 4096] (0, s)"
      let ?rest = "\<lambda>(error, s1). let v = vma_of p i s1 in
        if addr = v_addr v \<and> fin = v_addr v + v_length v then
          rbind (fileclose (the (v_file v)) s1) (\<lambda>s2. Ok (error, upd_vma p i (\<lambda>_. vma0) s2))
        else if addr = v_addr v then
          Ok (error, upd_vma p i (\<lambda>v. v\<lparr>v_addr := fin, v_offset := v_offset v + PGROUNDUP len, v_length := v_length v - PGROUNDUP len\<rparr>) s1)
        else Ok (error, upd_vma p i (\<lambda>v. v\<lparr>v_length := v_length v - PGROUNDUP len\<rparr>) s1)"
      have "vma_unmap p addr len s = rbind ?fold ?rest"
        using args ends i assms(2,3) unfolding vma_unmap_def Let_def vma_of_def by (simp only: de_Morgan_disj if_False simp_thms option.case)
      then obtain e s1 where st: "?fold = Ok (e, s1)" "?rest (e, s1) = Ok (r, s')" using assms(1) by (cases ?fold) auto
      have pv1: "pview s1 = pview s" using vma_unmap_pages_pv [OF st(1)] .
      have v: "p_vmas (procs s1 ! p) ! i = ?v" using pview_fields(1) [OF pv1 assms(4)] assms(2) by simp
      have const: "upd_vma p i f s1 = upd_vma p i (\<lambda>_. f ?v) s1" for f by (simp add: upd_vma_def upd_proc_def v)
      have args': "addr mod PGSIZE = 0" "len \<noteq> 0" "len \<le> MAXVA" "addr \<le> fin" using args by (auto simp: not_less)
      have ends': "addr = v_addr ?v \<or> fin = v_addr ?v + v_length ?v" using ends by blast
      show thesis
      proof (cases "addr = v_addr ?v \<and> fin = v_addr ?v + v_length ?v")
        case True
        then obtain s2 where "fileclose (the (v_file ?v)) s1 = Ok s2" "s' = upd_vma p i (\<lambda>_. vma0) s2"
          using st(2) by (cases "fileclose (the (v_file ?v)) s1") (auto simp: vma_of_def v Let_def)
        then show thesis using True fileclose_pv [of _ s1 s2] pv1 by (intro unmapped [OF args' i refl ends', of s2]) simp_all
      next
        case False
        then have "s' = upd_vma p i (\<lambda>_. if addr = v_addr ?v
            then ?v\<lparr>v_addr := fin, v_offset := v_offset ?v + PGROUNDUP len, v_length := v_length ?v - PGROUNDUP len\<rparr>
            else ?v\<lparr>v_length := v_length ?v - PGROUNDUP len\<rparr>) s1"
          using st(2) const [of "\<lambda>v. v\<lparr>v_length := v_length v - PGROUNDUP len\<rparr>"]
            const [of "\<lambda>v. v\<lparr>v_addr := fin, v_offset := v_offset v + PGROUNDUP len, v_length := v_length v - PGROUNDUP len\<rparr>"]
          by (simp add: vma_of_def v Let_def split: if_splits)
        then show thesis by (intro unmapped [OF args' i refl ends', of s1]) (simp_all only: if_not_P [OF False] pv1)
      qed
    qed
  qed
qed


text \<open>
  The reasons for \<^verbatim>\<open>munmap\<close> to fail: bad arguments, or no mapping of which the range is a beginning or
  an end.
\<close>

definition munmap_rejects :: "uint64 \<Rightarrow> uint64 \<Rightarrow> vma list \<Rightarrow> bool" where
  "munmap_rejects addr len vs \<longleftrightarrow> addr mod PGSIZE \<noteq> 0 \<or> len = 0 \<or> len > MAXVA \<or>
     \<not> (\<exists>v\<in>set vs. v_used v \<and> {unat addr..<unat addr + unat (PGROUNDUP len)} \<subseteq> vma_range v \<and>
         (addr = v_addr v \<or> unat addr + unat (PGROUNDUP len) = unat (v_addr v) + unat (v_length v)))"

lemma vma_found:
  assumes "vmas_ok vs" "j < 16" "v_used (vs ! j)" "{unat addr..<unat addr + unat len} \<subseteq> vma_range (vs ! j)" "0 < unat len"
  shows "find_index (\<lambda>v. v_used v \<and> addr \<ge> v_addr v \<and> addr + len \<le> v_addr v + v_length v) vs = Some j"
    and "unat (addr + len) = unat addr + unat len"
    and "unat (v_addr (vs ! j) + v_length (vs ! j)) = unat (v_addr (vs ! j)) + unat (v_length (vs ! j))"
proof -
  let ?P = "\<lambda>v. v_used v \<and> addr \<ge> v_addr v \<and> addr + len \<le> v_addr v + v_length v"
  have ends: "unat (v_addr v + v_length v) = unat (v_addr v) + unat (v_length v)" if "v_used v" "v \<in> set vs" for v
  proof -
    have "vma_ok v" using assms(1) that by (simp add: vmas_ok_def)
    then have "unat (v_addr v) + unat (v_length v) < 2 ^ 64" by (simp add: vma_ok_def)
    then show ?thesis by (simp add: unat_word_ariths)
  qed
  have js: "j < length vs" using assms(1,2) by (simp add: vmas_ok_def)
  show je: "unat (v_addr (vs ! j) + v_length (vs ! j)) = unat (v_addr (vs ! j)) + unat (v_length (vs ! j))"
    using ends [OF assms(3) nth_mem [OF js]] .
  have le: "unat (v_addr (vs ! j)) \<le> unat addr" "unat addr + unat len \<le> unat (v_addr (vs ! j)) + unat (v_length (vs ! j))"
    using assms(4,5) unfolding vma_range_def by (simp_all add: ivl_subset)
  show fin: "unat (addr + len) = unat addr + unat len"
    using le je unsigned_less [of "v_addr (vs ! j) + v_length (vs ! j)"] by (simp add: unat_word_ariths)
  have "?P (vs ! j)" using assms(3) le fin je by (simp add: word_le_nat_alt)
  then obtain i where i: "find_index ?P vs = Some i" using js find_index_None [of ?P vs] by (cases "find_index ?P vs") auto
  note pi = find_index_Some [OF i]
  have "i = j"
  proof (rule ccontr)
    assume "i \<noteq> j"
    then have "vma_range (vs ! i) \<inter> vma_range (vs ! j) = {}" using assms(1-3) pi unfolding vmas_ok_def by metis
    moreover have "unat addr \<in> vma_range (vs ! i)"
      using pi fin assms(5) ends [of "vs ! i"] by (auto simp: vma_range_def word_le_nat_alt)
    moreover have "unat addr \<in> vma_range (vs ! j)" using le assms(5) by (simp add: vma_range_def)
    ultimately show False by blast
  qed
  then show "find_index ?P vs = Some j" using i by simp
qed

lemma munmap_rejectsI:
  assumes "vmas_ok vs" "addr mod PGSIZE \<noteq> 0 \<or> len = 0 \<or> len > MAXVA \<or> addr + PGROUNDUP len < addr \<or>
      (case find_index (\<lambda>v. v_used v \<and> addr \<ge> v_addr v \<and> addr + PGROUNDUP len \<le> v_addr v + v_length v) vs of
         None \<Rightarrow> True | Some i \<Rightarrow> addr \<noteq> v_addr (vs ! i) \<and> addr + PGROUNDUP len \<noteq> v_addr (vs ! i) + v_length (vs ! i))"
  shows "munmap_rejects addr len vs"
proof (rule ccontr)
  let ?len = "PGROUNDUP len"
  assume "\<not> munmap_rejects addr len vs"
  then obtain j where arg: "addr mod PGSIZE = 0" "len \<noteq> 0" "len \<le> MAXVA" and j: "j < 16" "v_used (vs ! j)"
      "{unat addr..<unat addr + unat ?len} \<subseteq> vma_range (vs ! j)"
      "addr = v_addr (vs ! j) \<or> unat addr + unat ?len = unat (v_addr (vs ! j)) + unat (v_length (vs ! j))"
    using assms(1) by (auto simp: munmap_rejects_def vmas_ok_def in_set_conv_nth)
  have len: "0 < unat ?len" using PGROUNDUP_length(3) [OF arg(2,3)] by (simp add: unat_gt_0)
  note f = vma_found [OF assms(1) j(1-3) len]
  have "addr \<le> addr + ?len" using f(2) by (simp add: word_le_nat_alt)
  then have "addr \<noteq> v_addr (vs ! j)" "addr + ?len \<noteq> v_addr (vs ! j) + v_length (vs ! j)" using assms(2) arg f(1) by (auto simp: not_less)
  then show False using j(4) f(2,3) by (simp add: word_unat_eq_iff)
qed

lemma vma_unmap_ok:
  assumes "vma_unmap p addr len s = Ok (r, s')" "p < length (procs s)" "vmas_ok vs"
    and "vs = p_vmas (procs s ! p)" "vs' = p_vmas (procs s' ! p)" "rng = {unat addr..<unat addr + unat (PGROUNDUP len)}"
  shows "(r = - 1 \<and> s' = s \<and> munmap_rejects addr len vs) \<or> (vmas_ok vs' \<and> rng \<noteq> {} \<and> rng \<subseteq> mapped vs \<and> mapped vs' = mapped vs - rng)"
  using assms(1,4) refl assms(2)
proof (cases rule: vma_unmap_cases)
  case (unmapped i v s1)
  let ?fin = "addr + PGROUNDUP len" and ?len = "PGROUNDUP len"
  let ?v = "if addr = v_addr v \<and> ?fin = v_addr v + v_length v then vma0
         else if addr = v_addr v then v\<lparr>v_addr := ?fin, v_offset := v_offset v + ?len, v_length := v_length v - ?len\<rparr>
         else v\<lparr>v_length := v_length v - ?len\<rparr>"
  have i: "i < 16" "v_used v" "v_addr v \<le> addr" "?fin \<le> v_addr v + v_length v"
    using find_index_Some [OF unmapped(5)] assms(3) unmapped(6) by (auto simp: vmas_ok_def)
  have ok: "vma_ok v" using vmas_okD [OF assms(3) i(1)] i(2) unmapped(6) by simp
  have "unat (v_addr v) + unat (v_length v) < 2 ^ 64" using ok by (simp add: vma_ok_def)
  then have e: "unat (v_addr v + v_length v) = unat (v_addr v) + unat (v_length v)" by (simp add: unat_word_ariths)
  have len: "0 < unat ?len" using PGROUNDUP_length(3) [OF unmapped(2,3)] by (simp add: unat_gt_0)
  have f: "unat ?fin = unat addr + unat ?len" using unmapped(4) unat_plus_simple by blast
  have le: "unat (v_addr v) \<le> unat addr" "unat addr + unat ?len \<le> unat (v_addr v) + unat (v_length v)"
    using i(3,4) e f by (simp_all add: word_le_nat_alt)
  have sub: "unat (v_length v - ?len) = unat (v_length v) - unat ?len" using le by (simp add: unat_sub word_le_nat_alt)
  have al: "page_aligned addr" using unmapped(1) by (simp add: page_aligned_def)
  have v: "(v_used ?v \<longrightarrow> vma_ok ?v) \<and> (if v_used ?v then vma_range ?v else {}) = vma_range v - rng"
  proof (cases "addr = v_addr v")
    case start: True
    show ?thesis
    proof (cases "?fin = v_addr v + v_length v")
      case True
      then have "unat ?len = unat (v_length v)" using start e f by simp
      then show ?thesis using start True by (simp add: vma0_def assms(6) vma_range_def)
    next
      case False
      then have "?len \<noteq> v_length v" using start by auto
      then have "unat ?len \<noteq> unat (v_length v)" by (simp only: word_unat_eq_iff not_False_eq_True)
      then have lt: "unat ?len < unat (v_length v)" using start le by simp
      have "v_length v - ?len \<noteq> 0" using sub lt by (metis unat_0 zero_less_diff less_irrefl)
      moreover have "page_aligned ?fin" using al f page_aligned_PGROUNDUP [of len]
        unfolding page_aligned_unat by (simp add: mod_add_eq [symmetric])
      moreover have "page_aligned (v_length v - ?len)" using ok lt by (intro page_aligned_diff) (simp_all add: vma_ok_def word_le_nat_alt)
      ultimately show ?thesis using start False i(2) ok le sub f lt
        by (simp add: vma_ok_def assms(6) vma_range_def)
    qed
  next
    case False
    then have fin: "unat addr + unat ?len = unat (v_addr v) + unat (v_length v)" using unmapped(7) e f by simp
    have "unat (v_addr v) < unat addr" using False le(1) by (metis word_unat_eq_iff le_neq_implies_less)
    then have lt: "unat ?len < unat (v_length v)" using fin by simp
    have "v_length v - ?len \<noteq> 0" using sub lt by (metis unat_0 zero_less_diff less_irrefl)
    moreover have "page_aligned (v_length v - ?len)" using ok lt by (intro page_aligned_diff) (simp_all add: vma_ok_def word_le_nat_alt)
    ultimately show ?thesis using False i(2) ok le sub lt fin by (simp add: vma_ok_def assms(6) vma_range_def) auto
  qed
  have vs': "vs' = vs[i := ?v]"
    using upd_vma_proc(1) [of p s1] pview_proc(1) [OF unmapped(8)] pview_fields(1) [OF unmapped(8) assms(2)] assms(2,4,5) unmapped(9) by simp
  have R: "rng \<subseteq> vma_range v" "rng \<noteq> {}" using le len by (auto simp: assms(6) vma_range_def)
  have M: "vma_range v \<subseteq> mapped vs" using i(1,2) assms(3) unmapped(6) by (auto simp: mapped_nth vmas_ok_def)
  have "vmas_ok vs'" unfolding vs' by (rule vmas_ok_shrink [OF assms(3) i(1)]) (use v i(2) unmapped(6) in \<open>auto split: if_splits\<close>)
  moreover have "mapped vs' = mapped vs - vma_range v \<union> (vma_range v - rng)"
    unfolding vs' using mapped_update [OF assms(3) i(1), of ?v] v i(2) unmapped(6) by simp
  ultimately show ?thesis using R M by blast
qed (simp add: munmap_rejectsI [OF assms(3)])


section \<open>Other operations\<close>

lemma vma_unmap_other:
  assumes "vma_unmap p addr len s = Ok (r, s')" "p < length (procs s)" "q < length (procs s)"
  shows "length (procs s') = length (procs s)" "q \<noteq> p \<Longrightarrow> p_vmas (procs s' ! q) = p_vmas (procs s ! q)"
proof -
  from assms(1) refl refl assms(2)
  have "length (procs s') = length (procs s) \<and> (q \<noteq> p \<longrightarrow> p_vmas (procs s' ! q) = p_vmas (procs s ! q))"
  proof (cases rule: vma_unmap_cases)
    case (unmapped i v s1)
    show ?thesis unfolding unmapped(9)
      using pview_proc(1) [OF unmapped(8)] pview_fields(1) [OF unmapped(8) assms(3)] by (simp add: upd_vma_proc)
  qed simp
  then show "length (procs s') = length (procs s)" "q \<noteq> p \<Longrightarrow> p_vmas (procs s' ! q) = p_vmas (procs s ! q)" by blast+
qed

lemma vma_fault_pv [pv]: "vma_fault p va c s = Ok (r, s') \<Longrightarrow> pview s' = pview s"
  by (auto simp: vma_fault_def Let_def split: if_splits option.splits prod.splits dest!: pv)


text \<open>The mappings of all processes.\<close>

definition vview :: "'a pstate_scheme \<Rightarrow> vma list list" where
  "vview s = map p_vmas (procs s)"

lemma vview_upd_proc: "(\<And>q. p_vmas (f q) = p_vmas q) \<Longrightarrow> vview (upd_proc p f s) = vview s"
  by (cases "p < length (procs s)") (simp_all add: vview_def upd_proc_def map_update list_update_beyond list_update_same_conv)

lemma vview_pview:
  assumes "pview s' = pview s"
  shows "vview s' = vview s"
  unfolding vview_def by (rule nth_equalityI) (simp_all add: pview_proc(1) [OF assms] pview_fields(1) [OF assms])

lemmas vview_pv = pv [THEN vview_pview]

lemma vview_fields [simp]: "vview (s\<lparr>mem := m\<rparr>) = vview s" "vview (s\<lparr>nextpid := n\<rparr>) = vview s" "vview (upd_inode i g s2) = vview s2"
  by (simp_all add: vview_def upd_inode_def)

lemma vview_vma: "p < length (procs s) \<Longrightarrow> vview (upd_vma p i f s) = (vview s)[p := (p_vmas (procs s ! p))[i := f (p_vmas (procs s ! p) ! i)]]"
  by (simp add: vview_def upd_vma_def upd_proc_def map_update)

lemma proc_freepagetable_vv: "proc_freepagetable pt sz s = Ok s' \<Longrightarrow> vview s' = vview s"
  by (auto simp: proc_freepagetable_def dest!: vview_pv)

lemma proc_pagetable_vv: "proc_pagetable p s = Ok (pt, s') \<Longrightarrow> vview s' = vview s"
  by (auto simp: proc_pagetable_def Let_def split: if_splits prod.splits dest!: vview_pv)

lemma freeproc_vv: "freeproc p s = Ok s' \<Longrightarrow> vview s' = vview s"
  by (auto simp: freeproc_def Let_def vview_upd_proc split: if_splits dest!: vview_pv proc_freepagetable_vv)

lemma allocproc_vv:
  assumes "allocproc s = Ok (r, s')"
  shows "vview s' = vview s \<or> (\<exists>p<length (procs s). vview s' = (vview s)[p := replicate 16 vma0])"
    and "r = Some np \<Longrightarrow> np < length (procs s) \<and> p_state (procs s ! np) = UNUSED \<and> vview s' = (vview s)[np := replicate 16 vma0]"
proof -
  have *: "(r = None \<and> vview s' = vview s) \<or>
    (\<exists>p<length (procs s). (r = None \<or> r = Some p) \<and> p_state (procs s ! p) = UNUSED \<and> vview s' = (vview s)[p := replicate 16 vma0])"
  proof (cases "find_index (\<lambda>q. p_state q = UNUSED) (procs s)")
    case None
    then show ?thesis using assms by (simp add: allocproc_def)
  next
    case (Some p)
    let ?s2 = "upd_proc p (\<lambda>q. q\<lparr>p_pid := fst (allocpid s), p_state := USED, p_vmas := replicate 16 vma0\<rparr>) (snd (allocpid s))"
    have p: "p < length (procs s)" "p_state (procs s ! p) = UNUSED" using find_index_Some [OF Some] by simp_all
    then have v2: "vview ?s2 = (vview s)[p := replicate 16 vma0]"
      by (simp add: vview_def upd_proc_def allocpid_def map_update)
    have "vview s' = vview ?s2 \<and> (r = None \<or> r = Some p)"
      using assms Some unfolding allocproc_def
      by (auto simp: Let_def vview_upd_proc split: if_splits prod.splits dest!: vview_pv proc_pagetable_vv freeproc_vv)
    then show ?thesis using v2 p by auto
  qed
  then show "vview s' = vview s \<or> (\<exists>p<length (procs s). vview s' = (vview s)[p := replicate 16 vma0])" by blast
  show "r = Some np \<Longrightarrow> np < length (procs s) \<and> p_state (procs s ! np) = UNUSED \<and> vview s' = (vview s)[np := replicate 16 vma0]" using * by auto
qed


definition all_ok :: "'a pstate_scheme \<Rightarrow> bool" where
  "all_ok s \<longleftrightarrow> (\<forall>vs\<in>set (vview s). vmas_ok vs)"

lemma all_ok_nth: "all_ok s \<longleftrightarrow> (\<forall>p<length (procs s). vmas_ok (p_vmas (procs s ! p)))"
  by (simp add: all_ok_def vview_def all_set_conv_all_nth)

lemma all_ok_cong: "vview s' = vview s \<Longrightarrow> all_ok s' = all_ok s"
  by (simp add: all_ok_def)

lemma all_ok_update: "all_ok s \<Longrightarrow> vview s' = (vview s)[p := vs] \<Longrightarrow> vmas_ok vs \<Longrightarrow> all_ok s'"
  using set_update_subset_insert [of "vview s" p vs] by (auto simp: all_ok_def)

lemma vmas_ok_empty: "vmas_ok (replicate 16 vma0)"
  by (simp add: vmas_ok_def vma0_def)

lemma vma_unmap_all_ok:
  assumes "vma_unmap p addr len s = Ok (r, s')" "all_ok s" "p < length (procs s)"
  shows "all_ok s'"
  unfolding all_ok_nth
proof (intro allI impI)
  fix q assume "q < length (procs s')"
  then have q: "q < length (procs s)" using vma_unmap_other(1) [OF assms(1,3,3)] by simp
  have ok: "vmas_ok (p_vmas (procs s ! p))" "vmas_ok (p_vmas (procs s ! q))" using assms(2,3) q unfolding all_ok_nth by blast+
  show "vmas_ok (p_vmas (procs s' ! q))"
  proof (cases "q = p")
    case True
    then show ?thesis using vma_unmap_ok [OF assms(1,3) ok(1) refl refl refl] ok by auto
  next
    case False
    then show ?thesis using vma_unmap_other(2) [OF assms(1,3) q] ok(2) by simp
  qed
qed

lemma do_mmap_all_ok:
  assumes "do_mmap req len prot flags f off s = Ok (r, s')" "all_ok s" "cur s < length (procs s)"
  shows "all_ok s'"
proof -
  have ok: "vmas_ok (p_vmas (procs s ! cur s))" using assms(2,3) unfolding all_ok_nth by blast
  from assms(1) refl refl show ?thesis
  proof (cases rule: do_mmap_cases)
    case (mapped i s1)
    note fd = filedup_pv [OF mapped(5)]
    have v1: "vview s1 = vview s" "length (procs s1) = length (procs s)" by (rule vview_pview [OF fd], rule pview_proc(1) [OF fd])
    have "vmas_ok (p_vmas (procs s' ! cur s))"
      using do_mmap_ok [OF assms(1) refl assms(3) ok refl refl refl] ok by auto
    moreover have "vview s' = (vview s)[cur s := p_vmas (procs s' ! cur s)]"
      using vview_vma [of "cur s" s1] upd_vma_proc(1) [of "cur s" s1] assms(3) v1 mapped(7) by simp
    ultimately show ?thesis using all_ok_update [OF assms(2)] by blast
  qed (use assms(2) in simp)
qed

section \<open>fork, exit and sbrk\<close>

text \<open>The child's table is a part of the parent's.\<close>

definition sub_vmas :: "vma list \<Rightarrow> vma list \<Rightarrow> bool" where
  "sub_vmas w vs \<longleftrightarrow> length w = 16 \<and> (\<forall>i<16. v_used (w ! i) \<longrightarrow> w ! i = vs ! i)"

lemma sub_vmas_ok:
  assumes "sub_vmas w vs" "vmas_ok vs"
  shows "vmas_ok w"
proof -
  have w: "length w = 16" "\<And>i. i < 16 \<Longrightarrow> v_used (w ! i) \<Longrightarrow> w ! i = vs ! i" using assms(1) by (simp_all add: sub_vmas_def)
  show ?thesis unfolding vmas_ok_def
  proof (intro conjI ballI allI impI)
    show "vma_ok v" if "v \<in> set w" "v_used v" for v
      using that w vmas_okD [OF assms(2)] by (metis in_set_conv_nth)
    show "vma_range (w ! i) \<inter> vma_range (w ! j) = {}" if "i < 16" "j < 16" "i \<noteq> j" "v_used (w ! i)" "v_used (w ! j)" for i j
      using that w(2) assms(2) unfolding vmas_ok_def by metis
  qed (rule w(1))
qed

lemma fork_vmas_step:
  assumes "(let v = vma_of p i s in if v_used v then rbind (filedup (the (v_file v)) (upd_vma np i (\<lambda>_. v) s)) (\<lambda>s1. Ok s1) else Ok s) = Ok s'"
    and "vview s = (vview0)[np := w]" "np < length vview0" "np \<noteq> p" "p < length vview0" "sub_vmas w (vview0 ! p)" "i < 16"
  shows "\<exists>w'. vview s' = vview0[np := w'] \<and> sub_vmas w' (vview0 ! p)"
proof -
  have len: "length (procs s) = length vview0" using assms(2) by (metis length_list_update length_map vview_def)
  have vp: "p_vmas (procs s ! p) = vview0 ! p" "p_vmas (procs s ! np) = w"
    using arg_cong [OF assms(2), of "\<lambda>l. l ! p"] arg_cong [OF assms(2), of "\<lambda>l. l ! np"] assms(3,4,5) len by (simp_all add: vview_def)
  show ?thesis
  proof (cases "v_used (vview0 ! p ! i)")
    case True
    then obtain s1 where "filedup (the (v_file (vview0 ! p ! i))) (upd_vma np i (\<lambda>_. vview0 ! p ! i) s) = Ok s1" "s' = s1"
      using assms(1) vp by (auto simp: vma_of_def Let_def)
    then have "vview s' = vview (upd_vma np i (\<lambda>_. vview0 ! p ! i) s)" by (auto dest!: vview_pv)
    also have "\<dots> = vview0[np := w[i := vview0 ! p ! i]]" using vview_vma [of np s i] len assms(2,3) vp(2) by simp
    finally have "vview s' = vview0[np := w[i := vview0 ! p ! i]]" .
    moreover have "sub_vmas (w[i := vview0 ! p ! i]) (vview0 ! p)" using assms(6,7) by (simp add: sub_vmas_def nth_list_update)
    ultimately show ?thesis by blast
  next
    case False
    then show ?thesis using assms(1,2,6) vp by (auto simp: vma_of_def Let_def)
  qed
qed


lemma fork_vmas_vv:
  assumes "fork_vmas p np s = Ok s'" "vview s = vview0[np := w]" "np < length vview0" "np \<noteq> p" "p < length vview0"
    and "sub_vmas w (vview0 ! p)"
  shows "\<exists>w'. vview s' = vview0[np := w'] \<and> sub_vmas w' (vview0 ! p)"
proof -
  let ?f = "\<lambda>i s. let v = vma_of p i s in if v_used v then rbind (filedup (the (v_file v)) (upd_vma np i (\<lambda>_. v) s)) (\<lambda>s1. Ok s1) else Ok s"
  have main: "\<exists>w'. vview s' = vview0[np := w'] \<and> sub_vmas w' (vview0 ! p)"
    if "rfold ?f is s = Ok s'" "set is \<subseteq> {..<16}" "vview s = vview0[np := w]" "sub_vmas w (vview0 ! p)" for "is" w and s :: "'a filest_scheme"
    using that
  proof (induction "is" arbitrary: s w)
    case (Cons i "is")
    then obtain s1 where s1: "?f i s = Ok s1" "rfold ?f is s1 = Ok s'" by (cases "?f i s") auto
    have "i < 16" using Cons.prems(2) by simp
    then obtain w1 where "vview s1 = vview0[np := w1]" "sub_vmas w1 (vview0 ! p)"
      using fork_vmas_step [OF s1(1) Cons.prems(3) assms(3,4,5) Cons.prems(4)] by blast
    then show ?case using Cons.IH [OF s1(2)] Cons.prems(2) by simp
  qed auto
  from assms(1) show ?thesis unfolding fork_vmas_def by (rule main [OF _ _ assms(2,6)]) auto
qed

lemma fork_files_vv: "fork_files p np s = Ok s' \<Longrightarrow> vview s' = vview s"
proof -
  let ?f = "\<lambda>i s. case p_ofile (procs s ! p) ! i of None \<Rightarrow> Ok s
    | Some f \<Rightarrow> rbind (filedup f s) (\<lambda>s1. Ok (upd_proc np (\<lambda>q. q\<lparr>p_ofile := (p_ofile q)[i := Some f]\<rparr>) s1))"
  have "rfold ?f is s = Ok s' \<Longrightarrow> vview s' = vview s" for "is" and s :: "'a filest_scheme"
    by (induction "is" arbitrary: s) (auto simp: vview_upd_proc split: option.splits dest!: vview_pv)
  then show "fork_files p np s = Ok s' \<Longrightarrow> vview s' = vview s" by (simp add: fork_files_def)
qed

lemma set_pname_vv: "set_pname p nm s = Ok s' \<Longrightarrow> vview s' = vview s"
  by (auto simp: set_pname_def vview_upd_proc split: option.splits)

lemma fork_all_ok:
  assumes "fork s = Ok (r, s')" "all_ok s" "p = the (myproc s)" "p < length (procs s)" "p_state (procs s ! p) \<noteq> UNUSED"
  shows "all_ok s'"
proof -
  obtain a s1 where a: "allocproc s = Ok (a, s1)" using assms(1) by (cases "allocproc s") (auto simp: fork_def Let_def)
  note al = allocproc_vv [OF a]
  have ok1: "all_ok s1" using al(1) assms(2) all_ok_update [OF assms(2) _ vmas_ok_empty] all_ok_cong by blast
  show ?thesis
  proof (cases a)
    case None
    then show ?thesis using assms(1) a ok1 by (simp add: fork_def Let_def)
  next
    case (Some np)
    have np: "np < length (procs s)" "np \<noteq> p" "vview s1 = (vview s)[np := replicate 16 vma0]"
      using al(2) [OF Some] assms(5) by auto
    obtain e s2 where u: "uvmcopy (p_pagetable (procs s1 ! p)) (p_pagetable (procs s1 ! np)) (p_sz (procs s1 ! p)) s1 = Ok (e, s2)"
      using assms(1,3) a Some by (cases "uvmcopy (p_pagetable (procs s1 ! p)) (p_pagetable (procs s1 ! np)) (p_sz (procs s1 ! p)) s1")
        (auto simp: fork_def Let_def)
    have v2: "vview s2 = vview s1" using u by (auto dest!: vview_pv)
    show ?thesis
    proof (cases "e < 0")
      case True
      then have "vview s' = vview s2" using assms(1,3) a Some u by (auto simp: fork_def Let_def dest!: freeproc_vv)
      then show ?thesis using v2 ok1 all_ok_cong by metis
    next
      case False
      let ?s5 = "tf_set np TF_A0 0 (let s3 = upd_proc np (\<lambda>q. q\<lparr>p_sz := p_sz (procs s2 ! p)\<rparr>) s2 in
        s3\<lparr>mem := mstore (p_trapframe (procs s3 ! np)) (mload 288 (p_trapframe (procs s3 ! p)) (mem s3)) (mem s3)\<rparr>)"
      have v5: "vview ?s5 = vview s2" by (simp add: tf_set_def Let_def vview_upd_proc)
      obtain s6 s7 where f: "fork_files p np ?s5 = Ok s6" "fork_vmas p np s6 = Ok s7"
        and s': "vview s' = vview s7"
        using assms(1,3) a Some u False
        by (cases "fork_files p np ?s5"; cases "fork_vmas p np s6") (auto simp: fork_def Let_def idup_def vview_upd_proc dest!: set_pname_vv)
      have "vview s6 = (vview s)[np := replicate 16 vma0]" using fork_files_vv [OF f(1)] v5 v2 np(3) by simp
      moreover have "sub_vmas (replicate 16 vma0) (vview s ! p)" by (simp add: sub_vmas_def vma0_def)
      ultimately obtain w where w: "vview s7 = (vview s)[np := w]" "sub_vmas w (vview s ! p)"
        using fork_vmas_vv [OF f(2), of "vview s"] np(1,2) assms(4) by (auto simp: vview_def)
      have "vmas_ok (vview s ! p)" using assms(2,4) by (simp add: all_ok_nth vview_def)
      then show ?thesis using all_ok_update [OF assms(2)] sub_vmas_ok [OF w(2)] w(1) s' by metis
    qed
  qed
qed

lemma vview_wakeup [simp]: "vview (wakeup ch s) = vview s"
  by (rule vview_pview [OF pview_wakeup])

lemma vview_cpus [simp]: "vview (s\<lparr>cpus := cs\<rparr>) = vview s"
  by (simp add: vview_def)

lemma reparent_vv: "vview (reparent p s) = vview s"
proof -
  let ?f = "\<lambda>s i. if p_parent (procs s ! i) = Some p
    then let s1 = upd_proc i (\<lambda>q. q\<lparr>p_parent := initproc s\<rparr>) s
         in case initproc s1 of None \<Rightarrow> wakeup NoChan s1 | Some ip \<Rightarrow> wakeup (ChProc ip) s1
    else s"
  have "vview (foldl ?f s is) = vview s" for s :: "'a pstate_scheme" and "is"
    by (induction "is" arbitrary: s) (simp_all add: Let_def vview_upd_proc split: option.split)
  then show ?thesis by (simp add: reparent_def)
qed

lemma exit_sched_vv: "exit_sched p st s = Ok s' \<Longrightarrow> vview s' = vview s"
  by (auto simp: exit_sched_def sched_def Let_def vview_upd_proc reparent_vv split: option.splits if_splits)


lemma vma_unmap_all_all_ok:
  assumes "vma_unmap_all p s = Ok s'" "all_ok s" "p < length (procs s)"
  shows "all_ok s' \<and> length (procs s') = length (procs s)"
proof -
  let ?f = "\<lambda>i s. let v = vma_of p i s in
    if v_used v then rbind (vma_unmap p (v_addr v) (v_length v) s) (\<lambda>(_, s1). Ok s1) else Ok s"
  have "all_ok s' \<and> length (procs s') = length (procs s)"
    if "rfold ?f is s = Ok s'" "all_ok s" "p < length (procs s)" for "is" and s :: "'a filest_scheme"
    using that
  proof (induction "is" arbitrary: s)
    case (Cons i "is")
    then obtain s1 where s1: "?f i s = Ok s1" "rfold ?f is s1 = Ok s'" by (cases "?f i s") auto
    have "all_ok s1 \<and> length (procs s1) = length (procs s)"
      using s1(1) Cons.prems(2,3) by (auto simp: Let_def split: if_splits dest: vma_unmap_all_ok vma_unmap_other(1))
    then show ?case using Cons.IH [OF s1(2)] Cons.prems(3) by simp
  qed simp
  then show ?thesis using assms by (simp add: vma_unmap_all_def)
qed

lemma exit_files_vv: "exit_files p s = Ok s' \<Longrightarrow> vview s' = vview s"
proof -
  let ?f = "\<lambda>fd s. case p_ofile (procs s ! p) ! fd of None \<Rightarrow> Ok s
    | Some f \<Rightarrow> rbind (fileclose f s) (\<lambda>s1. Ok (upd_proc p (\<lambda>q. q\<lparr>p_ofile := (p_ofile q)[fd := None]\<rparr>) s1))"
  have "rfold ?f is s = Ok s' \<Longrightarrow> vview s' = vview s" for "is" and s :: "'a filest_scheme"
    by (induction "is" arbitrary: s) (auto simp: vview_upd_proc split: option.splits dest!: vview_pv)
  then show "exit_files p s = Ok s' \<Longrightarrow> vview s' = vview s" by (simp add: exit_files_def)
qed

lemma exit_all_ok:
  assumes "exit st s = Ok s'" "all_ok s" "the (myproc s) < length (procs s)"
  shows "all_ok s'"
proof -
  let ?p = "the (myproc s)"
  obtain s1 where s1: "vma_unmap_all ?p s = Ok s1" using assms(1) by (cases "vma_unmap_all ?p s") (auto simp: exit_def Let_def split: if_splits)
  have "all_ok s1" using vma_unmap_all_all_ok [OF s1 assms(2,3)] by blast
  moreover have "vview s' = vview s1"
    using assms(1) s1 by (auto simp: exit_def Let_def vview_upd_proc split: if_splits dest!: vview_pv exit_files_vv exit_sched_vv)
  ultimately show ?thesis using all_ok_cong by metis
qed

lemma growproc_vv: "growproc p n s = Ok (r, s') \<Longrightarrow> vview s' = vview s"
  by (auto simp: growproc_def Let_def vview_upd_proc split: if_splits dest!: vview_pv)


section \<open>Properties\<close>



text \<open>
  The steps that touch mappings, by the running process where it is one; \<open>others\<close> are those that
  leave all tables of mappings alone.
\<close>

definition runs :: "'a pstate_scheme \<Rightarrow> bool" where
  "runs s \<longleftrightarrow> cur s < length (procs s) \<and> p_state (procs s ! cur s) \<noteq> UNUSED"

inductive vma_step :: "'a filest_scheme \<Rightarrow> 'a filest_scheme \<Rightarrow> bool" where
  mmaps: "do_mmap req len prot flags f off s = Ok (r, s') \<Longrightarrow> runs s \<Longrightarrow> vma_step s s'"
| munmaps: "vma_unmap (cur s) addr len s = Ok (r, s') \<Longrightarrow> runs s \<Longrightarrow> vma_step s s'"
| faults: "vma_fault (cur s) va cause s = Ok (r, s') \<Longrightarrow> vma_step s s'"
| forks: "fork s = Ok (r, s') \<Longrightarrow> runs s \<Longrightarrow> vma_step s s'"
| exits: "exit st s = Ok s' \<Longrightarrow> runs s \<Longrightarrow> vma_step s s'"
| sbrks: "growproc (cur s) n s = Ok (r, s') \<Longrightarrow> vma_step s s'"
| others: "map p_vmas (procs s') = map p_vmas (procs s) \<Longrightarrow> vma_step s s'"

inductive vma_reach :: "'a filest_scheme \<Rightarrow> bool" where
  start: "(\<And>q. q \<in> set (procs s) \<Longrightarrow> p_vmas q = replicate 16 vma0) \<Longrightarrow> vma_reach s"
| step: "vma_reach s \<Longrightarrow> vma_step s s' \<Longrightarrow> vma_reach s'"

lemma vma_step_ok:
  assumes "vma_step s s'" "all_ok s"
  shows "all_ok s'"
  using assms
proof cases
  case (faults va cause r)
  then show ?thesis using assms(2) all_ok_cong [OF vview_pview [OF vma_fault_pv]] by blast
next
  case (sbrks n r)
  then show ?thesis using assms(2) all_ok_cong [OF growproc_vv] by blast
next
  case others
  then show ?thesis using assms(2) all_ok_cong [of s' s] by (simp add: vview_def)
qed (auto simp: runs_def cur_def intro: do_mmap_all_ok vma_unmap_all_ok fork_all_ok exit_all_ok)

lemma vma_reach_ok: "vma_reach s \<Longrightarrow> all_ok s"
  by (induction rule: vma_reach.induct) (auto simp: all_ok_nth vmas_ok_empty intro: vma_step_ok [unfolded all_ok_nth, rule_format])

text \<open>
  C17. In every state that \<^verbatim>\<open>mmap\<close>, \<^verbatim>\<open>munmap\<close>, page faults, \<^verbatim>\<open>fork\<close>,
  \<^verbatim>\<open>exit\<close> and \<^verbatim>\<open>sbrk\<close> lead to, the mappings of every process are well-formed: 16 entries, and the
  used ones cover whole pages below the trapframe, have a file, a valid protection and sharing mode, and
  do not overlap.
\<close>

theorem vmas_typed:
  assumes "vma_reach s" "p < length (procs s)"
  shows "vmas_ok (p_vmas (procs s ! p))"
  using vma_reach_ok [OF assms(1)] assms(2) by (simp add: all_ok_nth)


section \<open>Instances\<close>

text \<open>A process that maps 5000 bytes of a file and then unmaps the first page.\<close>

definition demo_m :: kst where
  "demo_m = demo_k\<lparr>ftable := (ftable demo_k)[0 := openfile0\<lparr>f_type := FD_INODE, f_ref := 1, f_readable := True\<rparr>]\<rparr>"

definition demo_mv :: vma where
  "demo_mv = \<lparr>v_used = True, v_addr = 0x3FFFFFC000, v_length = 8192, v_prot = PROT_READ, v_flags = MAP_PRIVATE,
     v_file = Some 0, v_offset = 0\<rparr>"

definition demo_u :: kst where
  "demo_u = demo_k\<lparr>procs := demo_proc\<lparr>p_vmas := demo_mv # replicate 15 vma0\<rparr> # replicate 63 proc0\<rparr>"

lemma demo_m_simps:
  "cur demo_m = 0" "procs demo_m ! 0 = demo_proc" "length (procs demo_m) = 64"
  "ftable demo_m ! 0 = openfile0\<lparr>f_type := FD_INODE, f_ref := 1, f_readable := True\<rparr>"
  using demo_k_proc by (simp_all add: demo_m_def cur_def myproc_def demo_k_def)

lemma vma_lowest_none: "vma_lowest (replicate n vma0) = TRAPFRAME"
proof -
  have "foldl (\<lambda>low v. if v_used v \<and> v_addr v < low then v_addr v else low) a (replicate n vma0) = a" for a
    by (induction n) (simp_all add: vma0_def)
  then show ?thesis by (simp add: vma_lowest_def)
qed

lemma find_index_replicate_pos: "P x \<Longrightarrow> 0 < n \<Longrightarrow> find_index P (replicate n x) = Some 0"
  by (cases n) simp_all

lemma demo_mmap: "\<exists>s'. do_mmap 0 5000 PROT_READ MAP_PRIVATE 0 0 demo_m = Ok (0x3FFFFFC000, s') \<and> length (procs s') = 64"
proof -
  have "mmap_ok 0 5000 PROT_READ MAP_PRIVATE (ftable demo_m ! 0) 0" by (simp add: mmap_ok_def demo_m_simps)
  moreover have "PGROUNDUP 5000 = 8192" "PGROUNDUP 4096 = 4096" by (simp_all add: PGROUNDUP_def)
  moreover have "find_index (\<lambda>v. \<not> v_used v) (replicate 16 vma0) = Some 0" by (rule find_index_replicate_pos) (simp_all add: vma0_def)
  ultimately show ?thesis by (simp add: do_mmap_def Let_def demo_m_simps vma_lowest_none filedup_def upd_vma_proc upd_file_def)
qed

lemma demo_m_ok: "vmas_ok (p_vmas (procs demo_m ! 0))"
  by (simp only: demo_m_simps demo_proc_simps vmas_ok_empty)


lemma demo_u_simps:
  "length (procs demo_u) = 64" "p_vmas (procs demo_u ! 0) = demo_mv # replicate 15 vma0" "mem demo_u = mem demo_as"
  "p_pagetable (procs demo_u ! 0) = 0x87FFC000"
  by (simp_all add: demo_u_def)

lemma demo_u_ok: "vmas_ok (p_vmas (procs demo_u ! 0))"
proof -
  have "demo_mv # replicate 15 vma0 = (replicate 16 vma0)[0 := demo_mv]" by (simp add: numeral_eq_Suc)
  moreover have "vmas_ok ((replicate 16 vma0)[0 := demo_mv])"
    by (rule vmas_ok_update [OF vmas_ok_empty]) (simp_all add: vma_ok_def demo_mv_def page_aligned_def vma0_def)
  ultimately show ?thesis by (simp add: demo_u_simps)
qed

lemma demo_munmap: "\<exists>s'. vma_unmap 0 0x3FFFFFC000 100 demo_u = Ok (0, s')"
proof -
  have "load64 (mem demo_as) (0x87FFC000 + 8 * 255) = 0" using demo_slot [of "0x87FFC000" 255] by (simp add: page_aligned_def)
  moreover have "PX 2 0x3FFFFFC000 = 255" by (simp add: PX_def)
  ultimately have "walk_from 2 0x87FFC000 0x3FFFFFC000 False demo_u = (None, demo_u)"
    unfolding numeral_2_eq_2 walk_from.simps by (simp add: demo_u_simps)
  then have "walk 0x87FFC000 0x3FFFFFC000 False demo_u = Ok (None, demo_u)" by (simp add: walk_def)
  then have "vma_unmap_page 0 0 0x3FFFFFC000 (0, demo_u) = Ok (0, demo_u)" by (simp add: vma_unmap_page_def demo_u_simps)
  moreover have "PGROUNDUP 100 = 4096" by (simp add: PGROUNDUP_def)
  ultimately show ?thesis by (simp add: vma_unmap_def vma_of_def Let_def demo_u_simps demo_mv_def)
qed


theorem vmas_typed_witness:
  "\<exists>s' :: kst. vma_reach s' \<and> do_mmap 0 5000 PROT_READ MAP_PRIVATE 0 0 demo_m = Ok (0x3FFFFFC000, s') \<and>
     vmas_ok (p_vmas (procs s' ! 0))"
proof -
  obtain s' where s': "do_mmap 0 5000 PROT_READ MAP_PRIVATE 0 0 demo_m = Ok (0x3FFFFFC000, s')" "length (procs s') = 64"
    using demo_mmap by blast
  have "vma_reach demo_m" by (rule vma_reach.start) (auto simp: demo_m_def demo_k_def demo_proc_def proc0_def)
  moreover have "vma_step demo_m s'" by (rule mmaps [OF s'(1)]) (simp add: runs_def demo_m_simps)
  ultimately have r: "vma_reach s'" by (rule vma_reach.step)
  have "0 < length (procs s')" using s'(2) by simp
  from vmas_typed [OF r this] s'(1) r show ?thesis by blast
qed

end
