(* ===== verification/Sbrk.thy ===== *)
theory Sbrk
  imports Vma_Correct
begin

text \<open>
  \<^verbatim>\<open>sbrk\<close> and mappings. \<^verbatim>\<open>growproc\<close> does not look at the mappings of the process, so it can
  extend the memory into one; unmapping a page there takes it from the process's memory, and freeing the
  address space then panics.
\<close>

section \<open>Allocating one page\<close>

lemma PGROUNDUP_aligned:
  assumes "page_aligned a" "unat a + 4096 \<le> unat (MAXVA :: uint64)"
  shows "PGROUNDUP a = a"
proof -
  have "(unat a + 4095) div 4096 * 4096 = unat a" using assms(1) by (auto simp: page_aligned_unat)
  then have "unat (PGROUNDUP a) = unat a" using assms(2) by (subst unat_PGROUNDUP) simp_all
  then show ?thesis by (simp add: word_unat_eq_iff)
qed

lemma uvmalloc_page:
  assumes "kmem_inv s (pg # ps)" "pt_wf s (pg # ps) pt" "2 \<le> length ps" "page_aligned a" "unat a + 4096 \<le> unat (MAXVA :: uint64)"
    and "lookup (mem s) pt a AND PTE_V = 0"
  obtains s' ps' where "uvmalloc pt a (a + PGSIZE) s = Ok (a + PGSIZE, s')" "kmem_inv s' ps'" "pt_wf s' ps' pt" "kend s' = kend s"
    "set ps' \<subseteq> set ps" "pg \<notin> set ps'" "pg \<notin> ptnodes (mem s') pt" "valid_page s' pg" "ptnodes (mem s') pt \<subseteq> ptnodes (mem s) pt \<union> set ps"
    "\<forall>vb<MAXVA. lookup (mem s') pt vb =
       (if PGROUNDDOWN vb = a then PA2PTE pg OR (PTE_W OR PTE_X OR PTE_R OR PTE_U) OR PTE_V else lookup (mem s) pt vb)"
proof -
  obtain s1 where s1: "kalloc s = (pg, s1)" "kmem_inv s1 ps" using ka.alloc_Cons [OF assms(1)] by blast
  have p: "pg \<noteq> 0" "page_aligned pg" "valid_page s pg" "pg \<notin> set ps"
    using ka.inv_valid [OF assms(1), of pg] ka.valid_pos [OF assms(1), of pg] ka.inv_distinct [OF assms(1)] by simp_all
  let ?s2 = "s1\<lparr>mem := memset pg 0 4096 (mem s1)\<rparr>"
  have kend: "kend ?s2 = kend s" using kalloc_kend [of s] s1(1) by simp
  have inv2: "kmem_inv ?s2 ps"
  proof (rule kmem_inv_frame [OF s1(2)])
    fix x assume "PGROUNDDOWN x \<in> set ps"
    with p have "\<not> in_page pg x" by (auto simp: in_page_iff)
    then show "mem ?s2 x = mem s1 x" by (simp add: mem_simps)
  qed simp_all
  have npg: "pg \<notin> ptnodes (mem s) pt" using assms(2) by (auto simp: pt_wf_def)
  have fr: "mem ?s2 x = mem s x" if "PGROUNDDOWN x \<in> ptnodes (mem s) pt" for x
  proof -
    have "\<not> in_page pg x" using that npg p(2) by (auto simp: in_page_iff)
    then show ?thesis using kalloc_frame [OF s1(1)] by (simp add: mem_simps)
  qed
  have wf2: "pt_wf ?s2 ps pt" "ptnodes (mem ?s2) pt = ptnodes (mem s) pt"
    using pt_wf_frame [OF fr assms(2) kend, of ps] by simp_all
  have l2: "lookup (mem ?s2) pt vb = lookup (mem s) pt vb" for vb using lookup_frame [OF fr assms(2)] .
  obtain s' ps' where m: "mappages pt a PGSIZE pg (PTE_W OR PTE_X OR PTE_R OR PTE_U) ?s2 = Ok (0, s')" "pt_keep pt ?s2 ps s' ps'"
      "\<forall>vb<MAXVA. lookup (mem s') pt vb =
        (if PGROUNDDOWN vb = a then PA2PTE pg OR (PTE_W OR PTE_X OR PTE_R OR PTE_U) OR PTE_V else lookup (mem ?s2) pt vb)"
    using mappages_page [OF inv2 wf2(1) assms(4,5) _ assms(3)] assms(6) l2 by metis
  have u: "unat (a + PGSIZE) = unat a + 4096" using assms(5) by (simp add: unat_word_ariths)
  have "uvmalloc_loop pt (a + PGSIZE) a (a + PGSIZE) s' = Ok (a + PGSIZE, s')" by (subst uvmalloc_loop.simps) simp
  moreover have "a < a + PGSIZE" using u by (simp add: word_less_nat_alt)
  ultimately have "uvmalloc_loop pt a a (a + PGSIZE) s = Ok (a + PGSIZE, s')"
    using s1(1) p(1) m(1) by (subst uvmalloc_loop.simps) (simp add: Let_def)
  then have "uvmalloc pt a (a + PGSIZE) s = Ok (a + PGSIZE, s')"
    using \<open>a < a + PGSIZE\<close> by (simp add: uvmalloc_def PGROUNDUP_aligned [OF assms(4,5)] order.strict_implies_not_eq less_imp_not_less del: add_0)
  moreover have "set ps' \<subseteq> set ps" "kend s' = kend s" "kmem_inv s' ps'" "pt_wf s' ps' pt"
    and un: "ptnodes (mem s') pt \<union> set ps' = ptnodes (mem s) pt \<union> set ps"
    using m(2) kend wf2(2) by (simp_all add: pt_keep_def)
  moreover have "pg \<notin> set ps'" "pg \<notin> ptnodes (mem s') pt" using un npg p(4) by blast+
  moreover have "valid_page s' pg" using p(3) \<open>kend s' = kend s\<close> by (simp add: valid_page_def)
  moreover have "ptnodes (mem s') pt \<subseteq> ptnodes (mem s) pt \<union> set ps" using un by blast
  ultimately show thesis using m(3) [unfolded l2] by (intro that [of s' ps'])
qed

section \<open>Freeing an address space with a hole\<close>

lemma uvmunmap_hole:
  assumes "uvmunmap_loop pt a (a + 4096 * of_nat n) f s = Ok s'" "unat a + 4096 * Suc n \<le> unat (MAXVA :: uint64)"
    and "lookup (mem s') pt (a + 4096 * of_nat n) AND PTE_V = 0"
  shows "\<exists>m. uvmunmap_loop pt a (a + 4096 * of_nat (Suc n)) f s = Panic m"
  using assms
proof (induction n arbitrary: a s)
  case 0
  have a: "a < MAXVA" "a < a + 4096" using "0.prems"(2) by (simp_all add: word_less_nat_alt unat_word_ariths)
  have s: "s' = s" using "0.prems"(1) by (simp add: uvmunmap_loop.simps)
  then have "case fst (walk_from 2 pt a False s) of None \<Rightarrow> True | Some q \<Rightarrow> load64 (mem s) q AND PTE_V = 0"
    using "0.prems"(3) by (auto simp: walk_from_noalloc idxs_2 lookup_def simp del: node.simps split: option.splits)
  then show ?case using a unfolding uvmunmap_loop.simps [of pt a]
    by (auto simp: walk_below Let_def walk_from_noalloc split: option.splits)
next
  case (Suc n)
  have u: "unat (a + 4096) = unat a + 4096" using Suc.prems(2) by (simp add: unat_word_ariths)
  have e: "a + 4096 * of_nat (Suc k) = a + 4096 + 4096 * of_nat k" for k by (simp add: algebra_simps)
  have lt: "a < a + 4096 + 4096 * of_nat k" if "k \<le> Suc n" for k
  proof -
    have "unat (a + of_nat (4096 * Suc k)) = unat a + 4096 * Suc k"
      using Suc.prems(2) that by (simp add: unat_word_ariths unat_of_nat del: of_nat_Suc)
    then show ?thesis by (simp add: word_less_nat_alt algebra_simps)
  qed
  let ?round = "\<lambda>stop. uvmunmap_loop pt a stop f s"
  obtain s1 where s1: "\<And>stop. a < stop \<Longrightarrow> ?round stop = uvmunmap_loop pt (a + PGSIZE) stop f s1"
    using Suc.prems(1) lt [of n] unfolding e uvmunmap_loop.simps [of pt a]
    by (auto simp: Let_def split: option.splits if_splits)
  have "\<exists>m. uvmunmap_loop pt (a + 4096) (a + 4096 + 4096 * of_nat (Suc n)) f s1 = Panic m"
    using Suc.prems s1 [OF lt, of n] u unfolding e by (intro Suc.IH) simp_all
  then show ?case using s1 [OF lt, of "Suc n"] unfolding e by simp
qed

lemma uvmfree_hole:
  assumes "kmem_inv s ps" "pt_wf s ps pt" "n < 2 ^ 19" "\<forall>k<n. is_leaf (lookup (mem s) pt (4096 * of_nat k))" "can_free s ps pt 0 n"
    and "lookup (mem s) pt (4096 * of_nat n) AND PTE_V = 0"
  shows "\<exists>m. uvmfree pt (4096 * of_nat (Suc n)) s = Panic m"
proof -
  have u: "unat (4096 * of_nat k :: uint64) = 4096 * k" if "k \<le> Suc n" for k
    using that assms(3) by (simp add: unat_word_ariths unat_of_nat)
  obtain s' where s': "uvmunmap_loop pt 0 (0 + 4096 * of_nat n) True s = Ok s'"
      "\<forall>va<MAXVA. lookup (mem s') pt va = unmap_range 0 n (lookup (mem s) pt) va"
    using uvmunmap_loop_spec [OF assms(1,2), of 0 n True] assms(3-5) by (auto simp: page_aligned_def)
  have "(4096 * of_nat n :: uint64) < MAXVA" using u [of n] assms(3) by (simp add: word_less_nat_alt)
  then have "lookup (mem s') pt (0 + 4096 * of_nat n) AND PTE_V = 0"
    using s'(2) assms(6) u [of n] by (simp add: unmap_range_def)
  then obtain m where "uvmunmap_loop pt 0 (0 + 4096 * of_nat (Suc n)) True s = Panic m"
    using uvmunmap_hole [OF s'(1)] assms(3) by auto
  moreover have "PGROUNDUP (4096 * of_nat (Suc n)) = 4096 * of_nat (Suc n)"
    using u [of "Suc n"] assms(3) by (intro PGROUNDUP_aligned) (simp_all add: page_aligned_unat del: of_nat_Suc)
  moreover have "(4096 * of_nat (Suc n) :: uint64) div PGSIZE * PGSIZE = 4096 * of_nat (Suc n)"
    using u [of "Suc n"] by (simp add: word_unat_eq_iff unat_word_ariths unat_div del: of_nat_Suc)
  moreover have "(0 :: uint64) < 4096 * of_nat (Suc n)" using u [of "Suc n"] by (simp add: word_less_nat_alt del: of_nat_Suc)
  ultimately show ?thesis by (simp add: uvmfree_def uvmunmap_def del: of_nat_Suc)
qed

section \<open>Growing by one page and unmapping one page\<close>

lemma growproc_page:
  assumes "kmem_inv s (pg # ps)" "pt_wf s (pg # ps) pt" "2 \<le> length ps" "p < length (procs s)" "pt = p_pagetable (procs s ! p)"
    and "p_sz (procs s ! p) = 4096 * of_nat n" "n < 2 ^ 19" "lookup (mem s) pt (4096 * of_nat n) AND PTE_V = 0"
  obtains s' ps' where "growproc p 4096 s = Ok (0, s')" "kmem_inv s' ps'" "pt_wf s' ps' pt" "kend s' = kend s"
    "set ps' \<subseteq> set ps" "pg \<notin> set ps'" "pg \<notin> ptnodes (mem s') pt" "valid_page s' pg" "ptnodes (mem s') pt \<subseteq> ptnodes (mem s) pt \<union> set ps"
    "\<forall>vb<MAXVA. lookup (mem s') pt vb =
       (if PGROUNDDOWN vb = 4096 * of_nat n then PA2PTE pg OR (PTE_W OR PTE_X OR PTE_R OR PTE_U) OR PTE_V else lookup (mem s) pt vb)"
    "procs s' = (procs s)[p := (procs s ! p)\<lparr>p_sz := 4096 * of_nat (Suc n)\<rparr>]"
proof -
  have u: "unat (4096 * of_nat k :: uint64) = 4096 * k" if "k \<le> Suc n" for k
    using that assms(7) by (simp add: unat_word_ariths unat_of_nat)
  let ?a = "4096 * of_nat n :: uint64" and ?sz = "ucast (4096 * of_nat n :: uint64) :: uint32"
  have "page_aligned ?a" "unat ?a + 4096 \<le> unat (MAXVA :: uint64)" using u [of n] assms(7) by (simp_all add: page_aligned_unat)
  from uvmalloc_page [OF assms(1-3) this assms(8)] obtain s1 ps' where s1: "uvmalloc pt ?a (?a + PGSIZE) s = Ok (?a + PGSIZE, s1)"
    and r: "kmem_inv s1 ps'" "pt_wf s1 ps' pt" "kend s1 = kend s" "set ps' \<subseteq> set ps" "pg \<notin> set ps'"
      "pg \<notin> ptnodes (mem s1) pt" "valid_page s1 pg" "ptnodes (mem s1) pt \<subseteq> ptnodes (mem s) pt \<union> set ps"
      "\<forall>vb<MAXVA. lookup (mem s1) pt vb =
        (if PGROUNDDOWN vb = ?a then PA2PTE pg OR (PTE_W OR PTE_X OR PTE_R OR PTE_U) OR PTE_V else lookup (mem s) pt vb)" .
  have e: "4096 * of_nat (Suc n) = ?a + 4096" by (simp add: algebra_simps)
  have sz: "unat ?sz = 4096 * n" "unat (?sz + 4096) = 4096 * Suc n"
    using u [of n] assms(7) by (simp_all add: unsigned_ucast_eq take_bit_eq_mod unat_word_ariths)
  have up: "unat (ucast (x :: uint32) :: uint64) = unat x" for x
  proof -
    have "unat x < 2 ^ 32" using unsigned_less [of x] by simp
    then show ?thesis by (simp add: unsigned_ucast_eq take_bit_eq_mod)
  qed
  have "ucast ?sz = ?a" "ucast (?sz + 4096) = ?a + 4096"
    unfolding word_unat_eq_iff up sz using u [of n] u [of "Suc n"] e by (simp_all add: add.commute)
  moreover have "(ucast (?a + 4096) :: uint32) = ?sz + 4096"
    unfolding word_unat_eq_iff sz(2) e [symmetric] using u [of "Suc n"] assms(7)
    by (simp add: unsigned_ucast_eq take_bit_eq_mod del: of_nat_Suc)
  moreover have "?sz + 4096 \<noteq> 0" using sz(2) by (metis unat_0 nat.distinct(1) mult_eq_0_iff zero_neq_numeral)
  ultimately have "growproc p 4096 s = Ok (0, upd_proc p (\<lambda>q. q\<lparr>p_sz := ?a + 4096\<rparr>) s1)"
    using s1 assms(5,6) by (simp add: growproc_def Let_def)
  moreover have "procs s1 = procs s" using kframe_pstate [OF kframe_uvmalloc [OF s1]] by blast
  ultimately show thesis using r
    by (intro that [of "upd_proc p (\<lambda>q. q\<lparr>p_sz := ?a + 4096\<rparr>) s1" ps']) (simp_all add: valid_page_def e del: of_nat_Suc)
qed

lemma vma_unmap_private:
  assumes "kmem_inv s ps" "pt_wf s ps pt" "p < length (procs s)" "pt = p_pagetable (procs s ! p)" "vs = p_vmas (procs s ! p)" "vmas_ok vs"
    and "i < 16" "v_used (vs ! i)" "a = v_addr (vs ! i)" "4096 < unat (v_length (vs ! i))" "v_flags (vs ! i) = MAP_PRIVATE"
    and "is_leaf (lookup (mem s) pt a)" "PTE2PA (lookup (mem s) pt a) = pg" "valid_page s pg" "pg \<notin> set ps" "pg \<notin> ptnodes (mem s) pt"
  obtains s' where "vma_unmap p a 4096 s = Ok (0, s')" "kmem_inv s' (pg # ps)" "pt_wf s' (pg # ps) pt"
    "ptnodes (mem s') pt = ptnodes (mem s) pt" "kend s' = kend s" "p_sz (procs s' ! p) = p_sz (procs s ! p)"
    "\<forall>vb<MAXVA. lookup (mem s') pt vb = unmap_range a 1 (lookup (mem s) pt) vb"
proof -
  have ok: "vma_ok (vs ! i)" using vmas_okD [OF assms(6,7,8)] .
  then have a: "page_aligned a" "unat a + 4096 * 1 \<le> unat (MAXVA :: uint64)" using assms(9,10) by (simp_all add: vma_ok_def)
  then have lt: "a < MAXVA" by (simp add: word_less_nat_alt)
  have "can_free s ps pt a 1" using assms(13-16) by (simp add: can_free_def leaf_pages_def)
  then obtain s1 where s1: "uvmunmap_loop pt a (a + 4096 * of_nat 1) True s = Ok s1" "kmem_inv s1 (pg # ps)" "pt_wf s1 (pg # ps) pt"
      "ptnodes (mem s1) pt = ptnodes (mem s) pt" "kend s1 = kend s"
      "\<forall>vb<MAXVA. lookup (mem s1) pt vb = unmap_range a 1 (lookup (mem s) pt) vb"
    using uvmunmap_loop_spec [OF assms(1,2) a, of True] assms(12,13) by (auto simp: leaf_pages_def)
  have un: "uvmunmap pt a 1 True s = Ok s1" using s1(1) a(1) by (simp add: uvmunmap_def page_aligned_def)
  have pr: "procs s1 = procs s" using kframe_pstate [OF kframe_uvmunmap [OF un]] by blast
  have V: "lookup (mem s) pt a AND PTE_V \<noteq> 0" using assms(12) by (simp add: is_leaf_def)
  then obtain q where q: "walk_from 2 pt a False s = (Some (q + 8 * PX 0 a), s)"
      "load64 (mem s) (q + 8 * PX 0 a) = lookup (mem s) pt a" by (rule walk_lookup)
  have pg: "vma_unmap_page p i a (0, s) = Ok (0, s1)"
    using q lt V un assms(4,5,11) by (simp add: vma_unmap_page_def Let_def walk_below vma_of_def)
  have "{unat a..<unat a + unat (4096 :: uint64)} \<subseteq> vma_range (vs ! i)" using assms(9,10) by (simp add: vma_range_def)
  note f = vma_found [OF assms(6,7,8) this]
  have ne: "a + 4096 \<noteq> v_addr (vs ! i) + v_length (vs ! i)" using assms(9,10) by auto
  have up: "PGROUNDUP 4096 = 4096" by (simp add: PGROUNDUP_def)
  have le: "\<not> a + 4096 < a" using f(2) by (simp add: word_less_nat_alt)
  from ne obtain g where "vma_unmap p a 4096 s = Ok (0, upd_vma p i g s1)"
    using f(1) pg a(1) assms(5,9) pr up le by (simp add: vma_unmap_def vma_of_def Let_def page_aligned_def)
  then show thesis using s1 pr assms(3)
    by (intro that [of "upd_vma p i g s1"]) (simp_all add: upd_vma_def)
qed

section \<open>Properties\<close>

text \<open>
  C28. A process of \<open>n\<close> pages with a private mapping of more than one page right above its memory calls
  \<^verbatim>\<open>sbrk(4096)\<close>, which succeeds although the page is mapped, and \<^verbatim>\<open>munmap\<close> of the first
  page of the mapping, which takes the page away again. The size of the process still counts the page, so
  freeing its address space (\<^verbatim>\<open>uvmfree\<close>, on \<^verbatim>\<open>exec\<close> or after \<^verbatim>\<open>exit\<close>) panics.
\<close>

theorem sbrk_into_mapping:
  assumes "kmem_inv s ps" "pt_wf s ps pt" "3 \<le> length ps" "p < length (procs s)" "pt = p_pagetable (procs s ! p)"
    and "p_sz (procs s ! p) = 4096 * of_nat n" "n < 2 ^ 19" "\<forall>k<n. is_leaf (lookup (mem s) pt (4096 * of_nat k))" "can_free s ps pt 0 n"
    and "vs = p_vmas (procs s ! p)" "vmas_ok vs" "i < 16" "v_used (vs ! i)" "v_flags (vs ! i) = MAP_PRIVATE"
    and "v_addr (vs ! i) = 4096 * of_nat n" "4096 < unat (v_length (vs ! i))" "lookup (mem s) pt (4096 * of_nat n) AND PTE_V = 0"
  shows "\<exists>s1 s2 m. growproc p 4096 s = Ok (0, s1) \<and> vma_unmap p (4096 * of_nat n) 4096 s1 = Ok (0, s2) \<and>
    uvmfree pt (p_sz (procs s2 ! p)) s2 = Panic m"
proof -
  let ?a = "4096 * of_nat n :: uint64"
  obtain pg ps0 where ps: "ps = pg # ps0" "2 \<le> length ps0" using assms(3) by (cases ps) auto
  have u: "unat (4096 * of_nat k :: uint64) = 4096 * k" if "k \<le> n" for k
    using that assms(7) by (simp add: unat_word_ariths unat_of_nat)
  have al: "PGROUNDDOWN (4096 * of_nat k :: uint64) = 4096 * of_nat k" "(4096 * of_nat k :: uint64) < MAXVA" if "k \<le> n" for k
    using u [OF that] that assms(7) by (simp_all add: page_aligned_unat word_less_nat_alt)
  from growproc_page [OF assms(1,2) [unfolded ps(1)] ps(2) assms(4-7,17)] obtain s1 ps1 where
    s1: "growproc p 4096 s = Ok (0, s1)" "kmem_inv s1 ps1" "pt_wf s1 ps1 pt" "kend s1 = kend s"
      "set ps1 \<subseteq> set ps0" "pg \<notin> set ps1" "pg \<notin> ptnodes (mem s1) pt" "valid_page s1 pg" "ptnodes (mem s1) pt \<subseteq> ptnodes (mem s) pt \<union> set ps0"
      "\<forall>vb<MAXVA. lookup (mem s1) pt vb =
        (if PGROUNDDOWN vb = ?a then PA2PTE pg OR (PTE_W OR PTE_X OR PTE_R OR PTE_U) OR PTE_V else lookup (mem s) pt vb)"
      "procs s1 = (procs s)[p := (procs s ! p)\<lparr>p_sz := 4096 * of_nat (Suc n)\<rparr>]" .
  have e: "lookup (mem s1) pt ?a = PA2PTE pg OR 31" using s1(10) al [of n] by simp
  have leaf: "is_leaf (lookup (mem s1) pt ?a)" "PTE2PA (lookup (mem s1) pt ?a) = pg"
    using PTE_FLAGS_PA2PTE [of 31 pg] PTE2PA_PA2PTE [of 31 pg] PA2PTE_valid(1) [of pg 30] s1(8) unfolding e is_leaf_def
    by (simp_all add: valid_page_def)
  have p1: "p < length (procs s1)" "pt = p_pagetable (procs s1 ! p)" "vs = p_vmas (procs s1 ! p)"
      "p_sz (procs s1 ! p) = 4096 * of_nat (Suc n)"
    using s1(11) assms(4,5,10) by simp_all
  from vma_unmap_private [OF s1(2,3) p1(1-3) assms(11-13) assms(15) [symmetric] assms(16,14) leaf s1(8,6,7)]
  obtain s2 where s2: "vma_unmap p ?a 4096 s1 = Ok (0, s2)" "kmem_inv s2 (pg # ps1)" "pt_wf s2 (pg # ps1) pt"
      "ptnodes (mem s2) pt = ptnodes (mem s1) pt" "kend s2 = kend s1" "p_sz (procs s2 ! p) = p_sz (procs s1 ! p)"
      "\<forall>vb<MAXVA. lookup (mem s2) pt vb = unmap_range ?a 1 (lookup (mem s1) pt) vb" .
  have l2: "lookup (mem s2) pt (4096 * of_nat k) = lookup (mem s) pt (4096 * of_nat k)" if "k < n" for k
  proof -
    have "(4096 * of_nat k :: uint64) \<noteq> ?a" using u [of k] u [of n] that by (metis less_or_eq_imp_le mult_less_mono2 nat_neq_iff zero_less_numeral)
    then show ?thesis using s2(7) s1(10) al [of k] u [of k] u [of n] that by (simp add: unmap_range_def)
  qed
  have "leaf_pages (mem s2) pt 0 n = leaf_pages (mem s) pt 0 n" using l2 by (simp add: leaf_pages_def)
  then have "can_free s2 (pg # ps1) pt 0 n"
    using assms(9) s1(4,5,9) s2(4,5) unfolding can_free_def ps(1) valid_page_def by auto
  moreover have "lookup (mem s2) pt ?a AND PTE_V = 0" using s2(7) al [of n] by (simp add: unmap_range_def)
  ultimately have "\<exists>m. uvmfree pt (4096 * of_nat (Suc n)) s2 = Panic m"
    using uvmfree_hole [OF s2(2,3) assms(7)] assms(8) l2 by simp
  then show ?thesis using s1(1) s2(1,6) p1(4) by (simp del: of_nat_Suc)
qed

text \<open>A process without memory that maps two pages from address 0 on.\<close>

definition demo_sv :: vma where
  "demo_sv = \<lparr>v_used = True, v_addr = 0, v_length = 8192, v_prot = PROT_READ, v_flags = MAP_PRIVATE, v_file = Some 0, v_offset = 0\<rparr>"

definition demo_s :: kst where
  "demo_s = upd_proc 0 (\<lambda>q. q\<lparr>p_sz := 0, p_pagetable := 0x87FFF000, p_vmas := (replicate 16 vma0)[0 := demo_sv]\<rparr>)
     (snd (uvmcreate (demo_k\<lparr>mem := demo_mem, freelist := 0x87FFF000, kend := 0x87FFA000\<rparr>)))"

theorem sbrk_into_mapping_witness:
  "\<exists>s1 s2 m. growproc 0 4096 demo_s = Ok (0, s1) \<and> vma_unmap 0 0 4096 s1 = Ok (0, s2) \<and>
     uvmfree 0x87FFF000 (p_sz (procs s2 ! 0)) s2 = Panic m"
proof -
  let ?k = "demo_k\<lparr>mem := demo_mem, freelist := 0x87FFF000, kend := 0x87FFA000\<rparr>" and ?ps = "tl demo_free"
  have "kmem_inv ?k (0x87FFF000 # ?ps)" using demo_ps_kmem_inv by (simp add: kmem_inv_def valid_page_def demo_ps_def demo_free_def)
  then obtain k where k: "uvmcreate ?k = (0x87FFF000, k)" "kmem_inv k ?ps" "pt_wf k ?ps 0x87FFF000" "\<forall>va. lookup (mem k) 0x87FFF000 va = 0"
    using uvmcreate_fresh by metis
  have "procs k = procs demo_k" using kframe_pstate [OF kframe_uvmcreate [OF k(1)]] by simp
  then have pr: "length (procs demo_s) = 64" "p_pagetable (procs demo_s ! 0) = 0x87FFF000" "p_sz (procs demo_s ! 0) = 0"
      "p_vmas (procs demo_s ! 0) = (replicate 16 vma0)[0 := demo_sv]" "mem demo_s = mem k"
    using k(1) by (simp_all add: demo_s_def demo_k_def)
  have inv: "kmem_inv demo_s ?ps" "pt_wf demo_s ?ps 0x87FFF000" using k by (simp_all add: demo_s_def)
  have vok: "vmas_ok ((replicate 16 vma0)[0 := demo_sv])"
    by (rule vmas_ok_update [OF vmas_ok_empty]) (simp_all add: vma_ok_def demo_sv_def page_aligned_def vma0_def)
  have free: "can_free demo_s ?ps 0x87FFF000 0 0" by (simp add: can_free_def leaf_pages_def)
  have v: "v_used demo_sv" "v_flags demo_sv = MAP_PRIVATE" "v_addr demo_sv = 4096 * of_nat 0" "4096 < unat (v_length demo_sv)"
    and nth: "(replicate 16 vma0)[0 := demo_sv] ! 0 = demo_sv" by (simp_all add: demo_sv_def)
  have num: "3 \<le> length ?ps" "0 < length (procs demo_s)" "p_sz (procs demo_s ! 0) = 4096 * of_nat 0" "(0 :: nat) < 2 ^ 19"
      "\<forall>k<0. is_leaf (lookup (mem demo_s) 0x87FFF000 (4096 * of_nat k))" "(0 :: nat) < 16"
      "lookup (mem demo_s) 0x87FFF000 (4096 * of_nat 0) AND PTE_V = 0"
    using pr k(4) by (simp_all add: demo_free_def)
  from sbrk_into_mapping [OF inv num(1,2) pr(2) [symmetric] num(3,4,5) free pr(4) [symmetric] vok num(6), unfolded nth, OF v num(7)]
  show ?thesis by simp
qed

end
