(* ===== verification/Tx.thy ===== *)
theory Tx
  imports Fs
begin

text \<open>
  Transactions: what a file-system operation between \<^verbatim>\<open>begin_op\<close> and \<^verbatim>\<open>end_op\<close> may
  rely on when it reads, modifies and releases blocks. \<open>tx d H r s\<close> says that the cache and the log are
  consistent, that the running process holds the buffers \<open>H\<close> (a map from blocks to buffers) and no other buffer
  is locked, and that the log and the cache have room for \<open>r\<close> more modified blocks. The contract is the
  locale \<open>block_tx\<close>; the file system's proofs use only it.
\<close>

section \<open>The contract\<close>

locale block_tx =
  fixes tx :: "(nat \<rightharpoonup> nat) \<Rightarrow> nat \<Rightarrow> 's \<Rightarrow> bool"
    and vw :: "'s \<Rightarrow> nat \<Rightarrow> byte list"
    and legal :: "'s \<Rightarrow> nat \<Rightarrow> bool"
    and frame :: "'s \<Rightarrow> 's \<Rightarrow> bool"
    and rd :: "nat \<Rightarrow> 's \<Rightarrow> (nat \<times> 's) res"
    and dat :: "'s \<Rightarrow> nat \<Rightarrow> byte list"
    and modify :: "nat \<Rightarrow> byte list \<Rightarrow> 's \<Rightarrow> 's res"
    and rel :: "nat \<Rightarrow> 's \<Rightarrow> 's res"
  assumes frame_refl: "frame s s"
    and frame_trans: "frame s s1 \<Longrightarrow> frame s1 s2 \<Longrightarrow> frame s s2"
    and frame_legal: "frame s s1 \<Longrightarrow> legal s1 = legal s"
    and held_data: "tx H r s \<Longrightarrow> H b = Some i \<Longrightarrow> dat s i = vw s b"
    and view_size: "tx H r s \<Longrightarrow> length (vw s b) = BSIZE"
    and less_room: "tx H r s \<Longrightarrow> r' \<le> r \<Longrightarrow> tx H r' s"
    and read_tx: "tx H r s \<Longrightarrow> H b = None \<Longrightarrow> card (dom H) < 2 \<Longrightarrow>
      \<exists>i s'. rd b s = Ok (i, s') \<and> tx (H(b \<mapsto> i)) r s' \<and> vw s' = vw s \<and> frame s s'"
    and modify_tx: "tx H (Suc r) s \<Longrightarrow> H b = Some i \<Longrightarrow> legal s b \<Longrightarrow> length x = BSIZE \<Longrightarrow>
      \<exists>s'. modify i x s = Ok s' \<and> tx H r s' \<and> vw s' = (vw s)(b := x) \<and> frame s s'"
    and release_tx: "tx H r s \<Longrightarrow> H b = Some i \<Longrightarrow>
      \<exists>s'. rel i s = Ok s' \<and> tx (H(b := None)) r s' \<and> vw s' = vw s \<and> frame s s'"
begin

text \<open>Reading a block and releasing it; reading it, storing new contents and releasing it.\<close>

lemma peek_tx:
  assumes "tx H r s" "H b = None" "card (dom H) < 2"
  shows "\<exists>i s1 s'. rd b s = Ok (i, s1) \<and> dat s1 i = vw s b \<and> frame s s1 \<and> vw s1 = vw s \<and> rel i s1 = Ok s' \<and>
    tx H r s' \<and> vw s' = vw s \<and> frame s s'"
proof -
  from read_tx [OF assms] obtain i s1 where r: "rd b s = Ok (i, s1)" "tx (H(b \<mapsto> i)) r s1" "vw s1 = vw s" "frame s s1" by blast
  from release_tx [OF r(2), of b i] obtain s' where l: "rel i s1 = Ok s'" "tx (H(b \<mapsto> i, b := None)) r s'" "vw s' = vw s1" "frame s1 s'"
    by auto
  have "H(b \<mapsto> i, b := None) = H" using assms(2) by auto
  then have "tx H r s'" using l(2) by simp
  moreover have "dat s1 i = vw s b" using held_data [OF r(2), of b i] r(3) by simp
  moreover have "frame s s'" by (rule frame_trans [OF r(4) l(4)])
  ultimately show ?thesis using r l by metis
qed

lemma update_tx:
  assumes "tx H (Suc r) s" "H b = None" "card (dom H) < 2" "legal s b"
  shows "\<exists>i s1. rd b s = Ok (i, s1) \<and> dat s1 i = vw s b \<and> frame s s1 \<and> vw s1 = vw s \<and>
    (\<forall>x. length x = BSIZE \<longrightarrow> (\<exists>s2 s'. modify i x s1 = Ok s2 \<and> rel i s2 = Ok s' \<and> tx H r s' \<and> vw s' = (vw s)(b := x) \<and>
      frame s s2 \<and> frame s s'))"
proof -
  from read_tx [OF assms(1-3)] obtain i s1 where r: "rd b s = Ok (i, s1)" "tx (H(b \<mapsto> i)) (Suc r) s1" "vw s1 = vw s" "frame s s1" by blast
  have "\<exists>s2 s'. modify i x s1 = Ok s2 \<and> rel i s2 = Ok s' \<and> tx H r s' \<and> vw s' = (vw s)(b := x) \<and> frame s s2 \<and> frame s s'"
    if x: "length x = BSIZE" for x
  proof -
    have "legal s1 b" using frame_legal [OF r(4)] assms(4) by simp
    with modify_tx [OF r(2) _ _ x, of b] obtain s2 where m: "modify i x s1 = Ok s2" "tx (H(b \<mapsto> i)) r s2" "vw s2 = (vw s1)(b := x)" "frame s1 s2"
      by auto
    from release_tx [OF m(2), of b i] obtain s' where l: "rel i s2 = Ok s'" "tx (H(b \<mapsto> i, b := None)) r s'" "vw s' = vw s2" "frame s2 s'"
      by auto
    have "H(b \<mapsto> i, b := None) = H" using assms(2) by auto
    then have "tx H r s'" using l(2) by simp
    moreover have "frame s s2" using frame_trans [OF r(4) m(4)] .
    moreover from this have "frame s s'" using l(4) by (rule frame_trans)
    ultimately show ?thesis using m(1,3) l(1,3) r(3) by metis
  qed
  moreover have "dat s1 i = vw s b" using held_data [OF r(2), of b i] r(3) by simp
  ultimately show ?thesis using r by metis
qed

end

section \<open>The log fulfils it\<close>

text \<open>What no operation on blocks changes: everything but the cache, the log's list of blocks, and who sleeps.\<close>

definition lframe :: "'a logst_scheme \<Rightarrow> 'a logst_scheme \<Rightarrow> bool" where
  "lframe s s' \<longleftrightarrow> bframe (s\<lparr>log_lh := log_lh s'\<rparr>) s' \<and> disk s' = disk s \<and> dtrace s' = dtrace s"

lemma bframe_lframe: "bframe s s' \<Longrightarrow> disk s' = disk s \<and> dtrace s' = dtrace s \<Longrightarrow> lframe s s'"
  using bframe_log(6) [of s s'] by (simp add: lframe_def)

lemma lframe_refl [simp]: "lframe s s"
  by (simp add: lframe_def)

lemma lframe_trans: "lframe s s1 \<Longrightarrow> lframe s1 s2 \<Longrightarrow> lframe s s2"
  unfolding lframe_def using bframe_upd_lh [of "s\<lparr>log_lh := log_lh s1\<rparr>" s1 "log_lh s2"] by (auto intro: bframe_trans)

lemma lframe_fields:
  assumes "lframe s s'"
  shows "mem s' = mem s" "freelist s' = freelist s" "kend s' = kend s" "cpus s' = cpus s" "hart s' = hart s" "myproc s' = myproc s"
    "log_start s' = log_start s" "log_size s' = log_size s" "log_outstanding s' = log_outstanding s"
    "log_committing s' = log_committing s" "log_dev s' = log_dev s" "logst.more s' = logst.more s" "pwake (procs s) (procs s')"
    "disk s' = disk s" "dtrace s' = dtrace s"
proof -
  note f = conjunct1 [OF assms [unfolded lframe_def]]
  show "disk s' = disk s" "dtrace s' = dtrace s" using assms by (simp_all add: lframe_def)
  show "mem s' = mem s" "freelist s' = freelist s" "kend s' = kend s" "cpus s' = cpus s" "hart s' = hart s" "myproc s' = myproc s"
    using bframe_pstate [OF f] by (simp_all add: myproc_def)
  show "log_start s' = log_start s" "log_size s' = log_size s" "log_outstanding s' = log_outstanding s"
    "log_committing s' = log_committing s" "log_dev s' = log_dev s" using bframe_log [OF f] by simp_all
  show "logst.more s' = logst.more s" using bframe_pstate(9) [OF f] by (cases s; cases s') simp
  show "pwake (procs s) (procs s')" using f by (simp add: bframe_def)
qed

lemma lframe_fs: "lframe s s' \<Longrightarrow> sb s' = sb s \<and> itable s' = itable s" for s :: "'a fsst_scheme"
  using lframe_fields(12) [of s s'] by (cases s; cases s') simp

definition legal :: "'a logst_scheme \<Rightarrow> nat \<Rightarrow> bool" where
  "legal s b \<longleftrightarrow> b < 2 ^ 32 \<and> b \<notin> {log_start s..<log_start s + log_size s}"

definition tx :: "nat \<Rightarrow> (nat \<rightharpoonup> nat) \<Rightarrow> nat \<Rightarrow> 'a logst_scheme \<Rightarrow> bool" where
  "tx d H r s \<longleftrightarrow> bio_inv d s \<and> log_dev s = d \<and> (0 < r \<longrightarrow> 1 \<le> log_outstanding s) \<and> distinct (log_lh s) \<and>
     length (log_lh s) + r \<le> LOGSIZE \<and> length (log_lh s) + r < log_size s \<and>
     (\<forall>b\<in>set (log_lh s). legal s b \<and> (if H b = None then 1 else 2) \<le> refs d s b) \<and>
     (\<forall>b. b \<notin> set (log_lh s) \<longrightarrow> view d s b = disk s b) \<and> (\<forall>b. length (view d s b) = BSIZE) \<and>
     finite (dom H) \<and> (\<forall>b. blocked d s b \<longrightarrow> H b \<noteq> None) \<and> (\<forall>b i. H b = Some i \<longrightarrow> owned d s i b) \<and>
     r + 2 \<le> free_bufs s + card {b \<in> dom H. refs d s b = 1}"

lemma babs_fields:
  "babs d s' = a \<Longrightarrow> view d s' = c_view a \<and> refs d s' = c_refs a \<and> blocked d s' = c_lock a \<and> free_bufs s' = c_free a \<and> disk s' = c_disk a \<and> dtrace s' = c_trace a"
  by (auto simp: babs_def)

lemma txD:
  assumes "tx d H r s"
  shows "bio_inv d s" "finite (dom H)" "\<And>b i. H b = Some i \<Longrightarrow> owned d s i b" "\<And>b. H b = None \<Longrightarrow> \<not> blocked d s b"
    "\<And>b. b \<notin> set (log_lh s) \<Longrightarrow> view d s b = disk s b" "\<And>b. b \<in> set (log_lh s) \<Longrightarrow> (if H b = None then 1 else 2) \<le> refs d s b"
    "r + 2 \<le> free_bufs s + card {b \<in> dom H. refs d s b = 1}"
  using assms by (auto simp: tx_def)

lemma lframe_legal: "lframe s s' \<Longrightarrow> legal s' = legal s"
  using lframe_fields [of s s'] by (simp add: legal_def fun_eq_iff)

lemma tx_step:
  assumes "tx d H r s" "bio_inv d s'" "lframe s s'" "log_lh s' = log_lh s \<or> (\<exists>b. b \<notin> set (log_lh s) \<and> legal s b \<and> log_lh s' = log_lh s @ [b])"
    and "length (log_lh s') + r' \<le> length (log_lh s) + r" "r' \<le> r" "\<And>b. b \<in> set (log_lh s') \<Longrightarrow> (if H' b = None then 1 else 2) \<le> refs d s' b"
    and "\<And>b. b \<notin> set (log_lh s') \<Longrightarrow> view d s' b = disk s' b" "\<And>b. length (view d s' b) = BSIZE"
    and "finite (dom H')" "\<And>b. blocked d s' b \<Longrightarrow> H' b \<noteq> None" "\<And>b i. H' b = Some i \<Longrightarrow> owned d s' i b"
    and "r' + 2 \<le> free_bufs s' + card {b \<in> dom H'. refs d s' b = 1}"
  shows "tx d H' r' s'"
proof -
  note f = lframe_fields [OF assms(3)]
  have "legal s' b" if "b \<in> set (log_lh s')" for b
    using that assms(1,4) lframe_legal [OF assms(3)] by (auto simp: tx_def)
  moreover have "distinct (log_lh s')" using assms(1,4) by (auto simp: tx_def)
  ultimately show ?thesis using assms f unfolding tx_def by auto
qed

lemma tx_read:
  assumes "tx d H r s" "H b = None" "card (dom H) < 2"
  shows "\<exists>i s'. bread d b s = Ok (i, s') \<and> tx d (H(b \<mapsto> i)) r s' \<and> view d s' = view d s \<and> lframe s s'"
proof -
  note t = txD [OF assms(1)]
  have c: "card {b \<in> dom H. refs d s b = 1} \<le> card (dom H)" using t(2) by (intro card_mono) auto
  then have "can_read (babs d s) b" using t(4) [OF assms(2)] t(7) assms(3) by (simp add: can_read_def babs_def)
  from bc.read_ok [OF t(1) this] obtain i s' where r: "bread d b s = Ok (i, s')" "bio_inv d s'" "bframe s s'"
      "babs d s' = abs_bread b (babs d s)" "owned d s' i b" and o: "\<forall>j c. c \<noteq> b \<longrightarrow> owned d s' j c = owned d s j c" by blast
  note a = babs_fields [OF r(4), unfolded abs_bread_def babs_def, simplified]
  have fr: "lframe s s'" by (rule bframe_lframe [OF r(3)]) (use a in simp)
  have R: "{c \<in> dom (H(b \<mapsto> i)). refs d s' c = 1} = {c \<in> dom H. refs d s c = 1} \<union> (if refs d s b = 0 then {b} else {})"
    using a assms(2) by auto
  have "card {c \<in> dom (H(b \<mapsto> i)). refs d s' c = 1} = card {c \<in> dom H. refs d s c = 1} + (if refs d s b = 0 then 1 else 0)"
    unfolding R using t(2) assms(2) by (auto simp: card_insert_if)
  then have "r + 2 \<le> free_bufs s' + card {c \<in> dom (H(b \<mapsto> i)). refs d s' c = 1}" using a t(7) c assms(3) by auto
  moreover have "(if (H(b \<mapsto> i)) c = None then 1 else 2) \<le> refs d s' c" if "c \<in> set (log_lh s')" for c
    using t(6) [of c] that a assms(2) bframe_log(6) [OF r(3)] by (auto split: if_splits)
  ultimately have "tx d (H(b \<mapsto> i)) r s'"
    by (intro tx_step [OF assms(1) r(2) fr])
      (use assms(1) a bframe_log(6) [OF r(3)] r(5) o t in \<open>auto simp: tx_def split: if_splits\<close>)
  then show ?thesis using r(1) a fr by auto
qed

lemma card_le_insert:
  assumes "A \<subseteq> insert b B" "finite B"
  shows "card A \<le> Suc (card B)"
proof -
  have "card A \<le> card (insert b B)" using assms by (intro card_mono) auto
  also have "\<dots> \<le> Suc (card B)" using assms(2) by (simp add: card_insert_if)
  finally show ?thesis .
qed

definition tx_modify :: "nat \<Rightarrow> byte list \<Rightarrow> 'a logst_scheme \<Rightarrow> 'a logst_scheme res" where
  "tx_modify i x s = log_write i (set_data i x s)"

lemma owned_upd_lh [simp]: "owned d (s\<lparr>log_lh := l\<rparr>) = owned d s"
  by (auto simp: fun_eq_iff owned_def is_buf_def holdingsleep_buf_def mypid_def myproc_def)

lemma tx_modify_ok:
  assumes "tx d H (Suc r) s" "H b = Some i" "legal s b" "length x = BSIZE"
  shows "\<exists>s'. tx_modify i x s = Ok s' \<and> tx d H r s' \<and> view d s' = (view d s)(b := x) \<and> lframe s s'"
proof -
  note t = txD [OF assms(1)]
  let ?s1 = "set_data i x s"
  note o = t(3) [OF assms(2)]
  from bc.put_ok [OF t(1) o, of x] have p: "bio_inv d ?s1" "bframe s ?s1" "babs d ?s1 = abs_store b x (babs d s)" "owned d ?s1 = owned d s"
    by blast+
  note a = babs_fields [OF p(3), unfolded abs_store_def babs_def, simplified]
  have fr: "lframe s ?s1" by (rule bframe_lframe [OF p(2)]) (use a in simp)
  note l = bframe_log [OF p(2)]
  have bn: "b_blockno (bufs ?s1 ! i) = b" using owned_D [of d ?s1 i b] o p(4) by simp
  have room: "\<not> (int (length (log_lh ?s1)) \<ge> int LOGSIZE \<or> int (length (log_lh ?s1)) \<ge> int (log_size ?s1) - 1)" "\<not> log_outstanding ?s1 < 1"
    using assms(1) l by (auto simp: tx_def)
  show ?thesis
  proof (cases "b \<in> set (log_lh s)")
    case True
    then have "tx_modify i x s = Ok ?s1" using room bn l by (simp add: tx_modify_def log_write_def Let_def)
    moreover have "tx d H r ?s1" by (rule tx_step [OF assms(1) p(1) fr])
      (use assms(1,4) a l t p(4) True in \<open>auto simp: tx_def\<close>)
    ultimately show ?thesis using a fr by auto
  next
    case False
    let ?s2 = "?s1\<lparr>log_lh := log_lh s @ [b]\<rparr>" and ?s3 = "bpin i (?s1\<lparr>log_lh := log_lh s @ [b]\<rparr>)"
    have w: "tx_modify i x s = Ok ?s3" using False room bn l by (simp add: tx_modify_def log_write_def Let_def)
    have o2: "owned d ?s2 i b" using o p(4) by simp
    have "bio_inv d ?s2" using p(1) by simp
    from bc.pin_ok [OF this o2] have q: "bio_inv d ?s3" "bframe ?s2 ?s3" "babs d ?s3 = abs_bpin b (babs d ?s2)" "owned d ?s3 = owned d s"
      using p(4) by simp_all
    have a3: "view d ?s3 = (view d s)(b := x)" "refs d ?s3 = (refs d s)(b := Suc (refs d s b))" "blocked d ?s3 = blocked d s"
        "free_bufs ?s3 = free_bufs s" "disk ?s3 = disk s" "dtrace ?s3 = dtrace s"
      using babs_fields [OF q(3), unfolded abs_bpin_def] a by (simp_all add: babs_def)
    have lh: "log_lh ?s3 = log_lh s @ [b]" using bframe_log(6) [OF q(2)] by simp
    have fr: "lframe s ?s3"
      using bframe_trans [OF bframe_upd_lh [OF p(2), of "log_lh s @ [b]"] q(2)] lh a3 by (simp add: lframe_def)
    have pos: "0 < refs d s b" using bc.own_locked [OF t(1) o] by (simp add: babs_def)
    have "{c \<in> dom H. refs d s c = 1} \<subseteq> insert b {c \<in> dom H. refs d ?s3 c = 1}" using a3 by auto
    moreover have "finite {c \<in> dom H. refs d ?s3 c = 1}" using t(2) by simp
    ultimately have "card {c \<in> dom H. refs d s c = 1} \<le> Suc (card {c \<in> dom H. refs d ?s3 c = 1})" by (rule card_le_insert)
    then have c: "r + 2 \<le> free_bufs ?s3 + card {c \<in> dom H. refs d ?s3 c = 1}" using t(7) a3(4) by linarith
    have pins: "(if H c = None then 1 else 2) \<le> refs d ?s3 c" if "c \<in> set (log_lh ?s3)" for c
      using that t(6) [of c] pos a3 lh by (auto split: if_splits)
    have "tx d H r ?s3" by (rule tx_step [OF assms(1) q(1) fr])
      (use assms a3 lh t q(4) False pins c in \<open>auto simp: tx_def\<close>)
    then show ?thesis using w a3 fr by auto
  qed
qed

lemma tx_release:
  assumes "tx d H r s" "H b = Some i"
  shows "\<exists>s'. brelse i s = Ok s' \<and> tx d (H(b := None)) r s' \<and> view d s' = view d s \<and> lframe s s'"
proof -
  note t = txD [OF assms(1)]
  note o = t(3) [OF assms(2)]
  have "view d s b = disk s b" if "refs d s b = 1" using t(5) [of b] t(6) [of b] that assms(2) by (cases "b \<in> set (log_lh s)") auto
  then have "c_refs (babs d s) b = 1 \<Longrightarrow> c_view (babs d s) b = c_disk (babs d s) b" by (simp add: babs_def)
  from bc.release_ok [OF t(1) o this] obtain s' where r: "brelse i s = Ok s'" "bio_inv d s'" "bframe s s'"
      "babs d s' = abs_brelse b (babs d s)" and oo: "\<forall>j c. c \<noteq> b \<longrightarrow> owned d s' j c = owned d s j c" by blast
  note a = babs_fields [OF r(4), unfolded abs_brelse_def babs_def, simplified]
  have fr: "lframe s s'" by (rule bframe_lframe [OF r(3)]) (use a in simp)
  note l = bframe_log(6) [OF r(3)]
  have pos: "0 < refs d s b" using bc.own_locked [OF t(1) o] by (simp add: babs_def)
  have R: "{c \<in> dom H. refs d s c = 1} = {c \<in> dom (H(b := None)). refs d s' c = 1} \<union> (if refs d s b = 1 then {b} else {})"
    using a assms(2) by auto
  have "card {c \<in> dom H. refs d s c = 1} = card {c \<in> dom (H(b := None)). refs d s' c = 1} + (if refs d s b = 1 then 1 else 0)"
    unfolding R using t(2) by (auto simp: card_insert_if)
  then have c: "r + 2 \<le> free_bufs s' + card {c \<in> dom (H(b := None)). refs d s' c = 1}" using a t(7) by auto
  have pins: "(if (H(b := None)) c = None then 1 else 2) \<le> refs d s' c" if "c \<in> set (log_lh s')" for c
    using that t(6) [of c] a l assms(2) by (auto split: if_splits)
  have bl: "(H(b := None)) c \<noteq> None" if "blocked d s' c" for c using that a t(4) [of c] by (auto split: if_splits)
  have "tx d (H(b := None)) r s'" by (rule tx_step [OF assms(1) r(2) fr])
    (use assms a l t oo pins c bl in \<open>auto simp: tx_def split: if_splits\<close>)
  then show ?thesis using r(1) a fr by auto
qed

interpretation tb: block_tx "tx d" "view d" legal lframe "bread d" "\<lambda>s i. b_data (bufs s ! i)" tx_modify brelse for d
proof
  fix s s1 s2 :: "'a logst_scheme" and H :: "nat \<rightharpoonup> nat" and r b i x
  show "lframe s s" by simp
  show "lframe s s2" if "lframe s s1" "lframe s1 s2" using that by (rule lframe_trans)
  show "legal s1 = legal s" if "lframe s s1" using that by (rule lframe_legal)
  show "b_data (bufs s ! i) = view d s b" if "tx d H r s" "H b = Some i"
    using bc.own_data [OF txD(1) [OF that(1)] txD(3) [OF that]] by (simp add: babs_def)
  show "length (view d s b) = BSIZE" if "tx d H r s" using that by (simp add: tx_def)
  show "tx d H r' s" if "tx d H r s" "r' \<le> r" for r' using that by (auto simp: tx_def)
qed (rule tx_read tx_modify_ok tx_release; assumption)+

end
