(* ===== verification/Fs_Blocks.thy ===== *)
theory Fs_Blocks
  imports Tx
begin

text \<open>
  The free map: \<^verbatim>\<open>balloc\<close> returns a block that was free, marks it used and clears it;
  \<^verbatim>\<open>bfree\<close> marks a used block free. Both change no other block. \<open>geom\<close> says that the
  super block describes the areas of a disk one after the other: log, inodes, free map, data.
\<close>

section \<open>The areas of the disk\<close>

definition dstart :: "superblock \<Rightarrow> nat" where
  "dstart sp = sb_bmapstart sp + sb_size sp div BPB + 1"

definition sb_ok :: "superblock \<Rightarrow> bool" where
  "sb_ok sp \<longleftrightarrow> 2 \<le> sb_logstart sp \<and> sb_logstart sp + sb_nlog sp \<le> sb_inodestart sp \<and>
     sb_inodestart sp + sb_ninodes sp div IPB + 1 \<le> sb_bmapstart sp \<and> dstart sp \<le> sb_size sp \<and> sb_size sp < 2 ^ 32"

definition geom :: "'a fsst_scheme \<Rightarrow> bool" where
  "geom s \<longleftrightarrow> sb_ok (sb s) \<and> log_start s = sb_logstart (sb s) \<and> log_size s = sb_nlog (sb s)"

lemma geom_frame: "lframe s s' \<Longrightarrow> geom s' = geom s"
  using lframe_fs [of s s'] lframe_fields [of s s'] by (simp add: geom_def)

lemma geom_legal:
  assumes "geom s"
  shows "sb_inodestart (sb s) \<le> b \<Longrightarrow> b < sb_size (sb s) \<Longrightarrow> legal s b"
  using assms by (auto simp: geom_def sb_ok_def legal_def)

lemma BBLOCK_area:
  assumes "geom s" "b < sb_size (sb s)"
  shows "sb_inodestart (sb s) \<le> BBLOCK b (sb s)" "BBLOCK b (sb s) < dstart (sb s)" "dstart (sb s) \<le> sb_size (sb s)" "legal s (BBLOCK b (sb s))"
proof -
  have "b div BPB \<le> sb_size (sb s) div BPB" using assms(2) by (simp add: div_le_mono)
  then show "sb_inodestart (sb s) \<le> BBLOCK b (sb s)" "BBLOCK b (sb s) < dstart (sb s)" "dstart (sb s) \<le> sb_size (sb s)"
    using assms by (auto simp: geom_def sb_ok_def BBLOCK_def dstart_def)
  then show "legal s (BBLOCK b (sb s))" using geom_legal [OF assms(1)] by simp
qed

section \<open>Bits\<close>

text \<open>A block is marked in the free map.\<close>

definition used :: "(nat \<Rightarrow> byte list) \<Rightarrow> superblock \<Rightarrow> nat \<Rightarrow> bool" where
  "used v sp b \<longleftrightarrow> \<not> bit_free (b mod BPB) (v (BBLOCK b sp))"

lemma bit_free_bit: "bit_free bi d \<longleftrightarrow> \<not> bit (d ! (bi div 8)) (bi mod 8)"
  by (simp add: bit_free_def push_bit_eq_mult and_exp_eq_0_iff_not_bit)

lemma length_mark [simp]: "length (mark_used bi d) = length d" "length (mark_free bi d) = length d"
  by (simp_all add: mark_used_def mark_free_def)

lemma bit_free_mark:
  assumes "bi < 8 * length d" "bj < 8 * length d"
  shows "bit_free bj (mark_used bi d) \<longleftrightarrow> bj \<noteq> bi \<and> bit_free bj d"
    and "bit_free bj (mark_free bi d) \<longleftrightarrow> bj = bi \<or> bit_free bj d"
proof -
  have i: "bi div 8 < length d" "bi mod 8 < 8" "bj mod 8 < 8" using assms by auto
  have e: "bj = bi \<longleftrightarrow> bj div 8 = bi div 8 \<and> bj mod 8 = bi mod 8" by (metis div_mult_mod_eq)
  show "bit_free bj (mark_used bi d) \<longleftrightarrow> bj \<noteq> bi \<and> bit_free bj d"
    using i e by (auto simp: bit_free_bit mark_used_def nth_list_update bit_simps)
  show "bit_free bj (mark_free bi d) \<longleftrightarrow> bj = bi \<or> bit_free bj d"
    using i e by (auto simp: bit_free_bit mark_free_def nth_list_update bit_simps)
qed

lemma used_mark:
  assumes "length (v (BBLOCK b sp)) = BSIZE"
  shows "used (v(BBLOCK b sp := mark_used (b mod BPB) (v (BBLOCK b sp)))) sp c \<longleftrightarrow> c = b \<or> used v sp c"
    and "used (v(BBLOCK b sp := mark_free (b mod BPB) (v (BBLOCK b sp)))) sp c \<longleftrightarrow> c \<noteq> b \<and> used v sp c"
proof -
  have "b mod BPB < 8 * BSIZE" "c mod BPB < 8 * BSIZE" by simp_all
  note m = bit_free_mark [of "b mod BPB" "v (BBLOCK b sp)" "c mod BPB", unfolded assms, OF this]
  have e: "c = b \<longleftrightarrow> BBLOCK c sp = BBLOCK b sp \<and> c mod BPB = b mod BPB"
    unfolding BBLOCK_def by (metis add_right_cancel div_mult_mod_eq)
  show "used (v(BBLOCK b sp := mark_used (b mod BPB) (v (BBLOCK b sp)))) sp c \<longleftrightarrow> c = b \<or> used v sp c"
    using m(1) e by (auto simp: used_def)
  show "used (v(BBLOCK b sp := mark_free (b mod BPB) (v (BBLOCK b sp)))) sp c \<longleftrightarrow> c \<noteq> b \<and> used v sp c"
    using m(2) e by (auto simp: used_def)
qed

section \<open>balloc and bfree\<close>

text \<open>Everything before the data area is marked as used.\<close>

definition bm_ok :: "(nat \<Rightarrow> byte list) \<Rightarrow> superblock \<Rightarrow> bool" where
  "bm_ok v sp \<longleftrightarrow> (\<forall>b<dstart sp. used v sp b)"

lemma bzero_ok:
  assumes "tx d H (Suc r) s" "H b = None" "card (dom H) < 2" "legal s b"
  shows "\<exists>s'. bzero d b s = Ok s' \<and> tx d H r s' \<and> view d s' = (view d s)(b := replicate BSIZE 0) \<and> lframe s s'"
proof -
  from tb.update_tx [OF assms] obtain i s1 where r: "bread d b s = Ok (i, s1)"
    and u: "\<forall>x. length x = BSIZE \<longrightarrow> (\<exists>s2 s'. tx_modify i x s1 = Ok s2 \<and> brelse i s2 = Ok s' \<and> tx d H r s' \<and>
      view d s' = (view d s)(b := x) \<and> lframe s s2 \<and> lframe s s')" by blast
  from u [rule_format, of "replicate BSIZE 0"] show ?thesis using r by (auto simp: bzero_def tx_modify_def)
qed

text \<open>Finding a free bit in the block of the free map that is being looked at.\<close>

lemma balloc_here:
  assumes "tx d H (Suc (Suc r)) s" "card (dom H) < 2" "geom s" "bm_ok (view d s) (sb s)" "\<forall>c\<in>dom H. dstart (sb s) \<le> c \<and> used (view d s) (sb s) c"
    and "b mod BPB = 0" "b < sb_size (sb s)"
    and "find (\<lambda>bi. bit_free bi (view d s (BBLOCK b (sb s)))) [0..<min BPB (sb_size (sb s) - b)] = Some bi"
  shows "\<exists>s'. balloc_from d (b # bs) s = Ok (b + bi, s') \<and> b + bi < sb_size (sb s) \<and> \<not> used (view d s) (sb s) (b + bi) \<and> tx d H r s' \<and>
    view d s' = (view d s)(BBLOCK (b + bi) (sb s) := mark_used ((b + bi) mod BPB) (view d s (BBLOCK (b + bi) (sb s))),
      b + bi := replicate BSIZE 0) \<and> lframe s s'"
proof -
  let ?B = "BBLOCK b (sb s)" and ?v = "view d s"
  have bi: "bi < min BPB (sb_size (sb s) - b)" "bit_free bi (?v ?B)"
    using assms(8) by (auto simp: find_Some_iff)
  have e: "(b + bi) mod BPB = bi" "BBLOCK (b + bi) (sb s) = ?B"
  proof -
    obtain q where q: "b = q * BPB" using assms(6) by (metis mod_eq_0_iff_dvd dvd_def mult.commute)
    show "(b + bi) mod BPB = bi" "BBLOCK (b + bi) (sb s) = ?B" using bi(1) q by (simp_all add: BBLOCK_def)
  qed
  have free: "\<not> used ?v (sb s) (b + bi)" using bi(2) e by (simp add: used_def)
  have size: "b + bi < sb_size (sb s)" using bi(1) by linarith
  have data: "dstart (sb s) \<le> b + bi" using free assms(4) by (auto simp: bm_ok_def not_less [symmetric])
  note area = BBLOCK_area [OF assms(3,7)]
  have HB: "H ?B = None" using assms(5) area(2) by (metis domIff leD)
  from tb.update_tx [OF assms(1) HB assms(2) area(4)] obtain i s1 where r: "bread d ?B s = Ok (i, s1)" "b_data (bufs s1 ! i) = ?v ?B" "lframe s s1"
    and u: "\<forall>x. length x = BSIZE \<longrightarrow> (\<exists>s2 s'. tx_modify i x s1 = Ok s2 \<and> brelse i s2 = Ok s' \<and> tx d H (Suc r) s' \<and>
      view d s' = ?v(?B := x) \<and> lframe s s2 \<and> lframe s s')" by blast
  have len: "length (mark_used bi (?v ?B)) = BSIZE" using tb.view_size [OF assms(1)] by simp
  from u [rule_format, OF len] obtain s2 s3 where m: "tx_modify i (mark_used bi (?v ?B)) s1 = Ok s2" "brelse i s2 = Ok s3" "tx d H (Suc r) s3"
      "view d s3 = ?v(?B := mark_used bi (?v ?B))" "lframe s s3" by blast
  have "H (b + bi) = None" using assms(5) free by (metis domIff)
  moreover have "legal s3 (b + bi)"
    using lframe_legal [OF m(5)] geom_legal [OF assms(3), of "b + bi"] size data area by simp
  ultimately obtain s4 where z: "bzero d (b + bi) s3 = Ok s4" "tx d H r s4" "view d s4 = (view d s3)(b + bi := replicate BSIZE 0)" "lframe s3 s4"
    using bzero_ok [OF m(3) _ assms(2)] by blast
  have "sb s1 = sb s" using lframe_fs [OF r(3)] by simp
  then have "balloc_from d (b # bs) s = Ok (b + bi, s4)"
    using r m(1,2) z(1) assms(8) by (simp add: tx_modify_def)
  then show ?thesis using size free z m(4) e lframe_trans [OF m(5) z(4)] by auto
qed

lemma balloc_from_ok:
  assumes "tx d H (Suc (Suc r)) s" "card (dom H) < 2" "geom s" "bm_ok (view d s) (sb s)" "\<forall>c\<in>dom H. dstart (sb s) \<le> c \<and> used (view d s) (sb s) c"
    and "\<forall>b\<in>set bs. b mod BPB = 0 \<and> b < sb_size (sb s)"
    and "\<exists>b\<in>set bs. \<exists>bi<min BPB (sb_size (sb s) - b). bit_free bi (view d s (BBLOCK b (sb s)))"
  shows "\<exists>b s'. balloc_from d bs s = Ok (b, s') \<and> b < sb_size (sb s) \<and> \<not> used (view d s) (sb s) b \<and> tx d H r s' \<and>
    view d s' = (view d s)(BBLOCK b (sb s) := mark_used (b mod BPB) (view d s (BBLOCK b (sb s))), b := replicate BSIZE 0) \<and> lframe s s'"
  using assms
proof (induction bs arbitrary: s)
  case (Cons b bs)
  let ?P = "\<lambda>bi. bit_free bi (view d s (BBLOCK b (sb s)))" and ?B = "BBLOCK b (sb s)"
  have b: "b mod BPB = 0" "b < sb_size (sb s)" using Cons.prems(6) by auto
  show ?case
  proof (cases "find ?P [0..<min BPB (sb_size (sb s) - b)]")
    case None
    have "H ?B = None" using Cons.prems(5) BBLOCK_area(2) [OF Cons.prems(3) b(2)] by (metis domIff leD)
    from tb.peek_tx [OF Cons.prems(1) this Cons.prems(2)] obtain i s1 s2 where r: "bread d ?B s = Ok (i, s1)" "b_data (bufs s1 ! i) = view d s ?B"
        "lframe s s1" "brelse i s1 = Ok s2" "tx d H (Suc (Suc r)) s2" "view d s2 = view d s" "lframe s s2" by blast
    have sb: "sb s1 = sb s" "sb s2 = sb s" using lframe_fs [OF r(3)] lframe_fs [OF r(7)] by simp_all
    have "\<exists>c\<in>set bs. \<exists>bi<min BPB (sb_size (sb s) - c). bit_free bi (view d s (BBLOCK c (sb s)))"
      using Cons.prems(7) None by (auto simp: find_None_iff)
    then have "\<exists>c s'. balloc_from d bs s2 = Ok (c, s') \<and> c < sb_size (sb s2) \<and> \<not> used (view d s2) (sb s2) c \<and> tx d H r s' \<and>
      view d s' = (view d s2)(BBLOCK c (sb s2) := mark_used (c mod BPB) (view d s2 (BBLOCK c (sb s2))), c := replicate BSIZE 0) \<and> lframe s2 s'"
      using Cons.prems(2-6) r sb geom_frame [OF r(7)] by (intro Cons.IH) simp_all
    moreover have e: "balloc_from d (b # bs) s = balloc_from d bs s2" using r None sb by simp
    ultimately show ?thesis unfolding sb r(6) e using lframe_trans [OF r(7)] by blast
  next
    case (Some bi)
    from balloc_here [OF Cons.prems(1-5) b Some] show ?thesis by blast
  qed
qed simp

definition balloc_view :: "superblock \<Rightarrow> nat \<Rightarrow> (nat \<Rightarrow> byte list) \<Rightarrow> nat \<Rightarrow> byte list" where
  "balloc_view sp b v = v(BBLOCK b sp := mark_used (b mod BPB) (v (BBLOCK b sp)), b := replicate BSIZE 0)"

lemma used_balloc_view:
  assumes "length (v (BBLOCK b sp)) = BSIZE" "bm_ok v sp" "\<not> used v sp b" "c < sb_size sp" "geom s" "sp = sb s"
  shows "used (balloc_view sp b v) sp c \<longleftrightarrow> c = b \<or> used v sp c"
proof -
  have "dstart sp \<le> b" using assms(2,3) by (auto simp: bm_ok_def not_less [symmetric])
  then have "BBLOCK c sp \<noteq> b" using BBLOCK_area(2) [OF assms(5)] assms(4,6) by fastforce
  then show ?thesis using used_mark(1) [of v b sp c] assms(1) by (simp add: balloc_view_def used_def)
qed

lemma balloc_ok:
  assumes "tx d H (Suc (Suc r)) s" "card (dom H) < 2" "geom s" "bm_ok (view d s) (sb s)" "\<forall>c\<in>dom H. dstart (sb s) \<le> c \<and> used (view d s) (sb s) c"
    and "\<exists>b < sb_size (sb s). \<not> used (view d s) (sb s) b"
  shows "\<exists>b s'. balloc d s = Ok (b, s') \<and> dstart (sb s) \<le> b \<and> b < sb_size (sb s) \<and> \<not> used (view d s) (sb s) b \<and> tx d H r s' \<and>
    view d s' = balloc_view (sb s) b (view d s) \<and> lframe s s'"
proof -
  let ?n = "sb_size (sb s)" and ?bs = "map (\<lambda>k. k * BPB) [0..<(sb_size (sb s) + BPB - 1) div BPB]"
  have lt: "k * BPB < ?n" if "k < (?n + BPB - 1) div BPB" for k
  proof -
    have "Suc k * BPB \<le> ?n + BPB - 1" using that less_eq_div_iff_mult_less_eq [of BPB "Suc k" "?n + BPB - 1"] by simp
    then show ?thesis by simp
  qed
  obtain b where b: "b < ?n" "\<not> used (view d s) (sb s) b" using assms(6) by blast
  have k: "b div BPB < (?n + BPB - 1) div BPB"
  proof -
    have "Suc (b div BPB) * BPB \<le> ?n + BPB - 1" using b(1) div_times_less_eq_dividend [of b BPB] by simp
    then show ?thesis using less_eq_div_iff_mult_less_eq [of BPB "Suc (b div BPB)" "?n + BPB - 1"] by simp
  qed
  have "b mod BPB < ?n - b div BPB * BPB" using b(1) div_mult_mod_eq [of b BPB] by linarith
  moreover have "BBLOCK (b div BPB * BPB) (sb s) = BBLOCK b (sb s)" by (simp add: BBLOCK_def)
  ultimately have "\<exists>c\<in>set ?bs. \<exists>bi<min BPB (?n - c). bit_free bi (view d s (BBLOCK c (sb s)))"
    using k b(2) unfolding used_def by (auto intro!: bexI [of _ "b div BPB"] exI [of _ "b mod BPB"])
  moreover have "\<forall>c\<in>set ?bs. c mod BPB = 0 \<and> c < ?n" using lt by auto
  ultimately obtain c s' where c: "balloc_from d ?bs s = Ok (c, s')" "c < ?n" "\<not> used (view d s) (sb s) c" "tx d H r s'"
      "view d s' = balloc_view (sb s) c (view d s)" "lframe s s'"
    using balloc_from_ok [OF assms(1-5)] unfolding balloc_view_def by meson
  have "dstart (sb s) \<le> c" using c(3) assms(4) by (auto simp: bm_ok_def not_less [symmetric])
  then show ?thesis using c by (auto simp: balloc_def)
qed

lemma bfree_ok:
  assumes "tx d H (Suc r) s" "card (dom H) < 2" "geom s" "\<forall>c\<in>dom H. dstart (sb s) \<le> c" "b < sb_size (sb s)" "used (view d s) (sb s) b"
  shows "\<exists>s'. bfree d b s = Ok s' \<and> tx d H r s' \<and> lframe s s' \<and>
    view d s' = (view d s)(BBLOCK b (sb s) := mark_free (b mod BPB) (view d s (BBLOCK b (sb s))))"
proof -
  let ?B = "BBLOCK b (sb s)" and ?v = "view d s"
  note area = BBLOCK_area [OF assms(3,5)]
  have HB: "H ?B = None" using assms(4) area(2) by (metis domIff leD)
  from tb.update_tx [OF assms(1) HB assms(2) area(4)] obtain i s1 where r: "bread d ?B s = Ok (i, s1)" "b_data (bufs s1 ! i) = ?v ?B" "lframe s s1"
    and u: "\<forall>x. length x = BSIZE \<longrightarrow> (\<exists>s2 s'. tx_modify i x s1 = Ok s2 \<and> brelse i s2 = Ok s' \<and> tx d H r s' \<and>
      view d s' = ?v(?B := x) \<and> lframe s s2 \<and> lframe s s')" by blast
  have len: "length (mark_free (b mod BPB) (?v ?B)) = BSIZE" using tb.view_size [OF assms(1)] by simp
  from u [rule_format, OF len] show ?thesis using r assms(6) by (auto simp: bfree_def used_def tx_modify_def Let_def)
qed

end
