(* ===== verification/Inode_Blocks.thy ===== *)
theory Inode_Blocks
  imports Fs_Blocks
begin

text \<open>
  The blocks of an inode. An inode names up to 269 blocks: 268 data blocks, numbered from 0, and the
  indirect block, number 268 here. \<open>inode_ok\<close> says that the blocks it names are data blocks in use and
  different from each other. \<^verbatim>\<open>bmap\<close> returns the address of a data block; where there is none it allocates it.
\<close>

section \<open>Reading and writing numbers\<close>

lemma get32_put32:
  "off + 4 \<le> length bs \<Longrightarrow> get32 off (put32 off a bs) = a mod 2 ^ 32"
  "off + 4 \<le> length bs \<Longrightarrow> o' + 4 \<le> off \<or> off + 4 \<le> o' \<Longrightarrow> o' + 4 \<le> length bs \<Longrightarrow> get32 o' (put32 off a bs) = get32 o' bs"
  using slice_splice_same [of off "le_bytes 4 a" bs] slice_splice_other [of off "le_bytes 4 a" bs o' 4]
  by (simp_all add: get32_def put32_def le_val_le_bytes)

lemma length_put32 [simp]: "off + 4 \<le> length bs \<Longrightarrow> length (put32 off a bs) = length bs"
  by (simp add: put32_def)

lemma get32_zero: "off + 4 \<le> n \<Longrightarrow> get32 off (replicate n 0) = 0"
  by (simp add: get32_def slice_def le_val_replicate_0)

section \<open>The blocks of an inode\<close>

definition iaddr :: "(nat \<Rightarrow> byte list) \<Rightarrow> inode \<Rightarrow> nat \<Rightarrow> nat" where
  "iaddr v i x =
     (if x < NDIRECT then i_addrs i ! x
      else if x = MAXFILE then i_addrs i ! NDIRECT
      else if i_addrs i ! NDIRECT = 0 then 0 else get32 (4 * (x - NDIRECT)) (v (i_addrs i ! NDIRECT)))"

definition inode_ok :: "(nat \<Rightarrow> byte list) \<Rightarrow> superblock \<Rightarrow> inode \<Rightarrow> bool" where
  "inode_ok v sp i \<longleftrightarrow> length (i_addrs i) = 13 \<and>
     (\<forall>x\<le>MAXFILE. iaddr v i x \<noteq> 0 \<longrightarrow> dstart sp \<le> iaddr v i x \<and> iaddr v i x < sb_size sp \<and> used v sp (iaddr v i x)) \<and>
     (\<forall>x\<le>MAXFILE. \<forall>y\<le>MAXFILE. iaddr v i x \<noteq> 0 \<longrightarrow> iaddr v i x = iaddr v i y \<longrightarrow> x = y)"

lemma inode_okD:
  assumes "inode_ok v sp i" "x \<le> MAXFILE" "iaddr v i x \<noteq> 0"
  shows "dstart sp \<le> iaddr v i x" "iaddr v i x < sb_size sp" "used v sp (iaddr v i x)"
    and "\<And>y. y \<le> MAXFILE \<Longrightarrow> iaddr v i y = iaddr v i x \<Longrightarrow> y = x"
  using assms by (auto simp: inode_ok_def)

text \<open>Block \<open>a\<close>, free before, becomes block \<open>x\<close> of the inode.\<close>

lemma inode_ok_alloc:
  assumes "inode_ok v sp i" "dstart sp \<le> a" "a < sb_size sp" "\<not> used v sp a" "x \<le> MAXFILE"
    and "\<And>c. c < sb_size sp \<Longrightarrow> used v' sp c \<longleftrightarrow> c = a \<or> used v sp c"
    and "length (i_addrs i') = 13" "\<And>y. y \<le> MAXFILE \<Longrightarrow> iaddr v' i' y = (if y = x then a else iaddr v i y)"
  shows "inode_ok v' sp i'"
proof -
  have ne: "iaddr v i y \<noteq> a" if "y \<le> MAXFILE" for y
    using inode_okD(3) [OF assms(1) that] inode_okD(1) [OF assms(1) that] assms(2,4) by (auto simp: dstart_def)
  show ?thesis unfolding inode_ok_def
  proof (intro conjI allI impI)
    fix y assume y: "y \<le> MAXFILE" "iaddr v' i' y \<noteq> 0"
    show "dstart sp \<le> iaddr v' i' y" "iaddr v' i' y < sb_size sp" "used v' sp (iaddr v' i' y)"
      using assms(2-3) assms(6,8) y inode_okD(1,2,3) [OF assms(1) y(1)] by (auto split: if_splits)
    fix z assume z: "z \<le> MAXFILE" "iaddr v' i' y = iaddr v' i' z"
    show "y = z"
    proof (cases "y = x \<or> z = x")
      case True
      then show ?thesis using y z ne [OF y(1)] ne [OF z(1)] assms(8) [OF y(1)] assms(8) [OF z(1)] by metis
    next
      case False
      then have "iaddr v i y \<noteq> 0" "iaddr v i z = iaddr v i y" using y z assms(8) [OF y(1)] assms(8) [OF z(1)] by simp_all
      then show ?thesis using inode_okD(4) [OF assms(1) y(1) _ z(1)] by simp
    qed
  qed (rule assms(7))
qed

section \<open>States\<close>

text \<open>The cache and the log do not depend on the table of inodes.\<close>

lemma itable_irrelevant [simp]:
  "view d (s\<lparr>itable := t\<rparr>) = view d s" "tx d H r (s\<lparr>itable := t\<rparr>) = tx d H r s" "geom (s\<lparr>itable := t\<rparr>) = geom s"
  "legal (s\<lparr>itable := t\<rparr>) = legal s"
proof -
  have e: "bufs (s\<lparr>itable := t\<rparr>) = bufs s" "lru (s\<lparr>itable := t\<rparr>) = lru s" "disk (s\<lparr>itable := t\<rparr>) = disk s" by simp_all
  note c = bstate_cong [OF e]
  have o: "owned d (s\<lparr>itable := t\<rparr>) = owned d s" "bio_inv d (s\<lparr>itable := t\<rparr>) = bio_inv d s" "legal (s\<lparr>itable := t\<rparr>) = legal s"
    by (auto simp: fun_eq_iff owned_def is_buf_def holdingsleep_buf_def mypid_def myproc_def bio_inv_def legal_def)
  show "view d (s\<lparr>itable := t\<rparr>) = view d s" "geom (s\<lparr>itable := t\<rparr>) = geom s" "legal (s\<lparr>itable := t\<rparr>) = legal s"
    using c(1) o(3) by (simp_all add: geom_def)
  show "tx d H r (s\<lparr>itable := t\<rparr>) = tx d H r s" by (simp add: tx_def c o)
qed

lemma upd_inode_irrelevant [simp]:
  "view d (upd_inode ip f s) = view d s" "tx d H r (upd_inode ip f s) = tx d H r s" "geom (upd_inode ip f s) = geom s"
  "legal (upd_inode ip f s) = legal s" "sb (upd_inode ip f s) = sb s" "length (itable (upd_inode ip f s)) = length (itable s)"
  "itable (upd_inode ip f s) = (itable s)[ip := f (itable s ! ip)]"
  by (simp_all add: upd_inode_def)

definition fframe :: "'a fsst_scheme \<Rightarrow> 'a fsst_scheme \<Rightarrow> bool" where
  "fframe s s' \<longleftrightarrow> lframe (s\<lparr>itable := itable s'\<rparr>) s'"

lemma lframe_upd_itable: "lframe s s' \<Longrightarrow> lframe (s\<lparr>itable := t\<rparr>) (s'\<lparr>itable := t\<rparr>)"
  by (cases s; cases s') (auto simp: lframe_def bframe_def)

lemma lframe_fframe: "lframe s s' \<Longrightarrow> fframe s s'"
  using lframe_fs [of s s'] by (simp add: fframe_def)

lemma fframe_upd_inode [simp]: "fframe s (upd_inode ip f s)" "fframe s s"
  by (simp_all add: fframe_def upd_inode_def)

lemma fframe_trans: "fframe s s1 \<Longrightarrow> fframe s1 s2 \<Longrightarrow> fframe s s2"
  unfolding fframe_def using lframe_upd_itable [of "s\<lparr>itable := itable s1\<rparr>" s1 "itable s2"] by (auto intro: lframe_trans)

lemma fframe_fields:
  assumes "fframe s s'"
  shows "mem s' = mem s" "myproc s' = myproc s" "pwake (procs s) (procs s')" "sb s' = sb s" "geom s' = geom s" "legal s' = legal s"
    "log_outstanding s' = log_outstanding s" "log_committing s' = log_committing s" "log_dev s' = log_dev s"
  using lframe_fields [OF assms [unfolded fframe_def]] lframe_fs [OF assms [unfolded fframe_def]] geom_frame [OF assms [unfolded fframe_def]]
    lframe_legal [OF assms [unfolded fframe_def]] by (simp_all add: myproc_def)

section \<open>Growing an inode\<close>

definition fs_ok :: "nat \<Rightarrow> nat \<Rightarrow> 'a fsst_scheme \<Rightarrow> bool" where
  "fs_ok d ip s \<longleftrightarrow> geom s \<and> bm_ok (view d s) (sb s) \<and> ip < length (itable s) \<and> i_dev (itable s ! ip) = d \<and>
     inode_ok (view d s) (sb s) (itable s ! ip)"

abbreviation ino_addr :: "nat \<Rightarrow> nat \<Rightarrow> 'a fsst_scheme \<Rightarrow> nat \<Rightarrow> nat" where
  "ino_addr d ip s \<equiv> iaddr (view d s) (itable s ! ip)"

definition nfree :: "(nat \<Rightarrow> byte list) \<Rightarrow> superblock \<Rightarrow> nat" where
  "nfree v sp = card {b. b < sb_size sp \<and> \<not> used v sp b}"

text \<open>
  What allocating blocks for an inode and writing to them does: the blocks it had stay, new ones were free, and of
  the blocks in use only the free map and the inode's blocks with numbers in \<open>X\<close> change.
\<close>

definition grow :: "nat \<Rightarrow> nat \<Rightarrow> nat set \<Rightarrow> 'a fsst_scheme \<Rightarrow> 'a fsst_scheme \<Rightarrow> bool" where
  "grow d ip X s s' \<longleftrightarrow> fframe s s' \<and> X \<subseteq> {..MAXFILE} \<and> (\<exists>as. itable s' = (itable s)[ip := (itable s ! ip)\<lparr>i_addrs := as\<rparr>]) \<and>
     (\<forall>b < sb_size (sb s). used (view d s) (sb s) b \<longrightarrow> used (view d s') (sb s) b) \<and>
     (\<forall>x\<le>MAXFILE. ino_addr d ip s x \<noteq> 0 \<longrightarrow> ino_addr d ip s' x = ino_addr d ip s x) \<and>
     (\<forall>x\<le>MAXFILE. ino_addr d ip s x = 0 \<longrightarrow> ino_addr d ip s' x \<noteq> 0 \<longrightarrow>
        ino_addr d ip s' x < sb_size (sb s) \<and> \<not> used (view d s) (sb s) (ino_addr d ip s' x)) \<and>
     (\<forall>b. b < sb_bmapstart (sb s) \<longrightarrow> view d s' b = view d s b) \<and>
     (\<forall>b. dstart (sb s) \<le> b \<longrightarrow> b < sb_size (sb s) \<longrightarrow> used (view d s) (sb s) b \<longrightarrow> (\<forall>x\<in>X. ino_addr d ip s x \<noteq> b) \<longrightarrow>
        view d s' b = view d s b)"

lemma growD:
  assumes "grow d ip X s s'"
  shows "fframe s s'" "X \<subseteq> {..MAXFILE}" "\<exists>as. itable s' = (itable s)[ip := (itable s ! ip)\<lparr>i_addrs := as\<rparr>]"
    "\<And>b. b < sb_size (sb s) \<Longrightarrow> used (view d s) (sb s) b \<Longrightarrow> used (view d s') (sb s) b"
    "\<And>x. x \<le> MAXFILE \<Longrightarrow> ino_addr d ip s x \<noteq> 0 \<Longrightarrow> ino_addr d ip s' x = ino_addr d ip s x"
    "\<And>x. x \<le> MAXFILE \<Longrightarrow> ino_addr d ip s x = 0 \<Longrightarrow> ino_addr d ip s' x \<noteq> 0 \<Longrightarrow>
        ino_addr d ip s' x < sb_size (sb s) \<and> \<not> used (view d s) (sb s) (ino_addr d ip s' x)"
    "\<And>b. b < sb_bmapstart (sb s) \<Longrightarrow> view d s' b = view d s b"
    "\<And>b. dstart (sb s) \<le> b \<Longrightarrow> b < sb_size (sb s) \<Longrightarrow> used (view d s) (sb s) b \<Longrightarrow> (\<And>x. x \<in> X \<Longrightarrow> ino_addr d ip s x \<noteq> b) \<Longrightarrow>
        view d s' b = view d s b"
    "sb s' = sb s"
  using assms fframe_fields(4) [of s s'] unfolding grow_def by simp_all

lemma grow_refl [simp]: "grow d ip X s s \<longleftrightarrow> X \<subseteq> {..MAXFILE}"
proof -
  have "\<exists>as. itable s = (itable s)[ip := (itable s ! ip)\<lparr>i_addrs := as\<rparr>]"
    by (rule exI [of _ "i_addrs (itable s ! ip)"]) simp
  then show ?thesis unfolding grow_def by simp
qed

lemma grow_same: "lframe s s' \<Longrightarrow> view d s' = view d s \<Longrightarrow> X \<subseteq> {..MAXFILE} \<Longrightarrow> grow d ip X s s'"
  using grow_refl [of d ip X s] lframe_fs [of s s'] lframe_fframe [of s s'] unfolding grow_def by simp

lemma grow_mono: "grow d ip X s s' \<Longrightarrow> X \<subseteq> Y \<Longrightarrow> Y \<subseteq> {..MAXFILE} \<Longrightarrow> grow d ip Y s s'"
  unfolding grow_def by (simp add: subset_iff)

lemma grow_trans:
  assumes "grow d ip X s s1" "grow d ip X s1 s2"
  shows "grow d ip X s s2"
proof -
  note g1 = growD [OF assms(1)] and g2 = growD [OF assms(2), unfolded growD(9) [OF assms(1)]]
  have tab: "\<exists>as. itable s2 = (itable s)[ip := (itable s ! ip)\<lparr>i_addrs := as\<rparr>]"
  proof -
    obtain a1 a2 where "itable s1 = (itable s)[ip := (itable s ! ip)\<lparr>i_addrs := a1\<rparr>]" "itable s2 = (itable s1)[ip := (itable s1 ! ip)\<lparr>i_addrs := a2\<rparr>]"
      using g1(3) g2(3) by blast
    then show ?thesis by (cases "ip < length (itable s)") (auto simp: not_less list_update_beyond)
  qed
  have keep: "view d s2 b = view d s b"
    if b: "dstart (sb s) \<le> b" "b < sb_size (sb s)" "used (view d s) (sb s) b" "\<forall>x\<in>X. ino_addr d ip s x \<noteq> b" for b
  proof -
    have "ino_addr d ip s1 x \<noteq> b" if x: "x \<in> X" for x
    proof (cases "ino_addr d ip s x = 0")
      case True
      then show ?thesis using g1(2,6) x b(1,3) by (cases "ino_addr d ip s1 x = 0") (auto simp: dstart_def)
    next
      case False
      moreover have "x \<le> MAXFILE" using g1(2) x by auto
      ultimately show ?thesis using g1(5) x b(4) by simp
    qed
    then have "view d s2 b = view d s1 b" using g2(8) [OF b(1,2) g1(4) [OF b(2,3)]] by blast
    then show ?thesis using g1(8) [OF b(1-3)] b(4) by simp
  qed
  have new: "ino_addr d ip s2 x < sb_size (sb s) \<and> \<not> used (view d s) (sb s) (ino_addr d ip s2 x)"
    if x: "x \<le> MAXFILE" "ino_addr d ip s x = 0" "ino_addr d ip s2 x \<noteq> 0" for x
  proof (cases "ino_addr d ip s1 x = 0")
    case True
    then show ?thesis using g2(6) [OF x(1) True x(3)] g1(4) by blast
  next
    case False
    then show ?thesis using g2(5) [OF x(1) False] g1(6) [OF x(1,2) False] by simp
  qed
  have "ino_addr d ip s2 x = ino_addr d ip s x" if "x \<le> MAXFILE" "ino_addr d ip s x \<noteq> 0" for x
    using g1(5) [OF that] g2(5) [OF that(1)] that(2) by simp
  then show ?thesis using fframe_trans [OF g1(1) g2(1)] tab keep new g1(2,4,7) g2(4,7) unfolding grow_def by simp
qed

text \<open>One allocation: block \<open>a\<close>, returned by \<^verbatim>\<open>balloc\<close>, becomes block \<open>x\<close>.\<close>

lemma nfree_balloc:
  assumes "\<not> used v sp a" "a < sb_size sp" "\<And>c. c < sb_size sp \<Longrightarrow> used v' sp c \<longleftrightarrow> c = a \<or> used v sp c"
  shows "nfree v sp = Suc (nfree v' sp)"
proof -
  have "{b. b < sb_size sp \<and> \<not> used v sp b} = insert a {b. b < sb_size sp \<and> \<not> used v' sp b}" using assms by auto
  moreover have "a \<notin> {b. b < sb_size sp \<and> \<not> used v' sp b}" using assms by simp
  ultimately show ?thesis unfolding nfree_def by simp
qed

lemma grow_alloc:
  assumes "fs_ok d ip s" "tx d H r s" "dstart (sb s) \<le> a" "a < sb_size (sb s)" "\<not> used (view d s) (sb s) a" "x \<le> MAXFILE"
    and "fframe s s'" "itable s' = (itable s)[ip := (itable s ! ip)\<lparr>i_addrs := as\<rparr>]" "length as = 13"
    and "\<And>b. b \<noteq> ino_addr d ip s MAXFILE \<or> b < dstart (sb s) \<Longrightarrow> view d s' b = balloc_view (sb s) a (view d s) b"
    and "\<And>y. y \<le> MAXFILE \<Longrightarrow> ino_addr d ip s' y = (if y = x then a else ino_addr d ip s y)" "ino_addr d ip s x = 0"
  shows "fs_ok d ip s'" "grow d ip {MAXFILE} s s'" "nfree (view d s) (sb s) = Suc (nfree (view d s') (sb s))"
    "a \<noteq> ino_addr d ip s MAXFILE \<Longrightarrow> view d s' a = replicate BSIZE 0"
proof -
  note ok = assms(1) [unfolded fs_ok_def]
  have sb: "sb s' = sb s" "geom s'" using fframe_fields [OF assms(7)] ok by simp_all
  have us: "used (view d s') (sb s) c \<longleftrightarrow> c = a \<or> used (view d s) (sb s) c" if "c < sb_size (sb s)" for c
  proof -
    have "BBLOCK c (sb s) < dstart (sb s)" using BBLOCK_area(2) [of s c] ok that by simp
    then have "used (view d s') (sb s) c = used (balloc_view (sb s) a (view d s)) (sb s) c" using assms(10) by (simp add: used_def)
    then show ?thesis using used_balloc_view [of "view d s" a "sb s" c s] tb.view_size [OF assms(2)] ok assms(5) that by simp
  qed
  have "inode_ok (view d s') (sb s) (itable s' ! ip)"
    by (rule inode_ok_alloc [OF _ assms(3,4,5,6) us]) (use ok assms(8,9,11) in \<open>simp_all\<close>)
  moreover have "bm_ok (view d s') (sb s)" using ok us BBLOCK_area(3) [of s 0] assms(4) unfolding bm_ok_def
    by (metis gr_implies_not0 gr0I leD not_less order.strict_trans2)
  ultimately show "fs_ok d ip s'" using ok sb assms(8) by (simp add: fs_ok_def)
  show "nfree (view d s) (sb s) = Suc (nfree (view d s') (sb s))" by (rule nfree_balloc [OF assms(5,4) us])
  show "view d s' a = replicate BSIZE 0" if "a \<noteq> ino_addr d ip s MAXFILE" using assms(10) that by (simp add: balloc_view_def)
  have B: "sb_bmapstart (sb s) \<le> BBLOCK a (sb s)" "BBLOCK a (sb s) < dstart (sb s)" "sb_bmapstart (sb s) < dstart (sb s)"
    using BBLOCK_area(2) [of s a] ok assms(4) by (simp_all add: BBLOCK_def dstart_def)
  have "view d s' b = view d s b" if "b < sb_bmapstart (sb s)" for b
    using that B assms(3,10) by (simp add: balloc_view_def)
  moreover have "view d s' b = view d s b"
    if "dstart (sb s) \<le> b" "used (view d s) (sb s) b" "b \<noteq> ino_addr d ip s MAXFILE" for b
    using that B assms(5,10) by (auto simp: balloc_view_def)
  ultimately show "grow d ip {MAXFILE} s s'" using assms(4,5,7,8,11,12) us unfolding grow_def by auto
qed

section \<open>bmap\<close>

lemma nfree_pos: "0 < nfree v sp \<Longrightarrow> \<exists>b < sb_size sp. \<not> used v sp b"
  unfolding nfree_def by (metis (mono_tags, lifting) card.empty empty_Collect_eq less_irrefl)

lemma bmap_addr_ok:
  assumes "fs_ok d ip s" "tx d Map.empty (Suc (Suc r)) s" "k \<le> NDIRECT" "X = (if k < NDIRECT then k else MAXFILE)" "0 < nfree (view d s) (sb s)"
  shows "\<exists>a s'. bmap_addr ip k s = Ok (a, s') \<and> tx d Map.empty r s' \<and> fs_ok d ip s' \<and> grow d ip {MAXFILE} s s' \<and> ino_addr d ip s' X = a \<and> a \<noteq> 0 \<and>
    (\<forall>y\<le>MAXFILE. y \<noteq> X \<longrightarrow> ino_addr d ip s' y = ino_addr d ip s y) \<and> nfree (view d s) (sb s) \<le> Suc (nfree (view d s') (sb s)) \<and>
    (if ino_addr d ip s X = 0 then view d s' a = replicate BSIZE 0 else s' = s)"
proof (cases "ino_addr d ip s X = 0")
  case False
  have "ino_addr d ip s X = i_addrs (itable s ! ip) ! k" using assms(3,4) by (auto simp: iaddr_def)
  then show ?thesis using False assms(1) tb.less_room [OF assms(2), of r] by (auto simp: bmap_addr_def Let_def)
next
  case True
  let ?i = "itable s ! ip" and ?ind = "i_addrs (itable s ! ip) ! NDIRECT"
  note ok = assms(1) [unfolded fs_ok_def]
  have addr: "i_addrs ?i ! k = 0" using True assms(3,4) by (auto simp: iaddr_def split: if_splits)
  from balloc_ok [OF assms(2)] ok nfree_pos [OF assms(5)] obtain a s1 where al: "balloc d s = Ok (a, s1)" "dstart (sb s) \<le> a"
      "a < sb_size (sb s)" "\<not> used (view d s) (sb s) a" "tx d Map.empty r s1" "view d s1 = balloc_view (sb s) a (view d s)" "lframe s s1"
    by auto
  have tab: "itable s1 = itable s" using lframe_fs [OF al(7)] by simp
  let ?s' = "set_addr ip k a s1"
  have s': "bmap_addr ip k s = Ok (a, ?s')" using addr al(1) ok by (simp add: bmap_addr_def)
  have fr: "fframe s ?s'" using fframe_trans [OF lframe_fframe [OF al(7)]] by (simp add: set_addr_def)
  have it: "itable ?s' = (itable s)[ip := ?i\<lparr>i_addrs := (i_addrs ?i)[k := a]\<rparr>]" by (simp add: set_addr_def tab)
  have len: "length (i_addrs ?i) = 13" "length ((i_addrs ?i)[k := a]) = 13" using ok by (simp_all add: inode_ok_def)
  have ii: "itable ?s' ! ip = ?i\<lparr>i_addrs := (i_addrs ?i)[k := a]\<rparr>" using ok by (simp add: it)
  have v: "view d ?s' = balloc_view (sb s) a (view d s)" by (simp add: set_addr_def al(6))
  have X: "X \<le> MAXFILE" using assms(3,4) by auto
  have ind: "view d ?s' ?ind = view d s ?ind" if "?ind \<noteq> 0"
  proof -
    have "ino_addr d ip s MAXFILE = ?ind" by (simp add: iaddr_def)
    then have "dstart (sb s) \<le> ?ind" "used (view d s) (sb s) ?ind" using inode_okD(1,3) [of "view d s" "sb s" ?i MAXFILE] ok that by simp_all
    moreover have "BBLOCK a (sb s) < dstart (sb s)" using BBLOCK_area(2) [of s a] ok al(3) by simp
    ultimately show ?thesis using al(4) by (auto simp: v balloc_view_def)
  qed
  have ia: "ino_addr d ip ?s' y = (if y = X then a else ino_addr d ip s y)" if "y \<le> MAXFILE" for y
  proof (cases "k < NDIRECT")
    case True
    then show ?thesis unfolding ii using len ind that assms(4) by (auto simp: iaddr_def nth_list_update)
  next
    case False
    then have "k = NDIRECT" "?ind = 0" using assms(3) addr by simp_all
    moreover have "get32 (4 * (y - NDIRECT)) (view d ?s' a) = 0" if "y < MAXFILE" "NDIRECT \<le> y"
      using that by (simp add: v balloc_view_def get32_zero)
    ultimately show ?thesis unfolding ii using len(1) that assms(4) by (auto simp: iaddr_def nth_list_update)
  qed
  have "view d ?s' b = balloc_view (sb s) a (view d s) b" for b by (simp add: v)
  note g = grow_alloc [OF assms(1,2) al(2,3,4) X fr it len(2) this ia True]
  have ne: "a \<noteq> 0" using al(2) by (simp add: dstart_def)
  have "ino_addr d ip s MAXFILE \<noteq> a"
    using inode_okD(3) [of "view d s" "sb s" ?i MAXFILE] ok al(4) ne by auto
  then have "view d ?s' a = replicate BSIZE 0" using g(4) by metis
  moreover have "tx d Map.empty r ?s'" using al(5) by (simp add: set_addr_def)
  ultimately show ?thesis using s' g(1-3) ia [OF X] ia ne True by auto
qed

text \<open>The part of \<^verbatim>\<open>bmap\<close> that reads the indirect block and allocates a block for its entry.\<close>

definition bmap_ind :: "nat \<Rightarrow> nat \<Rightarrow> nat \<Rightarrow> 'a fsst_scheme \<Rightarrow> (nat \<times> 'a fsst_scheme) res" where
  "bmap_ind ip bn ind s1 =
     rbind (bread (i_dev (itable s1 ! ip)) ind s1) (\<lambda>(bp, s2).
       let addr = get32 (4 * bn) (bdata s2 bp) in
       if addr = 0 then
         rbind (balloc (i_dev (itable s2 ! ip)) s2) (\<lambda>(addr, s3).
         rbind (log_write bp (set_data bp (put32 (4 * bn) addr (bdata s3 bp)) s3)) (\<lambda>s4.
         rbind (brelse bp s4) (\<lambda>s5. Ok (addr, s5))))
       else rbind (brelse bp s2) (\<lambda>s3. Ok (addr, s3)))"

lemma bmap_split:
  "bmap ip bn s = (if bn < NDIRECT then bmap_addr ip bn s
     else if bn < MAXFILE then rbind (bmap_addr ip NDIRECT s) (\<lambda>(ind, s1). bmap_ind ip (bn - NDIRECT) ind s1)
     else Panic ''bmap: out of range'')"
proof (cases "bn < NDIRECT")
  case False
  then have "bn - NDIRECT < NINDIRECT \<longleftrightarrow> bn < MAXFILE" by linarith
  with False show ?thesis unfolding bmap_def bmap_ind_def Let_def by (simp only: if_False)
qed (simp add: bmap_def)

lemma bmap_ind_present:
  assumes "fs_ok d ip s" "tx d Map.empty r s" "NDIRECT \<le> bn" "bn < MAXFILE" "ino_addr d ip s bn \<noteq> 0"
  shows "\<exists>s'. bmap_ind ip (bn - NDIRECT) (ino_addr d ip s MAXFILE) s = Ok (ino_addr d ip s bn, s') \<and> tx d Map.empty r s' \<and> view d s' = view d s \<and> lframe s s'"
proof -
  let ?ind = "ino_addr d ip s MAXFILE"
  from tb.peek_tx [OF assms(2), of ?ind] obtain bp s1 s' where r: "bread d ?ind s = Ok (bp, s1)" "bdata s1 bp = view d s ?ind"
      "brelse bp s1 = Ok s'" "tx d Map.empty r s'" "view d s' = view d s" "lframe s s'" by auto
  have "get32 (4 * (bn - NDIRECT)) (view d s ?ind) = ino_addr d ip s bn" using assms(3-5) by (auto simp: iaddr_def split: if_splits)
  then show ?thesis using r assms(1,5) by (simp add: bmap_ind_def fs_ok_def)
qed

lemma bmap_ind_ok:
  assumes "fs_ok d ip s" "tx d Map.empty (Suc (Suc (Suc r))) s" "NDIRECT \<le> bn" "bn < MAXFILE" "ind = ino_addr d ip s MAXFILE" "ind \<noteq> 0"
    and "0 < nfree (view d s) (sb s)"
  shows "\<exists>a s'. bmap_ind ip (bn - NDIRECT) ind s = Ok (a, s') \<and> tx d Map.empty r s' \<and> fs_ok d ip s' \<and> grow d ip {MAXFILE} s s' \<and> ino_addr d ip s' bn = a \<and> a \<noteq> 0 \<and>
    (\<forall>y\<le>MAXFILE. y \<noteq> bn \<longrightarrow> ino_addr d ip s' y = ino_addr d ip s y) \<and> nfree (view d s) (sb s) \<le> Suc (nfree (view d s') (sb s)) \<and>
    (if ino_addr d ip s bn = 0 then view d s' a = replicate BSIZE 0 else view d s' = view d s \<and> itable s' = itable s)"
proof -
  let ?i = "itable s ! ip" and ?k = "4 * (bn - NDIRECT)"
  note ok = assms(1) [unfolded fs_ok_def]
  have ind: "i_addrs ?i ! NDIRECT = ind" using assms(5) by (simp add: iaddr_def)
  note iok = inode_okD [of "view d s" "sb s" ?i MAXFILE, folded assms(5)]
  have data: "dstart (sb s) \<le> ind" "ind < sb_size (sb s)" "used (view d s) (sb s) ind" using iok ok assms(6) by simp_all
  have len: "length (view d s b) = BSIZE" for b using tb.view_size [OF assms(2)] .
  from tb.read_tx [OF assms(2), of ind] obtain bp s2 where rd: "bread d ind s = Ok (bp, s2)" "tx d [ind \<mapsto> bp] (Suc (Suc (Suc r))) s2"
      "view d s2 = view d s" "lframe s s2" by auto
  have fs2: "sb s2 = sb s" "itable s2 = itable s" using lframe_fs [OF rd(4)] by simp_all
  have dat: "bdata s2 bp = view d s ind" using tb.held_data [OF rd(2), of ind bp] rd(3) by simp
  have addr: "get32 ?k (view d s ind) = ino_addr d ip s bn" using assms(3,4,6) ind by (simp add: iaddr_def)
  show ?thesis
  proof (cases "ino_addr d ip s bn = 0")
    case False
    from bmap_ind_present [OF assms(1,2,3,4) this] obtain s' where s': "bmap_ind ip (bn - NDIRECT) ind s = Ok (ino_addr d ip s bn, s')"
        "tx d Map.empty (Suc (Suc (Suc r))) s'" "view d s' = view d s" "lframe s s'" using assms(5) by blast
    then show ?thesis using False assms(1) lframe_fs [OF s'(4)] geom_frame [OF s'(4)] grow_same [OF s'(4,3), of "{MAXFILE}"] tb.less_room [OF s'(2), of r]
      by (simp add: fs_ok_def)
  next
    case True
    have pre: "card (dom [ind \<mapsto> bp]) < 2" "geom s2" "bm_ok (view d s2) (sb s2)" "\<forall>c\<in>dom [ind \<mapsto> bp]. dstart (sb s2) \<le> c \<and> used (view d s2) (sb s2) c"
        "\<exists>b < sb_size (sb s2). \<not> used (view d s2) (sb s2) b"
      using ok fs2 rd(3) geom_frame [OF rd(4)] data nfree_pos [OF assms(7)] by simp_all
    from balloc_ok [OF rd(2) pre] obtain a s3 where al: "balloc d s2 = Ok (a, s3)" "dstart (sb s) \<le> a" "a < sb_size (sb s)"
        "\<not> used (view d s) (sb s) a" "tx d [ind \<mapsto> bp] (Suc r) s3" "view d s3 = balloc_view (sb s) a (view d s)" "lframe s2 s3"
      using fs2 rd(3) by auto
    have "BBLOCK a (sb s) < dstart (sb s)" using BBLOCK_area(2) [of s a] ok al(3) by simp
    then have vind: "view d s3 ind = view d s ind" using al(4) data by (auto simp: al(6) balloc_view_def)
    have dat3: "bdata s3 bp = view d s ind" using tb.held_data [OF al(5), of ind bp] vind by simp
    let ?x = "put32 ?k a (view d s ind)"
    have lx: "length ?x = BSIZE" using assms(4) len by simp
    have lg: "legal s3 ind"
      using lframe_legal [OF lframe_trans [OF rd(4) al(7)]] geom_legal [of s ind] ok data BBLOCK_area(1) [of s 0] by (auto simp: geom_def sb_ok_def dstart_def)
    from tb.modify_tx [OF al(5) _ lg lx, of bp] obtain s4 where m: "tx_modify bp ?x s3 = Ok s4" "tx d [ind \<mapsto> bp] r s4"
        "view d s4 = (view d s3)(ind := ?x)" "lframe s3 s4" by auto
    from tb.release_tx [OF m(2), of ind bp] obtain s5 where rl: "brelse bp s4 = Ok s5" "tx d ([ind \<mapsto> bp](ind := None)) r s5"
        "view d s5 = view d s4" "lframe s4 s5" by auto
    have f5: "lframe s s5" using rd(4) al(7) m(4) rl(4) lframe_trans by blast
    have tab: "itable s5 = (itable s)[ip := ?i\<lparr>i_addrs := i_addrs ?i\<rparr>]" "itable s5 ! ip = ?i" using lframe_fs [OF f5] by simp_all
    have e: "[ind \<mapsto> bp](ind := None) = Map.empty" by auto
    have step: "bmap_ind ip (bn - NDIRECT) ind s = Ok (a, s5)"
      using rd(1) dat addr True al(1) dat3 m(1) rl(1) ok fs2 by (simp add: bmap_ind_def tx_modify_def)
    have v: "view d s5 b = balloc_view (sb s) a (view d s) b" if "b \<noteq> ino_addr d ip s MAXFILE \<or> b < dstart (sb s)" for b
      using that data assms(5) by (auto simp: rl(3) m(3) al(6))
    have gp: "get32 (4 * (y - NDIRECT)) ?x = (if y = bn then a else get32 (4 * (y - NDIRECT)) (view d s ind))" if "NDIRECT \<le> y" "y < MAXFILE" for y
    proof (cases "y = bn")
      case True
      then show ?thesis using get32_put32(1) [of ?k "view d s ind" a] assms(4) len al(3) ok by (simp add: geom_def sb_ok_def)
    next
      case False
      then have "4 * (y - NDIRECT) + 4 \<le> ?k \<or> ?k + 4 \<le> 4 * (y - NDIRECT)" using that(1) assms(3) by linarith
      then show ?thesis using False get32_put32(2) [of ?k "view d s ind" "4 * (y - NDIRECT)" a] that assms(4) len by simp
    qed
    have ia: "ino_addr d ip s5 y = (if y = bn then a else ino_addr d ip s y)" if "y \<le> MAXFILE" for y
      unfolding tab(2) using that assms(3,4,6) ind gp [of y] by (auto simp: iaddr_def rl(3) m(3))
    have l13: "length (i_addrs ?i) = 13" "bn \<le> MAXFILE" using ok assms(4) by (simp_all add: inode_ok_def)
    note g = grow_alloc [OF assms(1,2) al(2,3,4) l13(2) lframe_fframe [OF f5] tab(1) l13(1) v ia True]
    have ne: "a \<noteq> 0" using al(2) by (simp add: dstart_def)
    have "a \<noteq> ino_addr d ip s MAXFILE" using al(4) data(3) assms(5) by auto
    then show ?thesis using step g ia [OF l13(2)] ia ne True rl(2) [unfolded e] by auto
  qed
qed

lemma bmap_present:
  assumes "fs_ok d ip s" "tx d Map.empty r s" "bn < MAXFILE" "ino_addr d ip s bn \<noteq> 0"
  shows "\<exists>s'. bmap ip bn s = Ok (ino_addr d ip s bn, s') \<and> tx d Map.empty r s' \<and> view d s' = view d s \<and> lframe s s'"
proof (cases "bn < NDIRECT")
  case True
  then show ?thesis using assms by (auto simp: bmap_split bmap_addr_def iaddr_def)
next
  case False
  then have "bmap_addr ip NDIRECT s = Ok (ino_addr d ip s MAXFILE, s)"
    using assms(4) by (auto simp: bmap_addr_def iaddr_def split: if_splits)
  then show ?thesis using bmap_ind_present [OF assms(1,2) _ assms(3,4)] False assms(3) by (simp add: bmap_split)
qed

lemma bmap_ok:
  assumes "fs_ok d ip s" "tx d Map.empty (5 + r) s" "bn < MAXFILE" "2 \<le> nfree (view d s) (sb s)"
  shows "\<exists>a s'. bmap ip bn s = Ok (a, s') \<and> tx d Map.empty r s' \<and> fs_ok d ip s' \<and> grow d ip {MAXFILE} s s' \<and> ino_addr d ip s' bn = a \<and> a \<noteq> 0 \<and>
    (\<forall>y<MAXFILE. y \<noteq> bn \<longrightarrow> ino_addr d ip s' y = ino_addr d ip s y) \<and> nfree (view d s) (sb s) \<le> nfree (view d s') (sb s) + 2 \<and>
    (if ino_addr d ip s bn = 0 then view d s' a = replicate BSIZE 0 else view d s' = view d s \<and> itable s' = itable s)"
proof (cases "ino_addr d ip s bn = 0")
  case False
  from bmap_present [OF assms(1,2,3) this] obtain s' where s': "bmap ip bn s = Ok (ino_addr d ip s bn, s')" "tx d Map.empty (5 + r) s'"
      "view d s' = view d s" "lframe s s'" by blast
  then show ?thesis using False assms(1) lframe_fs [OF s'(4)] geom_frame [OF s'(4)] grow_same [OF s'(4,3), of "{MAXFILE}"] tb.less_room [OF s'(2), of r]
    by (simp add: fs_ok_def)
next
  case fresh: True
  show ?thesis
  proof (cases "bn < NDIRECT")
    case True
    have "tx d Map.empty (Suc (Suc r)) s" using tb.less_room [OF assms(2)] by simp
    from bmap_addr_ok [OF assms(1) this, of bn bn] True assms(4) show ?thesis by (auto simp: bmap_split fresh)
  next
    case False
    have "tx d Map.empty (Suc (Suc (Suc (Suc (Suc r))))) s" by (rule tb.less_room [OF assms(2)]) simp
    from bmap_addr_ok [OF assms(1) this, of NDIRECT MAXFILE] assms(4) obtain ind s1 where a: "bmap_addr ip NDIRECT s = Ok (ind, s1)"
        "tx d Map.empty (Suc (Suc (Suc r))) s1" "fs_ok d ip s1" "grow d ip {MAXFILE} s s1" "ino_addr d ip s1 MAXFILE = ind" "ind \<noteq> 0"
        "\<forall>y\<le>MAXFILE. y \<noteq> MAXFILE \<longrightarrow> ino_addr d ip s1 y = ino_addr d ip s y" "nfree (view d s) (sb s) \<le> Suc (nfree (view d s1) (sb s))" by auto
    have sb: "sb s1 = sb s" using a(4) fframe_fields(4) [of s s1] by (simp add: grow_def)
    from bmap_ind_ok [OF a(3,2) _ assms(3) a(5) [symmetric] a(6)] False a(8) assms(4) sb obtain b s2 where
      b: "bmap_ind ip (bn - NDIRECT) ind s1 = Ok (b, s2)" "tx d Map.empty r s2" "fs_ok d ip s2" "grow d ip {MAXFILE} s1 s2" "ino_addr d ip s2 bn = b" "b \<noteq> 0"
        "\<forall>y\<le>MAXFILE. y \<noteq> bn \<longrightarrow> ino_addr d ip s2 y = ino_addr d ip s1 y" "nfree (view d s1) (sb s) \<le> Suc (nfree (view d s2) (sb s))"
        "if ino_addr d ip s1 bn = 0 then view d s2 b = replicate BSIZE 0 else view d s2 = view d s1 \<and> itable s2 = itable s1" by auto
    have "ino_addr d ip s1 bn = 0" using a(7) assms(3) fresh by simp
    then show ?thesis using False assms(3) a b grow_trans [OF a(4) b(4)] fresh by (auto simp: bmap_split)
  qed
qed

end
