(* ===== verification/Dinode.thy ===== *)
theory Dinode
  imports Inode_Blocks
begin

text \<open>
  Inodes on disk: \<^verbatim>\<open>ilock\<close> reads from a block what \<^verbatim>\<open>iupdate\<close> wrote there, and
  writing one inode leaves the other fifteen of its block alone.
\<close>

text \<open>The values the fields of a \<^verbatim>\<open>struct dinode\<close> can hold.\<close>

definition short_ok :: "int \<Rightarrow> bool" where
  "short_ok v \<longleftrightarrow> - (2 ^ 15) \<le> v \<and> v < 2 ^ 15"

definition dinode_ok :: "inode \<Rightarrow> bool" where
  "dinode_ok i \<longleftrightarrow> short_ok (i_type i) \<and> short_ok (i_major i) \<and> short_ok (i_minor i) \<and> short_ok (i_nlink i) \<and>
     i_size i < 2 ^ 32 \<and> length (i_addrs i) = 13 \<and> (\<forall>a\<in>set (i_addrs i). a < 2 ^ 32)"

abbreviation enc_inode :: "inode \<Rightarrow> byte list" where
  "enc_inode i \<equiv> enc_dinode (i_type i) (i_major i) (i_minor i) (i_nlink i) (i_size i) (i_addrs i)"

lemma length_enc_inode: "length (i_addrs i) = 13 \<Longrightarrow> length (enc_inode i) = 64"
  by (simp add: enc_dinode_def bytes16_def)

lemma get16_bytes16:
  assumes "short_ok v" "slice off 2 bs = bytes16 v"
  shows "get16 off bs = v"
proof -
  have "v mod 2 ^ 16 = (if v < 0 then v + 2 ^ 16 else v)"
    using assms(1) mod_add_self2 [of v "2 ^ 16"] mod_pos_pos_trivial [of "v + 2 ^ 16" "2 ^ 16"] by (auto simp: short_ok_def)
  moreover have "le_val (bytes16 v) = nat (v mod 2 ^ 16)" by (simp add: bytes16_def le_val_le_bytes)
  ultimately show ?thesis using assms by (auto simp: get16_def Let_def short_ok_def)
qed

text \<open>A slice that lies within the part a splice replaces, and one outside of it.\<close>

lemma slice_splice_in:
  assumes "off + length c \<le> length d" "k + n \<le> length c"
  shows "slice (off + k) n (splice off c d) = slice k n c"
  using assms by (simp add: slice_def splice_def)

lemma slice_enc:
  assumes "length (i_addrs i) = 13"
  shows "slice 0 2 (enc_inode i) = bytes16 (i_type i)" "slice 2 2 (enc_inode i) = bytes16 (i_major i)"
    "slice 4 2 (enc_inode i) = bytes16 (i_minor i)" "slice 6 2 (enc_inode i) = bytes16 (i_nlink i)"
    "slice 8 4 (enc_inode i) = le_bytes 4 (i_size i)" "k < 13 \<Longrightarrow> slice (12 + 4 * k) 4 (enc_inode i) = le_bytes 4 (i_addrs i ! k)"
proof -
  have l: "length (bytes16 v) = 2" for v by (simp add: bytes16_def)
  show "slice 0 2 (enc_inode i) = bytes16 (i_type i)" "slice 2 2 (enc_inode i) = bytes16 (i_major i)"
    "slice 4 2 (enc_inode i) = bytes16 (i_minor i)" "slice 6 2 (enc_inode i) = bytes16 (i_nlink i)"
    "slice 8 4 (enc_inode i) = le_bytes 4 (i_size i)"
    by (simp_all add: slice_def enc_dinode_def l)
  show "slice (12 + 4 * k) 4 (enc_inode i) = le_bytes 4 (i_addrs i ! k)" if "k < 13"
    using slice_concat_le4 [of k "i_addrs i"] that assms by (simp add: slice_def enc_dinode_def l)
qed

lemma dinode_off_bound: "dinode_off n + 64 \<le> BSIZE"
proof -
  have "n mod IPB < 16" by simp
  then show ?thesis by (simp add: dinode_off_def)
qed

lemma load_store_dinode:
  assumes "dinode_ok i" "length d = BSIZE" "i_inum j = i_inum i"
  shows "load_dinode (store_dinode i d) j = j\<lparr>i_type := i_type i, i_major := i_major i, i_minor := i_minor i, i_nlink := i_nlink i,
    i_size := i_size i, i_addrs := i_addrs i\<rparr>"
proof -
  let ?o = "dinode_off (i_inum i)" and ?d = "store_dinode i d"
  have len: "length (i_addrs i) = 13" using assms(1) by (simp add: dinode_ok_def)
  have b: "?o + length (enc_inode i) \<le> length d" using dinode_off_bound assms(2) by (simp only: length_enc_inode [OF len])
  have s: "slice (?o + k) n ?d = slice k n (enc_inode i)" if "k + n \<le> 64" for k n
    unfolding store_dinode_def by (rule slice_splice_in [OF b]) (use that in \<open>simp only: length_enc_inode [OF len]\<close>)
  have h: "get16 (?o + k) ?d = v" if "short_ok v" "slice k 2 (enc_inode i) = bytes16 v" "k \<le> 62" for k v
    using get16_bytes16 [OF that(1), of "?o + k" ?d] s [of k 2] that by simp
  have w: "get32 (?o + k) ?d = v" if "v < 2 ^ 32" "slice k 4 (enc_inode i) = le_bytes 4 v" "k \<le> 60" for k v
    using s [of k 4] that by (simp add: get32_def le_val_le_bytes)
  have a: "map (\<lambda>k. get32 (?o + 12 + 4 * k) ?d) [0..<13] = i_addrs i"
  proof (rule nth_equalityI)
    fix k assume "k < length (map (\<lambda>k. get32 (?o + 12 + 4 * k) ?d) [0..<13])"
    then have k: "k < 13" by simp
    have "i_addrs i ! k < 2 ^ 32" using assms(1) k by (simp add: dinode_ok_def)
    from w [OF this slice_enc(6) [OF len k]] k show "map (\<lambda>k. get32 (?o + 12 + 4 * k) ?d) [0..<13] ! k = i_addrs i ! k"
      by (simp add: add.assoc)
  qed (simp add: len)
  have "get16 ?o ?d = i_type i" "get16 (?o + 2) ?d = i_major i" "get16 (?o + 4) ?d = i_minor i" "get16 (?o + 6) ?d = i_nlink i"
      "get32 (?o + 8) ?d = i_size i"
    using h [of "i_type i" 0] h [of "i_major i" 2] h [of "i_minor i" 4] h [of "i_nlink i" 6] w [of "i_size i" 8] slice_enc [OF len] assms(1)
    by (simp_all add: dinode_ok_def)
  then show ?thesis using a assms(3) unfolding load_dinode_def by (simp add: Let_def)
qed

lemma load_store_other:
  assumes "length (i_addrs i) = 13" "length d = BSIZE" "i_inum j mod IPB \<noteq> i_inum i mod IPB"
  shows "load_dinode (store_dinode i d) j = load_dinode d j"
proof -
  let ?o = "dinode_off (i_inum i)" and ?p = "dinode_off (i_inum j)"
  have "?p + 64 \<le> ?o \<or> ?o + 64 \<le> ?p" using assms(3) unfolding dinode_off_def by linarith
  then have s: "slice (?p + k) n (store_dinode i d) = slice (?p + k) n d" if "k + n \<le> 64" for k n
    unfolding store_dinode_def using dinode_off_bound [of "i_inum i"] dinode_off_bound [of "i_inum j"] assms(2) that length_enc_inode [OF assms(1)]
    by (intro slice_splice_other) auto
  have h: "get16 (?p + k) (store_dinode i d) = get16 (?p + k) d" if "k \<le> 62" for k using s [of k 2] that by (simp add: get16_def)
  have w: "get32 (?p + k) (store_dinode i d) = get32 (?p + k) d" if "k \<le> 60" for k using s [of k 4] that by (simp add: get32_def)
  have "map (\<lambda>k. get32 (?p + 12 + 4 * k) (store_dinode i d)) [0..<13] = map (\<lambda>k. get32 (?p + 12 + 4 * k) d) [0..<13]"
    by (rule map_cong [OF refl]) (use w [of "12 + 4 * _"] in \<open>simp add: add.assoc\<close>)
  then show ?thesis using h [of 0] h [of 2] h [of 4] h [of 6] w [of 8] unfolding load_dinode_def Let_def by simp
qed

end
