(* ===== verification/Inode_Io.thy ===== *)
theory Inode_Io
  imports Dinode
begin

text \<open>
  The contents of a file: \<^verbatim>\<open>readi\<close> delivers the bytes of the file, \<^verbatim>\<open>writei\<close>
  overwrites and extends them, whatever the bytes are copied to or from. Where they go is the locale
  \<open>byte_sink\<close>, where they come from \<open>byte_source\<close>; user memory, kernel memory and kernel variables
  are instances of both.
\<close>

section \<open>The contents of a file\<close>

definition fbyte :: "(nat \<Rightarrow> byte list) \<Rightarrow> inode \<Rightarrow> nat \<Rightarrow> byte" where
  "fbyte v i k = v (iaddr v i (k div BSIZE)) ! (k mod BSIZE)"

definition content :: "(nat \<Rightarrow> byte list) \<Rightarrow> inode \<Rightarrow> byte list" where
  "content v i = map (fbyte v i) [0..<i_size i]"

text \<open>Every byte of the file has a block.\<close>

definition file_ok :: "(nat \<Rightarrow> byte list) \<Rightarrow> inode \<Rightarrow> bool" where
  "file_ok v i \<longleftrightarrow> i_size i \<le> MAXFILE * BSIZE \<and> (\<forall>k<i_size i. iaddr v i (k div BSIZE) \<noteq> 0)"

lemma chunk_block:
  assumes "m = chunk_len left off" "k < m"
  shows "(off + k) div BSIZE = off div BSIZE" "(off + k) mod BSIZE = off mod BSIZE + k" "off mod BSIZE + m \<le> BSIZE"
proof -
  have k: "off mod BSIZE + k < BSIZE" "off mod BSIZE + m \<le> BSIZE" using assms by (auto simp: chunk_len_def)
  have "off + k = off div BSIZE * BSIZE + (off mod BSIZE + k)" by simp
  then show "(off + k) div BSIZE = off div BSIZE" "(off + k) mod BSIZE = off mod BSIZE + k"
    using k(1) by (metis div_mult_self3 div_less add_0_right zero_neq_numeral add.commute, metis mod_mult_self3 mod_less)
  show "off mod BSIZE + m \<le> BSIZE" by (rule k(2))
qed

lemma slice_fbyte:
  assumes "m = chunk_len left off" "length (v (iaddr v i (off div BSIZE))) = BSIZE"
  shows "slice (off mod BSIZE) m (v (iaddr v i (off div BSIZE))) = map (fbyte v i) [off..<off + m]"
proof (rule nth_equalityI)
  have m: "off mod BSIZE + m \<le> BSIZE" using assms(1) by (auto simp: chunk_len_def)
  then show "length (slice (off mod BSIZE) m (v (iaddr v i (off div BSIZE)))) = length (map (fbyte v i) [off..<off + m])"
    using assms(2) by simp
  fix k assume "k < length (slice (off mod BSIZE) m (v (iaddr v i (off div BSIZE))))"
  then have k: "k < m" using m assms(2) by simp
  show "slice (off mod BSIZE) m (v (iaddr v i (off div BSIZE))) ! k = map (fbyte v i) [off..<off + m] ! k"
    using k m assms(2) chunk_block(1,2) [OF assms(1) k] by (simp add: nth_slice fbyte_def)
qed

section \<open>Memory and the file system\<close>

text \<open>The cache, the log and the inodes do not depend on memory.\<close>

lemma mem_bstate [simp]:
  "view d (s\<lparr>mem := m\<rparr>) = view d s" "refs d (s\<lparr>mem := m\<rparr>) = refs d s" "blocked d (s\<lparr>mem := m\<rparr>) = blocked d s"
  "free_bufs (s\<lparr>mem := m\<rparr>) = free_bufs s" for s :: "'a bstate_scheme"
  by (rule bstate_cong; simp)+

lemma mem_tx [simp]: "tx d H r (s\<lparr>mem := m\<rparr>) = tx d H r s"
proof -
  have "owned d (s\<lparr>mem := m\<rparr>) = owned d s" "bio_inv d (s\<lparr>mem := m\<rparr>) = bio_inv d s" "legal (s\<lparr>mem := m\<rparr>) = legal s"
    by (auto simp: fun_eq_iff owned_def is_buf_def holdingsleep_buf_def mypid_def myproc_def bio_inv_def legal_def)
  then show ?thesis by (simp add: tx_def)
qed

lemma mem_fs [simp]: "geom (s\<lparr>mem := m\<rparr>) = geom s" "fs_ok d ip (s\<lparr>mem := m\<rparr>) = fs_ok d ip s"
  by (simp_all add: geom_def fs_ok_def)

definition mframe :: "'a logst_scheme \<Rightarrow> 'a logst_scheme \<Rightarrow> bool" where
  "mframe s s' \<longleftrightarrow> lframe (s\<lparr>mem := mem s'\<rparr>) s'"

lemma lframe_upd_mem: "lframe s s' \<Longrightarrow> lframe (s\<lparr>mem := t\<rparr>) (s'\<lparr>mem := t\<rparr>)"
  by (cases s; cases s') (auto simp: lframe_def bframe_def)

lemma lframe_mframe: "lframe s s' \<Longrightarrow> mframe s s'"
  using lframe_fields(1) [of s s'] by (simp add: mframe_def)

lemma mframe_simps [simp]: "mframe s (s\<lparr>mem := m\<rparr>)" "mframe s s"
  by (simp_all add: mframe_def)

lemma mframe_trans: "mframe s s1 \<Longrightarrow> mframe s1 s2 \<Longrightarrow> mframe s s2"
  unfolding mframe_def using lframe_upd_mem [of "s\<lparr>mem := mem s1\<rparr>" s1 "mem s2"] by (auto intro: lframe_trans)

lemma mframe_fs: "mframe s s' \<Longrightarrow> sb s' = sb s \<and> itable s' = itable s \<and> geom s' = geom s" for s :: "'a fsst_scheme"
  using lframe_fs [of "s\<lparr>mem := mem s'\<rparr>" s'] geom_frame [of "s\<lparr>mem := mem s'\<rparr>" s'] by (simp add: mframe_def)

section \<open>Reading\<close>

text \<open>
  \<open>got bs dst s\<close>: the bytes \<open>bs\<close> have been delivered, and \<open>dst\<close> is where the next ones
  go. There is room for \<open>room\<close> bytes in all.
\<close>

locale byte_sink =
  fixes got :: "byte list \<Rightarrow> dest \<Rightarrow> 'a fsst_scheme \<Rightarrow> bool"
    and room :: nat
  assumes got_frame: "got bs dst s \<Longrightarrow> lframe s s' \<Longrightarrow> got bs dst s'"
    and got_more: "got bs dst s \<Longrightarrow> length bs + length x \<le> room \<Longrightarrow>
      \<exists>dst' m. copy_to dst x s = (0, dst', s\<lparr>mem := m\<rparr>) \<and> got (bs @ x) dst' (s\<lparr>mem := m\<rparr>)"
begin

lemma readi_loop_ok:
  assumes "got bs dst s" "length bs + (n - tot) \<le> room" "tx d Map.empty r s" "fs_ok d ip s" "tot \<le> n" "off + (n - tot) \<le> MAXFILE * BSIZE"
    and "\<forall>k. off \<le> k \<and> k < off + (n - tot) \<longrightarrow> ino_addr d ip s (k div BSIZE) \<noteq> 0"
  shows "\<exists>dst' s'. readi_loop ip dst off n tot s = Ok (int n, dst', s') \<and>
    got (bs @ map (fbyte (view d s) (itable s ! ip)) [off..<off + (n - tot)]) dst' s' \<and> tx d Map.empty r s' \<and> view d s' = view d s \<and> mframe s s'"
  using assms
proof (induction ip dst off n tot s arbitrary: bs rule: readi_loop.induct)
  case (1 ip dst off n tot s)
  show ?case
  proof (cases "tot < n")
    case True
    let ?m = "chunk_len (n - tot) off" and ?a = "ino_addr d ip s (off div BSIZE)" and ?i = "itable s ! ip"
    have m: "0 < ?m" "?m \<le> n - tot" using True by (simp_all add: chunk_len_def)
    have "off div BSIZE < MAXFILE" using "1.prems"(6) True by (simp add: less_mult_imp_div_less)
    moreover have "?a \<noteq> 0" using "1.prems"(7) True by simp
    ultimately obtain s1 where b: "bmap ip (off div BSIZE) s = Ok (?a, s1)" "tx d Map.empty r s1" "view d s1 = view d s" "lframe s s1"
      using bmap_present [OF "1.prems"(4,3)] by blast
    from tb.read_tx [OF b(2), of ?a] obtain bp s2 where rd: "bread d ?a s1 = Ok (bp, s2)" "tx d [?a \<mapsto> bp] r s2" "view d s2 = view d s" "lframe s1 s2"
      using b(3) by auto
    have dat: "slice (off mod BSIZE) ?m (bdata s2 bp) = map (fbyte (view d s) ?i) [off..<off + ?m]"
      using tb.held_data [OF rd(2), of ?a bp] rd(3) slice_fbyte [of ?m "n - tot" off "view d s" ?i] tb.view_size [OF "1.prems"(3)] by simp
    have f2: "lframe s s2" using lframe_trans [OF b(4) rd(4)] .
    from got_more [OF got_frame [OF "1.prems"(1) f2], of "map (fbyte (view d s) ?i) [off..<off + ?m]"] "1.prems"(2) m
    obtain dst1 mm where c: "copy_to dst (map (fbyte (view d s) ?i) [off..<off + ?m]) s2 = (0, dst1, s2\<lparr>mem := mm\<rparr>)"
        "got (bs @ map (fbyte (view d s) ?i) [off..<off + ?m]) dst1 (s2\<lparr>mem := mm\<rparr>)" by auto
    have "tx d [?a \<mapsto> bp] r (s2\<lparr>mem := mm\<rparr>)" using rd(2) by simp
    from tb.release_tx [OF this, of ?a bp] obtain s4 where rl: "brelse bp (s2\<lparr>mem := mm\<rparr>) = Ok s4" "tx d ([?a \<mapsto> bp](?a := None)) r s4"
        "view d s4 = view d s" "lframe (s2\<lparr>mem := mm\<rparr>) s4" using rd(3) by auto
    have e: "[?a \<mapsto> bp](?a := None) = Map.empty" by auto
    have f4: "mframe s s4" using mframe_trans [OF lframe_mframe [OF f2]] mframe_trans [OF mframe_simps(1) lframe_mframe [OF rl(4)]] by blast
    note fs4 = mframe_fs [OF f4]
    have dev: "i_dev (itable s1 ! ip) = d" using "1.prems"(4) lframe_fs [OF b(4)] by (simp add: fs_ok_def)
    have step: "readi_loop ip dst off n tot s = readi_loop ip dst1 (off + ?m) n (tot + ?m) s4"
      unfolding readi_loop.simps [of ip dst off] using True b(1) rd(1) dev dat c(1) rl(1) by (simp add: Let_def)
    have ok4: "fs_ok d ip s4" using "1.prems"(4) fs4 rl(3) by (simp add: fs_ok_def)
    have "\<exists>dst' s'. readi_loop ip dst1 (off + ?m) n (tot + ?m) s4 = Ok (int n, dst', s') \<and>
      got ((bs @ map (fbyte (view d s) ?i) [off..<off + ?m]) @ map (fbyte (view d s4) (itable s4 ! ip)) [off + ?m..<off + ?m + (n - (tot + ?m))]) dst' s' \<and>
      tx d Map.empty r s' \<and> view d s' = view d s4 \<and> mframe s4 s'"
      using "1.prems"(2,6,7) m True b(1) rd(1) dev dat c(1) rl fs4 got_frame [OF c(2) rl(4)] ok4
      by (intro "1.IH") (auto simp: e)
    moreover have "map (fbyte (view d s) ?i) [off..<off + ?m] @ map (fbyte (view d s) ?i) [off + ?m..<off + (n - tot)] =
        map (fbyte (view d s) ?i) [off..<off + (n - tot)]"
      using m upt_add_eq_append [of off "off + ?m" "n - tot - ?m"] by (simp flip: map_append)
    ultimately show ?thesis unfolding step using m fs4 rl(3) mframe_trans [OF f4] by auto
  next
    case False
    then show ?thesis using "1.prems" by (simp add: readi_loop.simps [of ip dst off])
  qed
qed

lemma readi_ok:
  assumes "got bs dst s" "c = take n (drop off (content (view d s) (itable s ! ip)))" "length bs + length c \<le> room"
    and "tx d Map.empty r s" "fs_ok d ip s" "file_ok (view d s) (itable s ! ip)" "off + n < 2 ^ 32"
  shows "\<exists>dst' s'. readi ip dst off n s = Ok (int (length c), dst', s') \<and> got (bs @ c) dst' s' \<and> tx d Map.empty r s' \<and> view d s' = view d s \<and> mframe s s'"
proof (cases "off > i_size (itable s ! ip)")
  case True
  then have c: "c = []" using assms(2) by (simp add: content_def)
  show ?thesis unfolding c using True assms(1,4) by (simp add: readi_def Let_def)
next
  case False
  let ?i = "itable s ! ip" and ?n = "if off + n > i_size (itable s ! ip) then i_size (itable s ! ip) - off else n"
  have c: "c = map (fbyte (view d s) ?i) [off..<off + ?n]"
    using False assms(2) by (auto simp: content_def drop_map take_map drop_upt take_upt min_def)
  have "off + (?n - 0) \<le> MAXFILE * BSIZE" "\<forall>k. off \<le> k \<and> k < off + (?n - 0) \<longrightarrow> ino_addr d ip s (k div BSIZE) \<noteq> 0"
    using False assms(6) by (auto simp: file_ok_def)
  moreover have "length bs + (?n - 0) \<le> room" using assms(3) c by simp
  ultimately show ?thesis using readi_loop_ok [OF assms(1) _ assms(4,5), of ?n 0 off] False assms(7) c by (simp add: readi_def Let_def)
qed

end

section \<open>Writing a block\<close>

abbreviation chg :: "nat \<Rightarrow> nat \<Rightarrow> 'a fsst_scheme \<Rightarrow> 'a fsst_scheme \<Rightarrow> bool" where
  "chg d ip \<equiv> grow d ip {..MAXFILE}"

text \<open>Growing a file keeps its bytes.\<close>

lemma grow_fbyte:
  assumes "grow d ip {MAXFILE} s s'" "fs_ok d ip s" "k < MAXFILE * BSIZE" "ino_addr d ip s (k div BSIZE) \<noteq> 0"
  shows "fbyte (view d s') (itable s' ! ip) k = fbyte (view d s) (itable s ! ip) k"
proof -
  have x: "k div BSIZE < MAXFILE" using assms(3) by (simp add: less_mult_imp_div_less)
  note io = inode_okD [OF assms(2) [unfolded fs_ok_def, THEN conjunct2, THEN conjunct2, THEN conjunct2, THEN conjunct2] _ assms(4)]
  have "ino_addr d ip s (k div BSIZE) \<noteq> ino_addr d ip s MAXFILE" using io(4) [of MAXFILE] x by auto
  then show ?thesis using growD(5) [OF assms(1) _ assms(4)] growD(8) [OF assms(1)] io(1-3) x by (auto simp: fbyte_def)
qed

text \<open>New contents for one data block of the file.\<close>

lemma store_block:
  assumes "fs_ok d ip s" "tx d H r s" "bn < MAXFILE" "a = ino_addr d ip s bn" "a \<noteq> 0" "lframe s s'" "view d s' = (view d s)(a := x)" 
  shows "fs_ok d ip s'" "chg d ip s s'" "nfree (view d s') (sb s) = nfree (view d s) (sb s)" "\<And>y. y \<le> MAXFILE \<Longrightarrow> ino_addr d ip s' y = ino_addr d ip s y"
proof -
  note ok = assms(1) [unfolded fs_ok_def]
  note fs = lframe_fs [OF assms(6)]
  have io: "dstart (sb s) \<le> a" "a < sb_size (sb s)" "used (view d s) (sb s) a" "\<And>y. y \<le> MAXFILE \<Longrightarrow> ino_addr d ip s y = a \<Longrightarrow> y = bn"
    using inode_okD [of "view d s" "sb s" "itable s ! ip" bn] ok assms(3-5) by auto
  show ia: "ino_addr d ip s' y = ino_addr d ip s y" if "y \<le> MAXFILE" for y
  proof -
    have "i_addrs (itable s ! ip) ! NDIRECT \<noteq> a" using io(4) [of MAXFILE] assms(3) by (auto simp: iaddr_def)
    then show ?thesis using fs assms(7) by (simp add: iaddr_def)
  qed
  have us: "used (view d s') (sb s) c = used (view d s) (sb s) c" if "c < sb_size (sb s)" for c
    using BBLOCK_area(2) [of s c] ok that io(1) assms(7) by (auto simp: used_def)
  have "inode_ok (view d s') (sb s) (itable s ! ip)"
    using ok us ia fs unfolding inode_ok_def by auto
  moreover have "bm_ok (view d s') (sb s)" using ok us io(1,2) unfolding bm_ok_def by simp
  ultimately show "fs_ok d ip s'" using ok fs geom_frame [OF assms(6)] by (simp add: fs_ok_def)
  show "nfree (view d s') (sb s) = nfree (view d s) (sb s)" unfolding nfree_def using us by (metis (no_types, lifting) Collect_cong)
  have tab: "\<exists>as. itable s' = (itable s)[ip := (itable s ! ip)\<lparr>i_addrs := as\<rparr>]"
    by (rule exI [of _ "i_addrs (itable s ! ip)"]) (simp add: fs)
  have bm: "sb_bmapstart (sb s) < dstart (sb s)" by (simp add: dstart_def)
  show "chg d ip s s'" unfolding grow_def using tab us ia io bm assms(3,4,7) lframe_fframe [OF assms(6)] by auto
qed

lemma fbyte_block:
  assumes "fs_ok d ip s" "bn < MAXFILE" "a = ino_addr d ip s bn" "a \<noteq> 0" "lframe s s'" "view d s' = (view d s)(a := x)"
    and "\<And>y. y \<le> MAXFILE \<Longrightarrow> ino_addr d ip s' y = ino_addr d ip s y" "k < MAXFILE * BSIZE"
  shows "fbyte (view d s') (itable s' ! ip) k = (if k div BSIZE = bn then x ! (k mod BSIZE) else fbyte (view d s) (itable s ! ip) k)"
proof -
  have x: "k div BSIZE < MAXFILE" using assms(8) by (simp add: less_mult_imp_div_less)
  have inj: "ino_addr d ip s (k div BSIZE) = a \<longleftrightarrow> k div BSIZE = bn"
    using inode_okD(4) [of "view d s" "sb s" "itable s ! ip" bn "k div BSIZE"] assms(1-4) x by (auto simp: fs_ok_def)
  then show ?thesis using assms(6,7) x by (auto simp: fbyte_def)
qed

text \<open>One round of the loop of \<^verbatim>\<open>writei\<close>: the bytes \<open>x\<close> go to offset \<open>off\<close>, all in one block.\<close>

lemma write_step:
  assumes "fs_ok d ip s" "tx d Map.empty (6 + r) s" "2 \<le> nfree (view d s) (sb s)" "off div BSIZE < MAXFILE" "off mod BSIZE + length x \<le> BSIZE"
  shows "\<exists>a s1 bp s2 s4 s5. bmap ip (off div BSIZE) s = Ok (a, s1) \<and> i_dev (itable s1 ! ip) = d \<and> bread d a s1 = Ok (bp, s2) \<and> fframe s s2 \<and>
    log_write bp (set_data bp (splice (off mod BSIZE) x (bdata s2 bp)) s2) = Ok s4 \<and> brelse bp s4 = Ok s5 \<and> fframe s s5 \<and>
    tx d Map.empty r s5 \<and> fs_ok d ip s5 \<and> chg d ip s s5 \<and> nfree (view d s) (sb s) \<le> nfree (view d s5) (sb s) + 2 \<and>
    ino_addr d ip s5 (off div BSIZE) \<noteq> 0 \<and>
    (\<forall>k<length x. fbyte (view d s5) (itable s5 ! ip) (off + k) = x ! k) \<and>
    (\<forall>k<MAXFILE * BSIZE. ino_addr d ip s (k div BSIZE) \<noteq> 0 \<longrightarrow> k < off \<or> off + length x \<le> k \<longrightarrow>
       fbyte (view d s5) (itable s5 ! ip) k = fbyte (view d s) (itable s ! ip) k)"
proof -
  have "tx d Map.empty (5 + Suc r) s" using assms(2) by (simp add: add.commute [of _ "Suc r"] add.commute [of _ r])
  from bmap_ok [OF assms(1) this assms(4,3)] obtain a s1 where b: "bmap ip (off div BSIZE) s = Ok (a, s1)" "tx d Map.empty (Suc r) s1" "fs_ok d ip s1"
      "grow d ip {MAXFILE} s s1" "ino_addr d ip s1 (off div BSIZE) = a" "a \<noteq> 0" "nfree (view d s) (sb s) \<le> nfree (view d s1) (sb s) + 2" by blast
  note g = growD [OF b(4)]
  have ok1: "geom s1" "i_dev (itable s1 ! ip) = d" "dstart (sb s1) \<le> a" "a < sb_size (sb s1)"
    using inode_okD(1,2) [of "view d s1" "sb s1" "itable s1 ! ip" "off div BSIZE"] b(3,5,6) assms(4) by (auto simp: fs_ok_def)
  have lg: "legal s1 a" using geom_legal [OF ok1(1) _ ok1(4)] ok1(1,3) by (auto simp: geom_def sb_ok_def dstart_def)
  have "card (dom (Map.empty :: nat \<rightharpoonup> nat)) < 2" by simp
  from tb.update_tx [OF b(2) _ this lg] obtain bp s2 where u: "bread d a s1 = Ok (bp, s2)" "bdata s2 bp = view d s1 a" "lframe s1 s2"
    and up: "\<forall>y. length y = BSIZE \<longrightarrow> (\<exists>s4 s5. tx_modify bp y s2 = Ok s4 \<and> brelse bp s4 = Ok s5 \<and> tx d Map.empty r s5 \<and>
      view d s5 = (view d s1)(a := y) \<and> lframe s1 s4 \<and> lframe s1 s5)" by blast
  let ?y = "splice (off mod BSIZE) x (view d s1 a)"
  have len: "length (view d s1 a) = BSIZE" "length ?y = BSIZE" using tb.view_size [OF b(2)] assms(5) by simp_all
  from up [rule_format, OF len(2)] obtain s4 s5 where w: "tx_modify bp ?y s2 = Ok s4" "brelse bp s4 = Ok s5" "tx d Map.empty r s5"
      "view d s5 = (view d s1)(a := ?y)" "lframe s1 s5" by blast
  note st = store_block [OF b(3,2) assms(4) b(5) [symmetric] b(6) w(5,4)]
  have fb: "fbyte (view d s5) (itable s5 ! ip) k = (if k div BSIZE = off div BSIZE then ?y ! (k mod BSIZE) else fbyte (view d s1) (itable s1 ! ip) k)"
    if "k < MAXFILE * BSIZE" for k
    using fbyte_block [OF b(3) assms(4) b(5) [symmetric] b(6) w(5,4)] st(4) that by simp
  have new: "fbyte (view d s5) (itable s5 ! ip) (off + k) = x ! k" if k: "k < length x" for k
  proof -
    have "k < chunk_len (length x) off" using k assms(5) by (auto simp: chunk_len_def)
    note c = chunk_block(1,2) [OF refl this]
    have "off + k < MAXFILE * BSIZE" using c(1) assms(4) div_less_iff_less_mult [of BSIZE "off + k" MAXFILE] by simp
    then show ?thesis using fb [of "off + k"] c k assms(5) len by (simp add: nth_splice)
  qed
  have old: "fbyte (view d s5) (itable s5 ! ip) k = fbyte (view d s) (itable s ! ip) k"
    if k: "k < MAXFILE * BSIZE" "ino_addr d ip s (k div BSIZE) \<noteq> 0" "k < off \<or> off + length x \<le> k" for k
  proof (cases "k div BSIZE = off div BSIZE")
    case True
    have "k = off div BSIZE * BSIZE + k mod BSIZE" "off = off div BSIZE * BSIZE + off mod BSIZE"
      using True div_mult_mod_eq [of k BSIZE] by simp_all
    with k(3) have "k mod BSIZE < off mod BSIZE \<or> off mod BSIZE + length x \<le> k mod BSIZE" by linarith
    then have "?y ! (k mod BSIZE) = view d s1 a ! (k mod BSIZE)" using len assms(5) by (auto simp: nth_splice)
    then have "fbyte (view d s5) (itable s5 ! ip) k = fbyte (view d s1) (itable s1 ! ip) k"
      using fb [OF k(1)] True b(5) by (simp add: fbyte_def)
    then show ?thesis using grow_fbyte [OF b(4) assms(1) k(1,2)] by simp
  next
    case False
    then show ?thesis using fb [OF k(1)] grow_fbyte [OF b(4) assms(1) k(1,2)] by simp
  qed
  have fr: "fframe s s2" "fframe s s5"
    using fframe_trans [OF g(1) lframe_fframe [OF u(3)]] fframe_trans [OF g(1) lframe_fframe [OF w(5)]] .
  have "chg d ip s s5" using grow_trans [OF grow_mono [OF b(4)] st(2)] by simp
  moreover have "nfree (view d s) (sb s) \<le> nfree (view d s5) (sb s) + 2" using b(7) st(3) g(9) by simp
  moreover have "ino_addr d ip s5 (off div BSIZE) \<noteq> 0" using st(4) [of "off div BSIZE"] b(5,6) assms(4) by simp
  ultimately show ?thesis using b(1) ok1(2) u(1,2) w(1,2,3) st(1) new old fr
    by (intro exI [of _ a] exI [of _ s1] exI [of _ bp] exI [of _ s2] exI [of _ s4] exI [of _ s5]) (simp add: tx_modify_def)
qed

section \<open>Writing\<close>

text \<open>The number of blocks that \<open>n\<close> bytes from \<open>off\<close> on touch.\<close>

definition nblk :: "nat \<Rightarrow> nat \<Rightarrow> nat" where
  "nblk off n = (if n = 0 then 0 else (off + n - 1) div BSIZE - off div BSIZE + 1)"

lemma nblk_step:
  assumes "0 < n" "m = chunk_len n off"
  shows "nblk off n = Suc (nblk (off + m) (n - m))"
proof (cases "m = n")
  case True
  have "n - 1 < m" using True assms(1) by simp
  then have "(off + (n - 1)) div BSIZE = off div BSIZE" by (rule chunk_block(1) [OF assms(2)])
  then show ?thesis using True assms(1) by (simp add: nblk_def)
next
  case False
  then have m: "m = BSIZE - off mod BSIZE" "m < n" using assms(2) by (auto simp: chunk_len_def min_def split: if_splits)
  have "off mod BSIZE < BSIZE" by simp
  then have "off + m = (off div BSIZE + 1) * BSIZE" using m(1) div_mult_mod_eq [of off BSIZE] unfolding add_mult_distrib by linarith
  then have d: "(off + m) div BSIZE = off div BSIZE + 1" by simp
  have "(off + m) div BSIZE \<le> (off + n - 1) div BSIZE" by (rule div_le_mono) (use m(2) in simp)
  then show ?thesis using m(2) d by (simp add: nblk_def) linarith
qed

text \<open>\<open>avail src s bs\<close>: the bytes \<open>bs\<close> can be read from \<open>src\<close>.\<close>

locale byte_source =
  fixes avail :: "source \<Rightarrow> 'a fsst_scheme \<Rightarrow> byte list \<Rightarrow> bool"
  assumes avail_frame: "avail src s bs \<Longrightarrow> fframe s s' \<Longrightarrow> avail src s' bs"
    and avail_take: "avail src s (x @ y) \<Longrightarrow> \<exists>src'. avail src' s y \<and> (\<forall>s'. fframe s s' \<longrightarrow> copy_from src (length x) s' = (0, x, src'))"
begin

lemma writei_loop_ok:
  assumes "avail src s data" "length data = n - tot" "tot \<le> n" "fs_ok d ip s" "tx d Map.empty (6 * nblk off (n - tot) + r) s"
    and "2 * nblk off (n - tot) \<le> nfree (view d s) (sb s)" "off + (n - tot) \<le> MAXFILE * BSIZE"
  shows "\<exists>s'. writei_loop ip src off n tot s = Ok (n, off + (n - tot), s') \<and> tx d Map.empty r s' \<and> fs_ok d ip s' \<and> chg d ip s s' \<and>
    (\<forall>k<length data. ino_addr d ip s' ((off + k) div BSIZE) \<noteq> 0 \<and> fbyte (view d s') (itable s' ! ip) (off + k) = data ! k) \<and>
    (\<forall>k<MAXFILE * BSIZE. ino_addr d ip s (k div BSIZE) \<noteq> 0 \<longrightarrow> k < off \<or> off + length data \<le> k \<longrightarrow>
       fbyte (view d s') (itable s' ! ip) k = fbyte (view d s) (itable s ! ip) k)"
  using assms
proof (induction "n - tot" arbitrary: src off tot s data rule: less_induct)
  case less
  show ?case
  proof (cases "tot < n")
    case True
    let ?m = "chunk_len (n - tot) off"
    let ?x = "take ?m data" and ?y = "drop ?m data"
    have m: "0 < ?m" "?m \<le> n - tot" "off mod BSIZE + ?m \<le> BSIZE" using True by (auto simp: chunk_len_def)
    have lx: "length ?x = ?m" "length ?y = n - (tot + ?m)" using m less.prems(2) by simp_all
    have nb: "nblk off (n - tot) = Suc (nblk (off + ?m) (n - (tot + ?m)))" using nblk_step [of "n - tot" ?m off] True by simp
    let ?q = "6 * nblk (off + ?m) (n - (tot + ?m)) + r"
    have bn: "off div BSIZE < MAXFILE" using less.prems(7) True by (simp add: less_mult_imp_div_less)
    have t6: "tx d Map.empty (6 + ?q) s" using less.prems(5) nb by (simp add: algebra_simps)
    have fit: "2 \<le> nfree (view d s) (sb s)" "off mod BSIZE + length ?x \<le> BSIZE" using less.prems(6) nb m(3) lx(1) by simp_all
    from write_step [OF less.prems(4) t6 fit(1) bn fit(2), unfolded lx(1)] obtain a s1 bp s2 s4 s5 where w: "bmap ip (off div BSIZE) s = Ok (a, s1)" "i_dev (itable s1 ! ip) = d" "bread d a s1 = Ok (bp, s2)"
        "fframe s s2" "log_write bp (set_data bp (splice (off mod BSIZE) ?x (bdata s2 bp)) s2) = Ok s4" "brelse bp s4 = Ok s5" "fframe s s5"
        "tx d Map.empty ?q s5" "fs_ok d ip s5" "chg d ip s s5" "nfree (view d s) (sb s) \<le> nfree (view d s5) (sb s) + 2"
      and n0: "ino_addr d ip s5 (off div BSIZE) \<noteq> 0"
      and new: "\<forall>k<?m. fbyte (view d s5) (itable s5 ! ip) (off + k) = ?x ! k"
      and old: "\<forall>k<MAXFILE * BSIZE. ino_addr d ip s (k div BSIZE) \<noteq> 0 \<longrightarrow> k < off \<or> off + ?m \<le> k \<longrightarrow>
         fbyte (view d s5) (itable s5 ! ip) k = fbyte (view d s) (itable s ! ip) k"
      by (elim exE conjE)
    note g = growD [OF w(10)]
    have "avail src s (?x @ ?y)" using less.prems(1) by simp
    from avail_take [OF this] obtain src1 where "avail src1 s ?y" "copy_from src (length ?x) s2 = (0, ?x, src1)" using w(4) by blast
    then have c: "copy_from src ?m s2 = (0, ?x, src1)" "avail src1 s5 ?y" using avail_frame w(7) lx(1) by auto
    have step: "writei_loop ip src off n tot s = writei_loop ip src1 (off + ?m) n (tot + ?m) s5"
      unfolding writei_loop.simps [of ip src off] using True w(1-6) c(1) by (simp add: Let_def)
    have "\<exists>s'. writei_loop ip src1 (off + ?m) n (tot + ?m) s5 = Ok (n, off + ?m + (n - (tot + ?m)), s') \<and> tx d Map.empty r s' \<and> fs_ok d ip s' \<and> chg d ip s5 s' \<and>
      (\<forall>k<length ?y. ino_addr d ip s' ((off + ?m + k) div BSIZE) \<noteq> 0 \<and> fbyte (view d s') (itable s' ! ip) (off + ?m + k) = ?y ! k) \<and>
      (\<forall>k<MAXFILE * BSIZE. ino_addr d ip s5 (k div BSIZE) \<noteq> 0 \<longrightarrow> k < off + ?m \<or> off + ?m + length ?y \<le> k \<longrightarrow>
         fbyte (view d s') (itable s' ! ip) k = fbyte (view d s5) (itable s5 ! ip) k)"
    proof (rule less.hyps)
      show "n - (tot + ?m) < n - tot" using m by linarith
      show "length ?y = n - (tot + ?m)" by (rule lx(2))
      show "tot + ?m \<le> n" "off + ?m + (n - (tot + ?m)) \<le> MAXFILE * BSIZE" using m less.prems(7) by simp_all
      show "2 * nblk (off + ?m) (n - (tot + ?m)) \<le> nfree (view d s5) (sb s5)" using w(11) less.prems(6) nb g(9) by simp
    qed (rule c w)+
    then obtain s' where ih: "writei_loop ip src1 (off + ?m) n (tot + ?m) s5 = Ok (n, off + ?m + (n - (tot + ?m)), s')" "tx d Map.empty r s'" "fs_ok d ip s'" "chg d ip s5 s'"
      and new': "\<forall>k<length ?y. ino_addr d ip s' ((off + ?m + k) div BSIZE) \<noteq> 0 \<and> fbyte (view d s') (itable s' ! ip) (off + ?m + k) = ?y ! k"
      and old': "\<forall>k<MAXFILE * BSIZE. ino_addr d ip s5 (k div BSIZE) \<noteq> 0 \<longrightarrow> k < off + ?m \<or> off + ?m + length ?y \<le> k \<longrightarrow>
         fbyte (view d s') (itable s' ! ip) k = fbyte (view d s5) (itable s5 ! ip) k" by blast
    note g' = growD [OF ih(4)]
    show ?thesis unfolding step
    proof (intro exI [of _ s'] conjI allI impI)
      show "writei_loop ip src1 (off + ?m) n (tot + ?m) s5 = Ok (n, off + (n - tot), s')" using ih(1) m by simp
      show "chg d ip s s'" using grow_trans [OF w(10) ih(4)] .
      fix k assume k: "k < length data"
      show "ino_addr d ip s' ((off + k) div BSIZE) \<noteq> 0"
      proof (cases "k < ?m")
        case True
        then have "(off + k) div BSIZE = off div BSIZE" by (rule chunk_block(1) [OF refl])
        then show ?thesis using g'(5) [of "off div BSIZE"] n0 bn by simp
      next
        case False
        then show ?thesis using new' [rule_format, of "k - ?m"] k by simp
      qed
      show "fbyte (view d s') (itable s' ! ip) (off + k) = data ! k"
      proof (cases "k < ?m")
        case True
        then have "(off + k) div BSIZE = off div BSIZE" by (rule chunk_block(1) [OF refl])
        then show ?thesis using old' [rule_format, of "off + k"] n0 new True k less.prems(2,7) by simp
      next
        case False
        then show ?thesis using new' [rule_format, of "k - ?m"] k by simp
      qed
    next
      fix k assume k: "k < MAXFILE * BSIZE" "ino_addr d ip s (k div BSIZE) \<noteq> 0" "k < off \<or> off + length data \<le> k"
      have "k div BSIZE \<le> MAXFILE" using k(1) by (simp add: less_mult_imp_div_less less_imp_le)
      then have "ino_addr d ip s5 (k div BSIZE) \<noteq> 0" using g(5) k(2) by simp
      moreover have "k < off + ?m \<or> off + ?m + length ?y \<le> k" "k < off \<or> off + ?m \<le> k" using k(3) m lx less.prems(2) by auto
      ultimately show "fbyte (view d s') (itable s' ! ip) k = fbyte (view d s) (itable s ! ip) k"
        using old' [rule_format, OF k(1)] old [rule_format, OF k(1,2)] by metis
    qed (rule ih)+
  next
    case False
    then show ?thesis using less.prems by (simp add: writei_loop.simps [of ip src off] nblk_def)
  qed
qed

end

section \<open>The inode's block\<close>

lemma IBLOCK_area:
  assumes "geom s" "n < sb_ninodes (sb s)"
  shows "sb_inodestart (sb s) \<le> IBLOCK n (sb s)" "IBLOCK n (sb s) < sb_bmapstart (sb s)" "legal s (IBLOCK n (sb s))"
proof -
  have "n div IPB \<le> sb_ninodes (sb s) div IPB" using assms(2) by (simp add: div_le_mono)
  then show "sb_inodestart (sb s) \<le> IBLOCK n (sb s)" "IBLOCK n (sb s) < sb_bmapstart (sb s)"
    using assms(1) by (auto simp: geom_def sb_ok_def IBLOCK_def)
  then show "legal s (IBLOCK n (sb s))" using geom_legal [OF assms(1)] assms(1) by (simp add: geom_def sb_ok_def dstart_def)
qed

lemma iupdate_ok:
  assumes "tx d Map.empty (Suc r) s" "geom s" "i_dev (itable s ! ip) = d" "i_inum (itable s ! ip) < sb_ninodes (sb s)" "length (i_addrs (itable s ! ip)) = 13"
    and "IB = IBLOCK (i_inum (itable s ! ip)) (sb s)"
  shows "\<exists>s'. iupdate ip s = Ok s' \<and> tx d Map.empty r s' \<and> view d s' = (view d s)(IB := store_dinode (itable s ! ip) (view d s IB)) \<and> lframe s s'"
proof -
  note area = IBLOCK_area [OF assms(2,4), folded assms(6)]
  have "card (dom (Map.empty :: nat \<rightharpoonup> nat)) < 2" by simp
  from tb.update_tx [OF assms(1) _ this area(3)] obtain bp s1 where u: "bread d IB s = Ok (bp, s1)" "bdata s1 bp = view d s IB" "lframe s s1"
    and up: "\<forall>y. length y = BSIZE \<longrightarrow> (\<exists>s2 s'. tx_modify bp y s1 = Ok s2 \<and> brelse bp s2 = Ok s' \<and> tx d Map.empty r s' \<and>
      view d s' = (view d s)(IB := y) \<and> lframe s s2 \<and> lframe s s')" by blast
  let ?y = "store_dinode (itable s ! ip) (view d s IB)"
  have "length ?y = BSIZE"
    using dinode_off_bound tb.view_size [OF assms(1)] length_enc_inode [OF assms(5)] by (simp add: store_dinode_def)
  from up [rule_format, OF this] obtain s2 s' where w: "tx_modify bp ?y s1 = Ok s2" "brelse bp s2 = Ok s'" "tx d Map.empty r s'"
      "view d s' = (view d s)(IB := ?y)" "lframe s s'" by blast
  have "iupdate ip s = Ok s'" using u w(1,2) assms(3,6) lframe_fs [OF u(3)] by (simp add: iupdate_def tx_modify_def)
  then show ?thesis using w by blast
qed

text \<open>Blocks of the inode area hold no data, no block addresses and no bits of the free map.\<close>

lemma meta_block:
  assumes "sb_ok sp" "b < sb_bmapstart sp" "v' = v(b := x)"
  shows "used v' sp = used v sp" "\<And>i y. inode_ok v sp i \<Longrightarrow> iaddr v' i y = iaddr v i y" "inode_ok v sp i \<Longrightarrow> inode_ok v' sp i"
    "\<And>i k. inode_ok v sp i \<Longrightarrow> k < MAXFILE * BSIZE \<Longrightarrow> iaddr v i (k div BSIZE) \<noteq> 0 \<Longrightarrow> fbyte v' i k = fbyte v i k"
proof -
  have "BBLOCK c sp \<noteq> b" for c using assms(2) by (simp add: BBLOCK_def)
  then show us: "used v' sp = used v sp" using assms(3) by (simp add: fun_eq_iff used_def)
  show ia: "iaddr v' i y = iaddr v i y" if "inode_ok v sp i" for i y
  proof -
    have "i_addrs i ! NDIRECT \<noteq> b" if "i_addrs i ! NDIRECT \<noteq> 0"
      using inode_okD(1) [OF \<open>inode_ok v sp i\<close>, of MAXFILE] that assms(2) by (auto simp: iaddr_def dstart_def)
    then show ?thesis using assms(3) by (auto simp: iaddr_def)
  qed
  show "inode_ok v' sp i" if "inode_ok v sp i" using that ia [OF that] us by (simp add: inode_ok_def)
  show "fbyte v' i k = fbyte v i k" if k: "inode_ok v sp i" "k < MAXFILE * BSIZE" "iaddr v i (k div BSIZE) \<noteq> 0" for i k
  proof -
    have "k div BSIZE \<le> MAXFILE" using k(2) by (simp add: less_mult_imp_div_less less_imp_le)
    then have "iaddr v i (k div BSIZE) \<noteq> b" using inode_okD(1) [OF k(1) _ k(3)] assms(2) by (auto simp: dstart_def)
    then show ?thesis using ia [OF k(1)] assms(3) by (simp add: fbyte_def)
  qed
qed

section \<open>Other files\<close>

text \<open>Inode \<open>j\<close> shares no block with inode \<open>i\<close>.\<close>

definition no_shared :: "(nat \<Rightarrow> byte list) \<Rightarrow> inode \<Rightarrow> inode \<Rightarrow> bool" where
  "no_shared v i j \<longleftrightarrow> (\<forall>x\<le>MAXFILE. \<forall>y\<le>MAXFILE. iaddr v j y \<noteq> 0 \<longrightarrow> iaddr v i x \<noteq> iaddr v j y)"

lemma content_cong:
  assumes "file_ok v j" "\<And>y. y \<le> MAXFILE \<Longrightarrow> iaddr v j y \<noteq> 0 \<Longrightarrow> v' (iaddr v j y) = v (iaddr v j y)"
  shows "content v' j = content v j"
proof -
  have ia: "iaddr v' j y = iaddr v j y" if "y \<le> MAXFILE" for y using assms(2) [of MAXFILE] by (auto simp: iaddr_def)
  have "fbyte v' j k = fbyte v j k" if k: "k < i_size j" for k
  proof -
    have "k div BSIZE < MAXFILE" "iaddr v j (k div BSIZE) \<noteq> 0" using assms(1) k by (auto simp: file_ok_def less_mult_imp_div_less)
    then show ?thesis using assms(2) [of "k div BSIZE"] ia [of "k div BSIZE"] by (simp add: fbyte_def)
  qed
  then show ?thesis by (simp add: content_def)
qed

lemma other_content:
  assumes "chg d ip s s1" "b < sb_bmapstart (sb s)" "sb_ok (sb s)" "view d s' = (view d s1)(b := x)"
    and "inode_ok (view d s) (sb s) j" "file_ok (view d s) j" "no_shared (view d s) (itable s ! ip) j"
  shows "content (view d s') j = content (view d s) j"
proof -
  note g = growD [OF assms(1)]
  have same: "view d s' (iaddr (view d s) j y) = view d s (iaddr (view d s) j y)" if y: "y \<le> MAXFILE" "iaddr (view d s) j y \<noteq> 0" for y
  proof -
    note io = inode_okD [OF assms(5) y]
    have "view d s1 (iaddr (view d s) j y) = view d s (iaddr (view d s) j y)"
      by (rule g(8) [OF io(1-3)]) (use assms(7) y in \<open>auto simp: no_shared_def\<close>)
    moreover have "iaddr (view d s) j y \<noteq> b" using io(1) assms(2) by (auto simp: dstart_def)
    ultimately show ?thesis using assms(4) by simp
  qed
  show ?thesis by (rule content_cong [OF assms(6) same])
qed

section \<open>writei\<close>

lemma size_irrelevant [simp]: "iaddr v (i\<lparr>i_size := n\<rparr>) x = iaddr v i x" "fbyte v (i\<lparr>i_size := n\<rparr>) k = fbyte v i k"
  "inode_ok v sp (i\<lparr>i_size := n\<rparr>) = inode_ok v sp i"
  by (simp_all add: iaddr_def fbyte_def inode_ok_def)

lemma content_write:
  assumes "i_size i' = max (i_size i) (off + length bs)" "off \<le> i_size i"
    and "\<And>k. k < length bs \<Longrightarrow> fbyte v' i' (off + k) = bs ! k"
    and "\<And>k. k < i_size i \<Longrightarrow> k < off \<or> off + length bs \<le> k \<Longrightarrow> fbyte v' i' k = fbyte v i k"
  shows "content v' i' = take off (content v i) @ bs @ drop (off + length bs) (content v i)"
proof (rule nth_equalityI)
  show "length (content v' i') = length (take off (content v i) @ bs @ drop (off + length bs) (content v i))"
    using assms(1,2) by (simp add: content_def)
  fix k assume "k < length (content v' i')"
  then have k: "k < max (i_size i) (off + length bs)" using assms(1) by (simp add: content_def)
  consider "k < off" | "off \<le> k" "k < off + length bs" | "off + length bs \<le> k" "k < i_size i" using k by linarith
  then show "content v' i' ! k = (take off (content v i) @ bs @ drop (off + length bs) (content v i)) ! k"
  proof cases
    case 1
    then show ?thesis using k assms(1,2) assms(4) [of k] by (simp add: content_def nth_append)
  next
    case 2
    then have "k - off < length bs" by linarith
    then show ?thesis using 2 k assms(1,2) assms(3) [of "k - off"] by (simp add: content_def nth_append)
  next
    case 3
    then have "\<not> k - off < length bs" by linarith
    then show ?thesis using 3 k assms(1,2) assms(4) [of k] by (simp add: content_def nth_append)
  qed
qed

context byte_source
begin

lemma writei_ok:
  assumes "avail src s data" "fs_ok d ip s" "file_ok (view d s) (itable s ! ip)" "off \<le> i_size (itable s ! ip)" "off + length data \<le> MAXFILE * BSIZE"
    and "tx d Map.empty (6 * nblk off (length data) + Suc r) s" "2 * nblk off (length data) \<le> nfree (view d s) (sb s)"
    and "i_inum (itable s ! ip) < sb_ninodes (sb s)" "dinode_ok (itable s ! ip)"
  shows "\<exists>s'. writei ip src off (length data) s = Ok (int (length data), s') \<and> tx d Map.empty r s' \<and> fs_ok d ip s' \<and>
    file_ok (view d s') (itable s' ! ip) \<and> fframe s s' \<and> (\<exists>as n. itable s' = (itable s)[ip := (itable s ! ip)\<lparr>i_addrs := as, i_size := n\<rparr>]) \<and>
    content (view d s') (itable s' ! ip) =
      take off (content (view d s) (itable s ! ip)) @ data @ drop (off + length data) (content (view d s) (itable s ! ip)) \<and>
    load_dinode (view d s' (IBLOCK (i_inum (itable s ! ip)) (sb s))) (itable s' ! ip) = itable s' ! ip \<and>
    (\<forall>j. inode_ok (view d s) (sb s) j \<longrightarrow> file_ok (view d s) j \<longrightarrow> no_shared (view d s) (itable s ! ip) j \<longrightarrow> content (view d s') j = content (view d s) j)"
proof -
  let ?i = "itable s ! ip" and ?n = "length data" and ?IB = "IBLOCK (i_inum (itable s ! ip)) (sb s)"
  have t: "tx d Map.empty (6 * nblk off (?n - 0) + Suc r) s" "2 * nblk off (?n - 0) \<le> nfree (view d s) (sb s)" "off + (?n - 0) \<le> MAXFILE * BSIZE"
    using assms(5-7) by simp_all
  from writei_loop_ok [OF assms(1) _ _ assms(2) t] obtain s1 where w: "writei_loop ip src off ?n 0 s = Ok (?n, off + ?n, s1)" "tx d Map.empty (Suc r) s1"
      "fs_ok d ip s1" "chg d ip s s1"
    and new: "\<forall>k<?n. ino_addr d ip s1 ((off + k) div BSIZE) \<noteq> 0 \<and> fbyte (view d s1) (itable s1 ! ip) (off + k) = data ! k"
    and old: "\<forall>k<MAXFILE * BSIZE. ino_addr d ip s (k div BSIZE) \<noteq> 0 \<longrightarrow> k < off \<or> off + ?n \<le> k \<longrightarrow>
       fbyte (view d s1) (itable s1 ! ip) k = fbyte (view d s) ?i k" by (auto simp del: neq0_conv)
  note g = growD [OF w(4)] and ok = assms(2) [unfolded fs_ok_def] and ok1 = w(3) [unfolded fs_ok_def]
  obtain as where i1: "itable s1 = (itable s)[ip := ?i\<lparr>i_addrs := as\<rparr>]" using g(3) by blast
  let ?sz = "max (i_size ?i) (off + ?n)"
  define s2 where "s2 = (if off + ?n > i_size (itable s1 ! ip) then upd_inode ip (\<lambda>i. i\<lparr>i_size := off + ?n\<rparr>) s1 else s1)"
  have i2: "itable s2 = (itable s)[ip := ?i\<lparr>i_addrs := as, i_size := ?sz\<rparr>]" "itable s2 ! ip = (itable s1 ! ip)\<lparr>i_size := ?sz\<rparr>"
      "itable s2 ! ip = ?i\<lparr>i_addrs := as, i_size := ?sz\<rparr>"
    using ok by (auto simp: s2_def i1 max_def)
  have v2: "view d s2 = view d s1" "tx d Map.empty (Suc r) s2" "geom s2" "sb s2 = sb s" "fframe s s2"
    using w(2) ok1 g(1,9) fframe_trans [OF g(1) fframe_upd_inode(1)] by (simp_all add: s2_def)
  have ino: "i_dev (itable s2 ! ip) = d" "i_inum (itable s2 ! ip) = i_inum ?i" unfolding i2(3) using ok by simp_all
  have ino3: "length (i_addrs (itable s2 ! ip)) = 13" unfolding i2(2) using ok1 by (simp add: inode_ok_def)
  from iupdate_ok [OF v2(2,3) ino(1) _ ino3 refl] obtain s' where u: "iupdate ip s2 = Ok s'" "tx d Map.empty r s'"
      "view d s' = (view d s1)(?IB := store_dinode (itable s2 ! ip) (view d s1 ?IB))" "lframe s2 s'"
    using ino(2) assms(8) v2(1,4) by auto
  have step: "writei ip src off ?n s = Ok (int ?n, s')"
    using assms(4,5) w(1) u(1) by (simp add: writei_def Let_def s2_def)
  have tab: "itable s' = itable s2" "sb s' = sb s" "geom s'" using lframe_fs [OF u(4)] geom_frame [OF u(4)] v2(3,4) by simp_all
  have IB: "?IB < sb_bmapstart (sb s)" "sb_ok (sb s)" using IBLOCK_area(2) [of s "i_inum ?i"] ok assms(8) by (simp_all add: geom_def)
  have iok1: "inode_ok (view d s1) (sb s) (itable s1 ! ip)" using ok1 g(9) by simp
  note mb = meta_block [OF IB(2,1) u(3)]
  have "bm_ok (view d s') (sb s)" using ok1 g(9) mb(1) by (simp add: bm_ok_def)
  moreover have "inode_ok (view d s') (sb s) (itable s' ! ip)" using mb(3) [OF iok1] tab i2(2) by simp
  moreover have "ip < length (itable s')" using tab(1) i2(1) ok by simp
  ultimately have fok: "fs_ok d ip s'" using tab(2,3) ino(1) unfolding tab(1) fs_ok_def by simp
  have fb: "fbyte (view d s') (itable s' ! ip) k = fbyte (view d s1) (itable s1 ! ip) k"
    if "k < MAXFILE * BSIZE" "ino_addr d ip s1 (k div BSIZE) \<noteq> 0" for k
    using mb(4) [OF iok1 that] tab i2(2) by simp
  have had: "ino_addr d ip s1 (k div BSIZE) \<noteq> 0" "k < MAXFILE * BSIZE" "ino_addr d ip s (k div BSIZE) \<noteq> 0" if "k < i_size ?i" for k
  proof -
    show k: "k < MAXFILE * BSIZE" "ino_addr d ip s (k div BSIZE) \<noteq> 0" using assms(3) that by (auto simp: file_ok_def)
    then show "ino_addr d ip s1 (k div BSIZE) \<noteq> 0" using g(5) [of "k div BSIZE"] by (simp add: less_mult_imp_div_less less_imp_le)
  qed
  have all: "ino_addr d ip s1 (k div BSIZE) \<noteq> 0" if "k < ?sz" for k
  proof (cases "k < i_size ?i")
    case False
    then show ?thesis using new [rule_format, of "k - off"] that assms(4) by (simp add: max_def split: if_splits)
  qed (rule had)
  then have "file_ok (view d s') (itable s' ! ip)"
    using mb(2) [OF iok1] tab i2(2) assms(3,5) by (simp add: file_ok_def)
  moreover have "content (view d s') (itable s' ! ip) = take off (content (view d s) ?i) @ data @ drop (off + ?n) (content (view d s) ?i)"
  proof (rule content_write)
    show "i_size (itable s' ! ip) = ?sz" using tab i2(2) by simp
    show "fbyte (view d s') (itable s' ! ip) (off + k) = data ! k" if "k < ?n" for k using fb [of "off + k"] new that assms(5) by simp
    show "fbyte (view d s') (itable s' ! ip) k = fbyte (view d s) ?i k" if "k < i_size ?i" "k < off \<or> off + ?n \<le> k" for k
      using fb [OF had(2,1) [OF that(1)]] old [rule_format, OF had(2,3) [OF that(1)] that(2)] by simp
  qed (rule assms(4))
  moreover have "load_dinode (view d s' ?IB) (itable s' ! ip) = itable s' ! ip"
  proof -
    have "i_addrs (itable s1 ! ip) ! k < 2 ^ 32" if "k < 13" for k
    proof -
      have "iaddr (view d s1) (itable s1 ! ip) (if k < 12 then k else MAXFILE) = i_addrs (itable s1 ! ip) ! k" using that by (auto simp: iaddr_def less_Suc_eq numeral_eq_Suc)
      then show ?thesis using inode_okD(2) [OF iok1, of "if k < 12 then k else MAXFILE"] IB(2) that
        by (cases "i_addrs (itable s1 ! ip) ! k = 0") (auto simp: sb_ok_def split: if_splits)
    qed
    moreover have "i_addrs (itable s1 ! ip) = as" using i1 ok by simp
    ultimately have "dinode_ok (itable s2 ! ip)" using assms(3,5,9) ino3 unfolding i2(3) by (auto simp: dinode_ok_def in_set_conv_nth file_ok_def)
    from load_store_dinode [OF this, of "view d s1 ?IB" "itable s2 ! ip"] tb.view_size [OF w(2)] show ?thesis by (simp add: u(3) tab)
  qed
  moreover have "content (view d s') j = content (view d s) j" if "inode_ok (view d s) (sb s) j" "file_ok (view d s) j" "no_shared (view d s) ?i j" for j
    by (rule other_content [OF w(4) IB u(3) that])
  moreover have "\<exists>as n. itable s' = (itable s)[ip := ?i\<lparr>i_addrs := as, i_size := n\<rparr>]" using tab(1) i2(1) by auto
  moreover have "fframe s s'" using fframe_trans [OF v2(5) lframe_fframe [OF u(4)]] .
  ultimately show ?thesis using step u(2) fok by (intro exI [of _ s']) simp
qed

end

end
