(* ===== verification/Inode_Copy.thy ===== *)
theory Inode_Copy
  imports Inode_Io
begin

text \<open>
  The places \<^verbatim>\<open>readi\<close> copies to and \<^verbatim>\<open>writei\<close> copies from: the memory of the running
  process through its page table, kernel memory, and a variable of the kernel.
\<close>

section \<open>The running process\<close>

lemma copyout_mem: "copyout pt va src s = (r, s') \<Longrightarrow> \<exists>m. s' = s\<lparr>mem := m\<rparr>"
proof (induction pt va src s rule: copyout.induct)
  case (1 pt va src s)
  show ?case
  proof (cases "src = [] \<or> walkaddr pt (PGROUNDDOWN va) s = 0")
    case True
    then have "s' = s" using "1.prems" by (auto simp: copyout.simps [of pt va] Let_def split: if_splits)
    then have "s' = s\<lparr>mem := mem s\<rparr>" by simp
    then show ?thesis by blast
  next
    case False
    let ?s1 = "s\<lparr>mem := mstore (walkaddr pt (PGROUNDDOWN va) s + (va - PGROUNDDOWN va)) (take (chunk va (length src)) src) (mem s)\<rparr>"
    have "copyout pt (PGROUNDDOWN va + PGSIZE) (drop (chunk va (length src)) src) ?s1 = (r, s')"
      using "1.prems" False by (simp add: copyout.simps [of pt va] Let_def)
    from "1.IH" [OF _ refl refl _ refl refl this] False show ?thesis by auto
  qed
qed

text \<open>The running process is \<open>p\<close>, with page table \<open>pt\<close>.\<close>

definition runs_in :: "nat \<Rightarrow> uint64 \<Rightarrow> 'a pstate_scheme \<Rightarrow> bool" where
  "runs_in p pt s \<longleftrightarrow> myproc s = Some p \<and> p < length (procs s) \<and> p_pagetable (procs s ! p) = pt"

lemma runs_in_frame:
  assumes "myproc s' = myproc s" "pwake (procs s) (procs s')" "runs_in p pt s"
  shows "runs_in p pt s'"
proof -
  obtain st where "procs s' ! p = (procs s ! p)\<lparr>p_state := st\<rparr>" using assms by (auto simp: pwake_def runs_in_def)
  then show ?thesis using assms by (simp add: runs_in_def pwake_def)
qed

lemma mem_runs_in [simp]: "runs_in p pt (s\<lparr>mem := m\<rparr>) = runs_in p pt s"
  by (simp add: runs_in_def myproc_def)

section \<open>Destinations\<close>

definition user_got :: "nat \<Rightarrow> uint64 \<Rightarrow> uint64 list \<Rightarrow> (uint64 \<Rightarrow> byte option) \<Rightarrow> uint64 \<Rightarrow> nat \<Rightarrow> byte list \<Rightarrow> dest \<Rightarrow> 'a fsst_scheme \<Rightarrow> bool" where
  "user_got p pt ps u a room bs dst s \<longleftrightarrow> dst = ToUser (a + of_nat (length bs)) \<and> room < 2 ^ 64 \<and> length bs \<le> room \<and> runs_in p pt s \<and> user_wf s ps pt \<and>
     umapped pt s a room \<and> uview pt s = vwrite a bs u"

interpretation us: byte_sink "user_got p pt ps u a room" room for p pt ps u a room
proof
  fix bs dst and s s' :: "'a fsst_scheme" and x :: "byte list"
  assume g: "user_got p pt ps u a room bs dst s"
  show "user_got p pt ps u a room bs dst s'" if f: "lframe s s'"
    using g lframe_fields [OF f] user_wf_cong [of s' s ps pt] umapped_cong [of s' s pt a room] uview_cong [of s' s pt]
      runs_in_frame [of s' s p pt] by (simp add: user_got_def)
  assume len: "length bs + length x \<le> room"
  note d = g [unfolded user_got_def]
  let ?b = "a + of_nat (length bs)"
  have map: "umapped pt s ?b (length x)" unfolding umapped_def
  proof (intro allI impI)
    fix i assume "i < length x"
    then have i: "length bs + i < room" using len by simp
    have "\<forall>i<room. uview pt s (a + of_nat i) \<noteq> None" using d unfolding umapped_def by blast
    from this [rule_format, OF i] have "uview pt s (a + of_nat (length bs + i)) \<noteq> None" .
    then show "uview pt s (?b + of_nat i) \<noteq> None" by (simp add: add.assoc)
  qed
  moreover have "user_wf s ps pt" "length x < 2 ^ 64" using d len by simp_all
  ultimately obtain s1 where c: "copyout pt ?b x s = (0, s1)" "user_wf s1 ps pt" "uview pt s1 = vwrite ?b x (uview pt s)"
    using copyout_ok [of s ps pt x ?b] by auto
  obtain m where m: "s1 = s\<lparr>mem := m\<rparr>" using copyout_mem [OF c(1)] by blast
  have v: "uview pt s1 = vwrite a (bs @ x) u" using c(3) d vwrite_append [of bs x a u] len by simp
  have "umapped pt s1 a room" unfolding umapped_def
  proof (intro allI impI)
    fix i assume i: "i < room"
    have "\<forall>i<room. uview pt s (a + of_nat i) \<noteq> None" using d unfolding umapped_def by blast
    from this [rule_format, OF i] have "uview pt s (a + of_nat i) \<noteq> None" .
    then show "uview pt s1 (a + of_nat i) \<noteq> None" unfolding c(3) vwrite_def by simp
  qed
  then have "user_got p pt ps u a room (bs @ x) (ToUser (?b + of_nat (length x))) s1"
    using d c(2) v len m by (simp add: user_got_def add.assoc)
  moreover have "copy_to dst x s = (0, ToUser (?b + of_nat (length x)), s1)"
    using d c(1) by (simp add: either_copyout_def runs_in_def)
  ultimately show "\<exists>dst' m. copy_to dst x s = (0, dst', s\<lparr>mem := m\<rparr>) \<and> user_got p pt ps u a room (bs @ x) dst' (s\<lparr>mem := m\<rparr>)"
    using m by blast
qed

definition stack_got :: "memory \<Rightarrow> byte list \<Rightarrow> byte list \<Rightarrow> dest \<Rightarrow> 'a fsst_scheme \<Rightarrow> bool" where
  "stack_got m cs bs dst s \<longleftrightarrow> dst = ToStack (cs @ bs) \<and> mem s = m"

interpretation ss: byte_sink "stack_got m cs" room for m cs room
proof
  fix bs dst and s s' :: "'a fsst_scheme" and x :: "byte list"
  assume g: "stack_got m cs bs dst s"
  show "stack_got m cs bs dst s'" if "lframe s s'" using g lframe_fields(1) [OF that] by (simp add: stack_got_def)
  have "copy_to dst x s = (0, ToStack (cs @ bs @ x), s\<lparr>mem := mem s\<rparr>)" using g by (simp add: stack_got_def)
  then show "\<exists>dst' h. copy_to dst x s = (0, dst', s\<lparr>mem := h\<rparr>) \<and> stack_got m cs (bs @ x) dst' (s\<lparr>mem := h\<rparr>)"
    using g by (intro exI [of _ "ToStack (cs @ bs @ x)"] exI [of _ "mem s"]) (simp add: stack_got_def)
qed

text \<open>Reading a part of a file into a variable of the kernel.\<close>

lemma readi_stack:
  assumes "tx d Map.empty r s" "fs_ok d ip s" "file_ok (view d s) (itable s ! ip)" "off + n \<le> i_size (itable s ! ip)"
  shows "\<exists>s'. readi ip (ToStack []) off n s = Ok (int n, ToStack (slice off n (content (view d s) (itable s ! ip))), s') \<and>
    tx d Map.empty r s' \<and> view d s' = view d s \<and> lframe s s'"
proof -
  let ?c = "take n (drop off (content (view d s) (itable s ! ip)))"
  have l: "length ?c = n" using assms(4) by (simp add: content_def)
  have "off + n < 2 ^ 32" using assms(3,4) by (simp add: file_ok_def)
  moreover have "stack_got (mem s) [] [] (ToStack []) s" by (simp add: stack_got_def)
  ultimately obtain dst s' where r: "readi ip (ToStack []) off n s = Ok (int n, dst, s')" "stack_got (mem s) [] ?c dst s'" "tx d Map.empty r s'"
      "view d s' = view d s" "mframe s s'"
    using ss.readi_ok [where room = n, of "mem s" "[]" "[]" "ToStack []" s ?c, OF _ refl _ assms(1-3)] l by auto
  have "mem s' = mem s" using r(2) by (simp add: stack_got_def)
  then have "lframe s s'" using r(5) by (simp add: mframe_def)
  then show ?thesis using r by (auto simp: stack_got_def slice_def)
qed

lemma mstore_append:
  assumes "length bs + length cs < 2 ^ 64"
  shows "mstore (a + of_nat (length bs)) cs (mstore a bs m) = mstore a (bs @ cs) m"
proof
  fix x
  have "vwrite (a + of_nat (length bs)) cs (vwrite a bs (Some \<circ> m)) x = vwrite a (bs @ cs) (Some \<circ> m) x"
    by (simp add: vwrite_append [OF assms])
  then show "mstore (a + of_nat (length bs)) cs (mstore a bs m) x = mstore a (bs @ cs) m x"
    by (simp add: vwrite_def mstore_def split: if_splits)
qed

definition kernel_got :: "memory \<Rightarrow> uint64 \<Rightarrow> nat \<Rightarrow> byte list \<Rightarrow> dest \<Rightarrow> 'a fsst_scheme \<Rightarrow> bool" where
  "kernel_got m a room bs dst s \<longleftrightarrow> dst = ToKernel (a + of_nat (length bs)) \<and> room < 2 ^ 64 \<and> mem s = mstore a bs m"

interpretation ks: byte_sink "kernel_got m a room" room for m a room
proof
  fix bs dst and s s' :: "'a fsst_scheme" and x :: "byte list"
  assume g: "kernel_got m a room bs dst s"
  show "kernel_got m a room bs dst s'" if "lframe s s'" using g lframe_fields(1) [OF that] by (simp add: kernel_got_def)
  assume len: "length bs + length x \<le> room"
  note d = g [unfolded kernel_got_def]
  have "copy_to dst x s = (0, ToKernel (a + of_nat (length (bs @ x))), s\<lparr>mem := mstore a (bs @ x) m\<rparr>)"
    using d len mstore_append [of bs x a m] by (simp add: either_copyout_def add.assoc)
  then show "\<exists>dst' n. copy_to dst x s = (0, dst', s\<lparr>mem := n\<rparr>) \<and> kernel_got m a room (bs @ x) dst' (s\<lparr>mem := n\<rparr>)"
    using d by (intro exI conjI) (assumption, simp add: kernel_got_def)
qed

section \<open>Sources\<close>

definition user_avail :: "nat \<Rightarrow> uint64 \<Rightarrow> source \<Rightarrow> 'a fsst_scheme \<Rightarrow> byte list \<Rightarrow> bool" where
  "user_avail p pt src s bs \<longleftrightarrow> runs_in p pt s \<and>
     (\<exists>a. src = FromUser a \<and> umapped pt s a (length bs) \<and> bs = user_bytes pt s a (length bs))"

lemma user_bytes_append: "user_bytes pt s a (m + n) = user_bytes pt s a m @ user_bytes pt s (a + of_nat m) n"
  by (rule nth_equalityI) (auto simp: user_bytes_def nth_append add.assoc simp flip: of_nat_add)

lemma umapped_append: "umapped pt s a (m + n) \<longleftrightarrow> umapped pt s a m \<and> umapped pt s (a + of_nat m) n"
proof -
  have "(\<forall>i<m + n. P i) \<longleftrightarrow> (\<forall>i<m. P i) \<and> (\<forall>i<n. P (m + i))" for P :: "nat \<Rightarrow> bool"
    by (metis add_diff_inverse_nat nat_add_left_cancel_less trans_less_add1)
  from this [of "\<lambda>i. uview pt s (a + of_nat i) \<noteq> None"] show ?thesis by (simp add: umapped_def add.assoc)
qed

lemma copyin_bytes: "umapped pt s a n \<Longrightarrow> copyin pt a n s = (0, user_bytes pt s a n)"
proof -
  assume m: "umapped pt s a n"
  obtain r bs where c: "copyin pt a n s = (r, bs)" by fastforce
  have e: "map Some bs = map (\<lambda>i. uview pt s (a + of_nat i)) [0..<n]" and r: "r = 0"
    using copyin_ok [where pt = pt and va = a and len = n and s = s] m c by simp_all
  have "map (the \<circ> Some) bs = map (\<lambda>i. the (uview pt s (a + of_nat i))) [0..<n]"
    using arg_cong [OF e, of "map the"] by (simp add: o_def)
  then show ?thesis using c r by (simp add: user_bytes_def o_def)
qed

interpretation uo: byte_source "user_avail p pt" for p pt
proof
  fix src bs x y and s s' :: "'a fsst_scheme"
  show "user_avail p pt src s' bs" if g: "user_avail p pt src s bs" and f: "fframe s s'"
    using g fframe_fields [OF f] runs_in_frame [of s' s p pt] umapped_cong [of s' s pt] uview_cong [of s' s pt]
    by (simp add: user_avail_def user_bytes_def)
  show "\<exists>src'. user_avail p pt src' s y \<and> (\<forall>s'. fframe s s' \<longrightarrow> copy_from src (length x) s' = (0, x, src'))"
    if g: "user_avail p pt src s (x @ y)"
  proof -
    obtain a where a: "runs_in p pt s" "src = FromUser a" "umapped pt s a (length x)" "umapped pt s (a + of_nat (length x)) (length y)"
      "x @ y = user_bytes pt s a (length x) @ user_bytes pt s (a + of_nat (length x)) (length y)"
      using g by (auto simp: user_avail_def umapped_append user_bytes_append)
    have l: "length x = length (user_bytes pt s a (length x))" by (simp add: user_bytes_def)
    have xy: "x = user_bytes pt s a (length x)" "y = user_bytes pt s (a + of_nat (length x)) (length y)"
      using a(5) l append_eq_append_conv [of x "user_bytes pt s a (length x)"] by blast+
    have "copy_from src (length x) s' = (0, x, FromUser (a + of_nat (length x)))" if f: "fframe s s'" for s'
    proof -
      note ff = fframe_fields [OF f]
      have r: "runs_in p pt s'" by (rule runs_in_frame [OF ff(2,3) a(1)])
      have "umapped pt s' a (length x)" "user_bytes pt s' a (length x) = x"
        using a(3) xy(1) umapped_cong [OF ff(1)] uview_cong [OF ff(1)] by (simp_all add: user_bytes_def)
      then show ?thesis using copyin_bytes [of pt s' a "length x"] r a(2) by (simp add: either_copyin_def runs_in_def)
    qed
    moreover have "user_avail p pt (FromUser (a + of_nat (length x))) s y" using a xy by (auto simp: user_avail_def)
    ultimately show ?thesis by blast
  qed
qed

definition stack_avail :: "source \<Rightarrow> 'a fsst_scheme \<Rightarrow> byte list \<Rightarrow> bool" where
  "stack_avail src s bs \<longleftrightarrow> src = FromStack bs"

interpretation so: byte_source stack_avail
  by unfold_locales (auto simp: stack_avail_def)

definition kernel_avail :: "source \<Rightarrow> 'a fsst_scheme \<Rightarrow> byte list \<Rightarrow> bool" where
  "kernel_avail src s bs \<longleftrightarrow> (\<exists>a. src = FromKernel a \<and> bs = mload (length bs) a (mem s))"

lemma mload_append: "mload (m + n) a h = mload m a h @ mload n (a + of_nat m) h"
  by (rule nth_equalityI) (auto simp: mload_def nth_append add.assoc simp flip: of_nat_add)

interpretation ko: byte_source kernel_avail
proof
  fix src bs x y and s s' :: "'a fsst_scheme"
  show "kernel_avail src s' bs" if g: "kernel_avail src s bs" and f: "fframe s s'"
    using g fframe_fields(1) [OF f] by (simp add: kernel_avail_def)
  show "\<exists>src'. kernel_avail src' s y \<and> (\<forall>s'. fframe s s' \<longrightarrow> copy_from src (length x) s' = (0, x, src'))"
    if g: "kernel_avail src s (x @ y)"
  proof -
    obtain a where a: "src = FromKernel a" "x @ y = mload (length x) a (mem s) @ mload (length y) (a + of_nat (length x)) (mem s)"
      using g by (auto simp: kernel_avail_def mload_append)
    have l: "length x = length (mload (length x) a (mem s))" by simp
    have xy: "x = mload (length x) a (mem s)" "y = mload (length y) (a + of_nat (length x)) (mem s)"
      using a(2) l append_eq_append_conv [of x "mload (length x) a (mem s)"] by blast+
    have "copy_from src (length x) s' = (0, x, FromKernel (a + of_nat (length x)))" if f: "fframe s s'" for s'
      using a(1) xy(1) fframe_fields(1) [OF f] by (simp add: either_copyin_def)
    then show ?thesis using xy(2) by (auto simp: kernel_avail_def)
  qed
qed

end
