(* ===== verification/File_Correct.thy ===== *)
theory File_Correct
  imports Inode_Copy Demo
begin

text \<open>
  The contract of the file system towards its callers: \<^verbatim>\<open>readi\<close> and \<^verbatim>\<open>writei\<close>
  read and write the contents of a file, a write between \<^verbatim>\<open>begin_op\<close> and
  \<^verbatim>\<open>end_op\<close> is atomic with respect to crashes, and \<^verbatim>\<open>balloc\<close> never hands
  out a block that is in use.
\<close>

section \<open>The end of an operation\<close>

lemma tx_log_ok:
  assumes "tx d Map.empty r s"
  shows "quiet d 1 s" "log_ok d s"
  using assms by (auto simp: tx_def quiet_def log_ok_def legal_def)

lemma upd_log_bstate:
  fixes s :: "'a logst_scheme"
  shows "view d (s\<lparr>log_outstanding := n, log_committing := c\<rparr>) = view d s" "refs d (s\<lparr>log_outstanding := n, log_committing := c\<rparr>) = refs d s"
    "blocked d (s\<lparr>log_outstanding := n, log_committing := c\<rparr>) = blocked d s" "free_bufs (s\<lparr>log_outstanding := n, log_committing := c\<rparr>) = free_bufs s"
    "bio_inv d (s\<lparr>log_outstanding := n, log_committing := c\<rparr>) = bio_inv d s"
  by (simp_all add: bstate_cong [of "s\<lparr>log_outstanding := n, log_committing := c\<rparr>" s] bio_inv_cong [of "s\<lparr>log_outstanding := n, log_committing := c\<rparr>" s] myproc_def)

text \<open>The last operation to end commits; a crash before the end loses all of the transaction or nothing.\<close>

lemma end_op_crash:
  fixes s :: "'a logst_scheme"
  assumes "tx d Map.empty r s" "log_outstanding s = 1" "\<not> log_committing s" "parse_head (disk s (log_start s)) = Some []"
  shows "\<exists>s' tr. end_op s = Ok s' \<and> dtrace s' = dtrace s @ tr \<and> disk s' = writes tr (disk s) \<and> bframe (s\<lparr>log_lh := [], log_outstanding := 0\<rparr>) s' \<and>
    (\<forall>c. c \<notin> {log_start s..<log_start s + log_size s} \<longrightarrow> view d s' c = view d s c \<and> disk s' c = view d s c) \<and>
    (\<forall>ws rest (boot :: 'b logst_scheme). tr = ws @ rest \<longrightarrow> booted d (writes ws (disk s)) boot \<longrightarrow>
      (\<exists>r. initlog d (log_start s) (log_size s) (binit boot) = Ok r \<and> view d r = disk r \<and>
        ((\<forall>c. c \<notin> {log_start s..<log_start s + log_size s} \<longrightarrow> disk r c = disk s c) \<or>
         (\<forall>c. c \<notin> {log_start s..<log_start s + log_size s} \<longrightarrow> disk r c = view d s c))))"
proof -
  let ?s1 = "s\<lparr>log_outstanding := 0, log_committing := True\<rparr>" and ?L = "{log_start s..<log_start s + log_size s}"
  have t: "tx d Map.empty 0 ?s1" using assms(1) unfolding tx_def legal_def owned_def is_buf_def by (simp add: upd_log_bstate)
  note q = tx_log_ok [OF t]
  have agree: "\<forall>c. c \<notin> set (log_lh ?s1) \<longrightarrow> c \<notin> {log_start ?s1..<log_start ?s1 + log_size ?s1} \<longrightarrow> view d ?s1 c = disk ?s1 c"
    using t by (simp add: tx_def)
  define tr where "tr = (if log_lh s = [] then [] else commit_writes (log_start s) (view d s) (log_lh s))"
  have "\<exists>s2. commit ?s1 = Ok s2 \<and> bframe (?s1\<lparr>log_lh := []\<rparr>) s2 \<and> dtrace s2 = dtrace s @ tr \<and> disk s2 = writes tr (disk s) \<and>
      (\<forall>c. c \<notin> ?L \<longrightarrow> view d s2 c = view d s c \<and> disk s2 c = view d s c)"
  proof (cases "log_lh s = []")
    case True
    then have "commit ?s1 = Ok ?s1" "bframe (?s1\<lparr>log_lh := []\<rparr>) ?s1" by (simp add: commit_def, cases s, simp)
    then show ?thesis using True agree by (auto simp: tr_def upd_log_bstate)
  next
    case False
    from commit_spec [of d ?s1] obtain s2 where s2: "commit ?s1 = Ok s2" "bframe (?s1\<lparr>log_lh := []\<rparr>) s2"
      "view d s2 = writes tr (view d s)" "disk s2 = writes tr (disk s)" "dtrace s2 = dtrace s @ tr"
      using t q False by (auto simp: tx_def tr_def upd_log_bstate)
    have "view d s2 c = view d s c \<and> disk s2 c = view d s c" if c: "c \<notin> ?L" for c
    proof -
      have lh: "distinct (log_lh s)" "\<forall>b\<in>set (log_lh s). b < log_start s \<or> log_start s + length (log_lh s) < b"
        "c < log_start s \<or> log_start s + length (log_lh s) < c" using q(2) c by (fastforce simp: log_ok_def not_less)+
      show ?thesis using commit_writes_view [OF lh] False agree c s2(3,4) by (simp add: tr_def upd_log_bstate)
    qed
    then show ?thesis using s2 by blast
  qed
  then obtain s2 where s2: "commit ?s1 = Ok s2" "bframe (?s1\<lparr>log_lh := []\<rparr>) s2" "dtrace s2 = dtrace s @ tr" "disk s2 = writes tr (disk s)"
    "\<forall>c. c \<notin> ?L \<longrightarrow> view d s2 c = view d s c \<and> disk s2 c = view d s c" by blast
  let ?s3 = "wakeup ChLog (s2\<lparr>log_committing := False\<rparr>)"
  have "end_op s = Ok ?s3" using assms(2,3) s2(1) by (simp add: end_op_def)
  moreover have "dtrace ?s3 = dtrace s @ tr" "disk ?s3 = writes tr (disk s)" using s2(3,4) by simp_all
  moreover have "view d ?s3 = view d s2" by (simp add: bstate_cong [of ?s3 s2])
  moreover have "bframe (s\<lparr>log_lh := [], log_outstanding := 0\<rparr>) ?s3"
  proof -
    have "bframe (s\<lparr>log_lh := [], log_outstanding := 0\<rparr>) (s2\<lparr>log_committing := False\<rparr>)"
      using s2(2) assms(3) by (cases s; cases s2) (simp add: bframe_def)
    then show ?thesis using bframe_wakeup bframe_trans by blast
  qed
  moreover have "\<exists>r. initlog d (log_start s) (log_size s) (binit boot) = Ok r \<and> view d r = disk r \<and>
        ((\<forall>c. c \<notin> ?L \<longrightarrow> disk r c = disk s c) \<or> (\<forall>c. c \<notin> ?L \<longrightarrow> disk r c = view d s c))"
    if "tr = ws @ rest" "booted d (writes ws (disk s)) boot" for ws rest and boot :: "'b logst_scheme"
  proof (cases "log_lh s = []")
    case True
    then have "booted d (disk s) boot" using that by (simp add: tr_def)
    from initlog_spec [OF this assms(4), of "log_size s"] obtain r where "initlog d (log_start s) (log_size s) (binit boot) = Ok r"
      "view d r = disk r" "disk r = writes (recover_writes (log_start s) (disk s) []) (disk s)" by auto
    moreover have "0 < log_size s" using assms(1) by (simp add: tx_def)
    ultimately show ?thesis by (auto simp: recover_writes_def)
  next
    case False
    then show ?thesis using crash_recovers [OF q(2) _ agree, of ws rest boot] that assms(4) by (simp add: tr_def upd_log_bstate)
  qed
  ultimately show ?thesis using s2(5) by (intro exI [of _ ?s3] exI [of _ tr]) simp
qed

section \<open>A write as one operation\<close>

text \<open>The bytes of a file as a disk holds it: its inode on the disk says where they are.\<close>

definition disk_file :: "(nat \<Rightarrow> byte list) \<Rightarrow> superblock \<Rightarrow> inode \<Rightarrow> byte list" where
  "disk_file dk sp i = content dk (load_dinode (dk (IBLOCK (i_inum i) sp)) i)"

text \<open>Between operations: nothing logged, nothing held, and the inode in memory is the one on disk.\<close>

definition settled :: "nat \<Rightarrow> nat \<Rightarrow> 'a fsst_scheme \<Rightarrow> bool" where
  "settled d ip s \<longleftrightarrow> tx d Map.empty 0 s \<and> log_lh s = [] \<and> log_outstanding s = 0 \<and> \<not> log_committing s \<and>
     parse_head (disk s (log_start s)) = Some [] \<and> fs_ok d ip s \<and> file_ok (view d s) (itable s ! ip) \<and>
     i_inum (itable s ! ip) < sb_ninodes (sb s) \<and> dinode_ok (itable s ! ip) \<and>
     load_dinode (view d s (IBLOCK (i_inum (itable s ! ip)) (sb s))) (itable s ! ip) = itable s ! ip"

lemma disk_file_cong:
  assumes "fs_ok d ip s" "file_ok (view d s) (itable s ! ip)" "i_inum (itable s ! ip) < sb_ninodes (sb s)"
    and "load_dinode (view d s (IBLOCK (i_inum (itable s ! ip)) (sb s))) i = itable s ! ip" "i_inum i = i_inum (itable s ! ip)"
    and "\<And>c. c \<notin> {log_start s..<log_start s + log_size s} \<Longrightarrow> dk c = view d s c"
  shows "disk_file dk (sb s) i = content (view d s) (itable s ! ip)"
proof -
  note ok = assms(1) [unfolded fs_ok_def]
  have g: "geom s" using ok by simp
  have "dk (IBLOCK (i_inum i) (sb s)) = view d s (IBLOCK (i_inum i) (sb s))"
    using IBLOCK_area [OF g] assms(3,5,6) by (auto simp: legal_def)
  moreover have "content dk (itable s ! ip) = content (view d s) (itable s ! ip)"
  proof (rule content_cong [OF assms(2)])
    fix y assume y: "y \<le> MAXFILE" "iaddr (view d s) (itable s ! ip) y \<noteq> 0"
    have "inode_ok (view d s) (sb s) (itable s ! ip)" using ok by simp
    note a = inode_okD [OF this y]
    have "legal s (iaddr (view d s) (itable s ! ip) y)" using geom_legal [OF g] a(1,2) g by (auto simp: geom_def sb_ok_def dstart_def)
    then show "dk (iaddr (view d s) (itable s ! ip) y) = view d s (iaddr (view d s) (itable s ! ip) y)" using assms(6) by (simp add: legal_def)
  qed
  ultimately show ?thesis using assms(4,5) by (simp add: disk_file_def)
qed

lemma load_dinode_other [simp]: "load_dinode b (i\<lparr>i_addrs := as, i_size := n\<rparr>) = load_dinode b i"
  by (simp add: load_dinode_def Let_def)

lemma settled_begin:
  assumes "settled d ip s" "r + 2 \<le> free_bufs s" "r < log_size s" "r \<le> LOGSIZE"
  shows "begin_op s = Ok (s\<lparr>log_outstanding := 1\<rparr>)" "tx d Map.empty r (s\<lparr>log_outstanding := 1\<rparr>)" "view d (s\<lparr>log_outstanding := 1\<rparr>) = view d s"
    "fs_ok d ip (s\<lparr>log_outstanding := 1\<rparr>)"
proof -
  let ?s1 = "s\<lparr>log_outstanding := 1\<rparr>"
  have b: "view d ?s1 = view d s" "refs d ?s1 = refs d s" "blocked d ?s1 = blocked d s" "free_bufs ?s1 = free_bufs s" "bio_inv d ?s1 = bio_inv d s"
    by (simp_all add: bstate_cong [of ?s1 s] bio_inv_cong [of ?s1 s] myproc_def)
  show "view d ?s1 = view d s" by (rule b)
  show "begin_op s = Ok ?s1" using assms(1) by (simp add: settled_def begin_op_def)
  have "tx d Map.empty 0 s" "log_lh s = []" using assms(1) by (simp_all add: settled_def)
  then show "tx d Map.empty r ?s1" using assms(2-4) unfolding tx_def b legal_def owned_def is_buf_def by auto
  show "fs_ok d ip ?s1" using assms(1) b unfolding settled_def fs_ok_def geom_def by simp
qed

context byte_source
begin

lemma write_op:
  assumes "settled d ip s" "avail src (s\<lparr>log_outstanding := 1\<rparr>) data" "off \<le> i_size (itable s ! ip)" "off + length data \<le> MAXFILE * BSIZE"
    and "6 * nblk off (length data) + 3 \<le> free_bufs s" "6 * nblk off (length data) + 1 < log_size s" "6 * nblk off (length data) + 1 \<le> LOGSIZE"
    and "2 * nblk off (length data) \<le> nfree (view d s) (sb s)" "i = itable s ! ip" "old = content (view d s) i"
    and "new = take off old @ data @ drop (off + length data) old"
  shows "\<exists>s1 s2 s3 tr. begin_op s = Ok s1 \<and> writei ip src off (length data) s1 = Ok (int (length data), s2) \<and> end_op s2 = Ok s3 \<and>
    dtrace s3 = dtrace s @ tr \<and> disk_file (view d s3) (sb s) i = new \<and> disk_file (disk s3) (sb s) i = new \<and>
    (\<forall>ws rest (boot :: 'b logst_scheme). tr = ws @ rest \<longrightarrow> booted d (writes ws (disk s)) boot \<longrightarrow>
      (\<exists>r. initlog d (log_start s) (log_size s) (binit boot) = Ok r \<and> (disk_file (disk r) (sb s) i = old \<or> disk_file (disk r) (sb s) i = new)))"
proof -
  let ?s1 = "s\<lparr>log_outstanding := 1\<rparr>" and ?L = "{log_start s..<log_start s + log_size s}"
  note st = assms(1) [unfolded settled_def]
  have room: "Suc (6 * nblk off (length data)) + 2 \<le> free_bufs s" "Suc (6 * nblk off (length data)) < log_size s" "Suc (6 * nblk off (length data)) \<le> LOGSIZE"
    using assms(5-7) by simp_all
  note b = settled_begin [OF assms(1) room]
  have pre: "file_ok (view d ?s1) (itable ?s1 ! ip)" "off \<le> i_size (itable ?s1 ! ip)" "tx d Map.empty (6 * nblk off (length data) + Suc 0) ?s1"
    "2 * nblk off (length data) \<le> nfree (view d ?s1) (sb ?s1)" "i_inum (itable ?s1 ! ip) < sb_ninodes (sb ?s1)" "dinode_ok (itable ?s1 ! ip)"
    using st b assms(3,8) by simp_all
  from writei_ok [OF assms(2) b(4) pre(1,2) assms(4) pre(3-6)] obtain s2 as n where w: "writei ip src off (length data) ?s1 = Ok (int (length data), s2)"
      "tx d Map.empty 0 s2" "fs_ok d ip s2" "file_ok (view d s2) (itable s2 ! ip)" "fframe ?s1 s2"
      "itable s2 = (itable s)[ip := i\<lparr>i_addrs := as, i_size := n\<rparr>]" "content (view d s2) (itable s2 ! ip) = new"
      "load_dinode (view d s2 (IBLOCK (i_inum i) (sb s))) (itable s2 ! ip) = itable s2 ! ip"
    using b(3) assms(9-11) by auto
  have ip: "ip < length (itable s)" using st by (simp add: fs_ok_def)
  have f: "sb s2 = sb s" "log_start s2 = log_start s" "log_size s2 = log_size s" "log_outstanding s2 = 1" "log_committing s2 = log_committing s"
      "disk s2 = disk s" "dtrace s2 = dtrace s"
    using fframe_fields [OF w(5)] lframe_fields [OF w(5) [unfolded fframe_def]] by simp_all
  from end_op_crash [OF w(2) f(4), where 'b = 'b] obtain s3 tr where e: "end_op s2 = Ok s3" "dtrace s3 = dtrace s @ tr"
      "\<forall>c. c \<notin> ?L \<longrightarrow> view d s3 c = view d s2 c \<and> disk s3 c = view d s2 c"
    and cr: "\<forall>ws rest (boot :: 'b logst_scheme). tr = ws @ rest \<longrightarrow> booted d (writes ws (disk s)) boot \<longrightarrow>
      (\<exists>r. initlog d (log_start s) (log_size s) (binit boot) = Ok r \<and> view d r = disk r \<and>
        ((\<forall>c. c \<notin> ?L \<longrightarrow> disk r c = disk s c) \<or> (\<forall>c. c \<notin> ?L \<longrightarrow> disk r c = view d s2 c)))"
    using st f by auto
  have i2: "itable s2 ! ip = i\<lparr>i_addrs := as, i_size := n\<rparr>" using w(6) ip by simp
  have new: "disk_file dk (sb s) i = new" if "\<And>c. c \<notin> ?L \<Longrightarrow> dk c = view d s2 c" for dk
    using disk_file_cong [OF w(3,4), of i dk] that w(7,8) i2 f st assms(9) by simp
  have old: "disk_file dk (sb s) i = old" if "\<And>c. c \<notin> ?L \<Longrightarrow> dk c = disk s c" for dk
    using disk_file_cong [of d ip s i dk] that st assms(9,10) by (simp add: tx_def)
  have cr: "\<exists>r. initlog d (log_start s) (log_size s) (binit boot) = Ok r \<and> (disk_file (disk r) (sb s) i = old \<or> disk_file (disk r) (sb s) i = new)"
    if "tr = ws @ rest" "booted d (writes ws (disk s)) boot" for ws rest and boot :: "'b logst_scheme"
    using cr [rule_format, OF that] old new by blast
  have "disk_file (view d s3) (sb s) i = new" "disk_file (disk s3) (sb s) i = new" using new e(3) by simp_all
  with b(1) w(1) e(1,2) cr show ?thesis
    by (intro exI [of _ ?s1] exI [of _ s2] exI [of _ s3] exI [of _ tr] conjI allI impI) assumption+
qed

end

section \<open>Properties\<close>

text \<open>
  C9. \<^verbatim>\<open>readi\<close> reads the file: in a well-formed file system it returns the number of bytes of the
  file that lie in the range asked for, puts exactly these bytes into the memory of the running process
  at the address given and changes no other byte of that memory, and no block of the file system changes.
\<close>

theorem readi_correct:
  fixes s :: "'a fsst_scheme"
  assumes "tx d Map.empty r s" "fs_ok d ip s" "file_ok (view d s) (itable s ! ip)" "off + n < 2 ^ 32"
    and "c = take n (drop off (content (view d s) (itable s ! ip)))"
    and "runs_in p pt s" "user_wf s ps pt" "umapped pt s a (length c)"
  shows "\<exists>s'. readi ip (ToUser a) off n s = Ok (int (length c), ToUser (a + of_nat (length c)), s') \<and>
    uview pt s' = vwrite a c (uview pt s) \<and> user_wf s' ps pt \<and> view d s' = view d s \<and> tx d Map.empty r s' \<and> itable s' = itable s"
proof -
  have "length c < 2 ^ 64" using assms(4,5) by simp
  then have "user_got p pt ps (uview pt s) a (length c) [] (ToUser a) s" using assms(6-8) by (simp add: user_got_def vwrite_def)
  from us.readi_ok [OF this assms(5) _ assms(1-4)] obtain dst s' where r: "readi ip (ToUser a) off n s = Ok (int (length c), dst, s')"
    "user_got p pt ps (uview pt s) a (length c) c dst s'" "tx d Map.empty r s'" "view d s' = view d s" "mframe s s'" by auto
  have "itable s' = itable s" using lframe_fs [OF r(5) [unfolded mframe_def]] by simp
  with r show ?thesis by (auto simp: user_got_def)
qed

text \<open>
  C8. \<^verbatim>\<open>writei\<close> writes the file: within a transaction with room for its blocks and with free
  blocks on the disk it writes all \<open>n\<close> bytes from the memory of the running process, the contents of the
  file become the old contents with these bytes at the offset (extended if they reach past the end), the
  inode on disk is the one in memory, and the contents of every file that shares no block with this one stay.
\<close>

theorem writei_correct:
  fixes s :: "'a fsst_scheme"
  assumes "tx d Map.empty (6 * nblk off n + Suc r) s" "fs_ok d ip s" "file_ok (view d s) (itable s ! ip)" "i = itable s ! ip"
    and "off \<le> i_size i" "off + n \<le> MAXFILE * BSIZE" "2 * nblk off n \<le> nfree (view d s) (sb s)" "i_inum i < sb_ninodes (sb s)" "dinode_ok i"
    and "runs_in p pt s" "umapped pt s a n" "old = content (view d s) i"
  shows "\<exists>s'. writei ip (FromUser a) off n s = Ok (int n, s') \<and> tx d Map.empty r s' \<and> fs_ok d ip s' \<and> file_ok (view d s') (itable s' ! ip) \<and>
    content (view d s') (itable s' ! ip) = take off old @ user_bytes pt s a n @ drop (off + n) old \<and>
    load_dinode (view d s' (IBLOCK (i_inum i) (sb s))) i = itable s' ! ip \<and>
    (\<forall>j. inode_ok (view d s) (sb s) j \<longrightarrow> file_ok (view d s) j \<longrightarrow> no_shared (view d s) i j \<longrightarrow> content (view d s') j = content (view d s) j)"
proof -
  let ?data = "user_bytes pt s a n"
  have l: "length ?data = n" by (simp add: user_bytes_def)
  have "user_avail p pt (FromUser a) s ?data" using assms(10,11) l by (simp add: user_avail_def)
  from uo.writei_ok [OF this assms(2,3), of off r] assms l obtain s' as m where w: "writei ip (FromUser a) off n s = Ok (int n, s')"
      "tx d Map.empty r s'" "fs_ok d ip s'" "file_ok (view d s') (itable s' ! ip)" "itable s' = (itable s)[ip := i\<lparr>i_addrs := as, i_size := m\<rparr>]"
      "content (view d s') (itable s' ! ip) = take off old @ ?data @ drop (off + n) old"
      "load_dinode (view d s' (IBLOCK (i_inum i) (sb s))) (itable s' ! ip) = itable s' ! ip"
      "\<forall>j. inode_ok (view d s) (sb s) j \<longrightarrow> file_ok (view d s) j \<longrightarrow> no_shared (view d s) i j \<longrightarrow> content (view d s') j = content (view d s) j"
    by auto
  have "itable s' ! ip = i\<lparr>i_addrs := as, i_size := m\<rparr>" using w(5) assms(2) by (simp add: fs_ok_def)
  with w show ?thesis by (intro exI [of _ s'] conjI) simp_all
qed

text \<open>
  C7. A write to a file is atomic: \<^verbatim>\<open>begin_op\<close>, \<^verbatim>\<open>writei\<close> and
  \<^verbatim>\<open>end_op\<close> succeed, after them the file on disk has its new contents, and if the machine
  stops after any number of their disk writes and boots again, then \<^verbatim>\<open>initlog\<close> succeeds and leaves
  the file, inode and blocks, with either its old or its new contents.
\<close>

theorem write_atomic:
  fixes s :: "'a fsst_scheme"
  assumes "settled d ip s" "runs_in p pt s" "umapped pt s a n" "i = itable s ! ip" "off \<le> i_size i" "off + n \<le> MAXFILE * BSIZE"
    and "6 * nblk off n + 3 \<le> free_bufs s" "6 * nblk off n + 1 < log_size s" "6 * nblk off n + 1 \<le> LOGSIZE" "2 * nblk off n \<le> nfree (view d s) (sb s)"
    and "old = content (view d s) i" "new = take off old @ user_bytes pt s a n @ drop (off + n) old"
  shows "\<exists>s1 s2 s3 tr. begin_op s = Ok s1 \<and> writei ip (FromUser a) off n s1 = Ok (int n, s2) \<and> end_op s2 = Ok s3 \<and>
    dtrace s3 = dtrace s @ tr \<and> disk_file (view d s3) (sb s) i = new \<and> disk_file (disk s3) (sb s) i = new \<and>
    (\<forall>ws rest (boot :: 'b logst_scheme). tr = ws @ rest \<longrightarrow> booted d (writes ws (disk s)) boot \<longrightarrow>
      (\<exists>r. initlog d (log_start s) (log_size s) (binit boot) = Ok r \<and> (disk_file (disk r) (sb s) i = old \<or> disk_file (disk r) (sb s) i = new)))"
proof -
  let ?data = "user_bytes pt s a n" and ?s1 = "s\<lparr>log_outstanding := 1\<rparr>"
  have l: "length ?data = n" by (simp add: user_bytes_def)
  have m: "mem ?s1 = mem s" by simp
  have "user_avail p pt (FromUser a) ?s1 ?data" using assms(2,3) l uview_cong [OF m] umapped_cong [OF m] unfolding user_avail_def user_bytes_def runs_in_def myproc_def by simp
  from uo.write_op [OF assms(1) this, of off i old new, where 'b = 'b] show ?thesis unfolding l using assms(4-12) by simp
qed

text \<open>
  C12. \<^verbatim>\<open>balloc\<close> returns a block of the data area that was free, cleared, and marks it and no other
  block as used; \<^verbatim>\<open>bfree\<close> of that block gives back the free map from before, and neither changes a
  block that was in use outside the free map.
\<close>

theorem balloc_bfree_correct:
  fixes s :: "'a fsst_scheme"
  assumes "tx d Map.empty (3 + r) s" "geom s" "bm_ok (view d s) (sb s)" "\<exists>b < sb_size (sb s). \<not> used (view d s) (sb s) b"
  shows "\<exists>b s1 s2. balloc d s = Ok (b, s1) \<and> dstart (sb s) \<le> b \<and> b < sb_size (sb s) \<and> \<not> used (view d s) (sb s) b \<and>
    view d s1 b = replicate BSIZE 0 \<and> (\<forall>c < sb_size (sb s). used (view d s1) (sb s) c \<longleftrightarrow> c = b \<or> used (view d s) (sb s) c) \<and>
    bfree d b s1 = Ok s2 \<and> (\<forall>c < sb_size (sb s). used (view d s2) (sb s) c \<longleftrightarrow> used (view d s) (sb s) c) \<and>
    (\<forall>c. c \<noteq> b \<longrightarrow> c \<noteq> BBLOCK b (sb s) \<longrightarrow> view d s1 c = view d s c \<and> view d s2 c = view d s c) \<and> tx d Map.empty r s2"
proof -
  have "tx d Map.empty (Suc (Suc (Suc r))) s" using assms(1) by (simp add: eval_nat_numeral)
  from balloc_ok [OF this _ assms(2,3) _ assms(4)] obtain b s1 where b: "balloc d s = Ok (b, s1)" "dstart (sb s) \<le> b" "b < sb_size (sb s)"
    "\<not> used (view d s) (sb s) b" "tx d Map.empty (Suc r) s1" "view d s1 = balloc_view (sb s) b (view d s)" "lframe s s1" by auto
  have l: "length (view d t c) = BSIZE" if "tx d Map.empty k t" for t :: "'a fsst_scheme" and k c using that by (simp add: tx_def)
  have u1: "used (view d s1) (sb s) c \<longleftrightarrow> c = b \<or> used (view d s) (sb s) c" if "c < sb_size (sb s)" for c
    unfolding b(6) by (rule used_balloc_view [OF l [OF assms(1)] assms(3) b(4) that assms(2) refl])
  have f: "sb s1 = sb s" "geom s1" using lframe_fs [OF b(7)] geom_frame [OF b(7)] assms(2) by simp_all
  from bfree_ok [OF b(5) _ f(2), of b] obtain s2 where s2: "bfree d b s1 = Ok s2" "tx d Map.empty r s2"
    "view d s2 = (view d s1)(BBLOCK b (sb s) := mark_free (b mod BPB) (view d s1 (BBLOCK b (sb s))))"
    using u1 [OF b(3)] b(3) f(1) by auto
  have "used (view d s2) (sb s) c \<longleftrightarrow> used (view d s) (sb s) c" if c: "c < sb_size (sb s)" for c
    using used_mark(2) [of "view d s1" b "sb s" c, OF l [OF b(5)]] u1 [OF c] b(4) s2(3) by auto
  moreover have "BBLOCK b (sb s) \<noteq> b" using BBLOCK_area(2) [OF assms(2) b(3)] b(2) by simp
  ultimately show ?thesis using b(1-4) u1 s2(1,2)
    by (intro exI [of _ b] exI [of _ s1] exI [of _ s2] conjI) (auto simp: s2(3) b(6) balloc_view_def)
qed

section \<open>Concrete instances\<close>

text \<open>
  A disk with one file of type \<open>ty\<close>: inode 1 with \<open>n\<close> bytes in block 46, which is \<open>blk\<close>; blocks 0 to 46
  are marked in the free map, which is block 45. The inode is in slot 0 of the table, and the process of
  \<open>demo_k\<close> runs.
\<close>

definition demo_ino :: "int \<Rightarrow> nat \<Rightarrow> inode" where
  "demo_ino ty n = inode0\<lparr>i_dev := 1, i_inum := 1, i_ref := 1, i_locked := True, i_pid := 1, i_valid := True, i_type := ty, i_nlink := 1,
     i_size := n, i_addrs := 46 # replicate 12 0\<rparr>"

definition demo_map :: "byte list" where
  "demo_map = replicate 5 0xFF @ [0x7F] @ replicate 1018 0"

definition demo_img :: "int \<Rightarrow> nat \<Rightarrow> byte list \<Rightarrow> nat \<Rightarrow> byte list" where
  "demo_img ty n blk b = (if b = 32 then store_dinode (demo_ino ty n) (replicate 1024 0) else if b = 45 then demo_map
     else if b = 46 then blk else replicate 1024 0)"

definition demo_st :: "int \<Rightarrow> nat \<Rightarrow> byte list \<Rightarrow> kst" where
  "demo_st ty n blk = demo_k\<lparr>disk := demo_img ty n blk, itable := demo_ino ty n # replicate 49 inode0\<rparr>"

definition demo_par :: "int \<Rightarrow> nat \<Rightarrow> byte list \<Rightarrow> bool" where
  "demo_par ty n blk \<longleftrightarrow> short_ok ty \<and> n \<le> 1024 \<and> length blk = 1024"

lemma demo_map_bits: "list_all (\<lambda>b. \<not> bit_free b demo_map) [0..<47]" "bit_free 47 demo_map" "bit_free 48 demo_map"
  by code_simp+

lemma demo_ip_ok: "demo_par ty n blk \<Longrightarrow> dinode_ok (demo_ino ty n)"
  by (simp add: demo_par_def dinode_ok_def demo_ino_def short_ok_def inode0_def)

lemma demo_fs_simps [simp]:
  "sb (demo_st ty n blk) = demo_sb" "itable (demo_st ty n blk) ! 0 = demo_ino ty n" "length (itable (demo_st ty n blk)) = 50" "log_start (demo_st ty n blk) = 2" "log_size (demo_st ty n blk) = 30"
  "log_lh (demo_st ty n blk) = []" "log_outstanding (demo_st ty n blk) = 0" "log_committing (demo_st ty n blk) = False" "log_dev (demo_st ty n blk) = 1" "disk (demo_st ty n blk) = demo_img ty n blk"
  "mem (demo_st ty n blk) = mem demo_as" "freelist (demo_st ty n blk) = freelist demo_as" "kend (demo_st ty n blk) = kend demo_as" "bufs (demo_st ty n blk) = replicate 30 buf0"
  by (simp_all add: demo_st_def demo_k_def)

lemma demo_fs_cache: "bio_inv 1 (demo_st ty n blk)" "view 1 (demo_st ty n blk) = demo_img ty n blk" "blocked 1 (demo_st ty n blk) b = False" "free_bufs (demo_st ty n blk) = 30"
proof -
  show b: "bio_inv 1 (demo_st ty n blk)" by (auto simp: bio_inv_def demo_st_def demo_k_def buf0_def myproc_def)
  have n: "\<not> is_buf 1 (demo_st ty n blk) i c" for i c by (auto simp: is_buf_def buf0_def)
  show "view 1 (demo_st ty n blk) = demo_img ty n blk" "blocked 1 (demo_st ty n blk) b = False" using no_buf [OF b n] by (auto simp: fun_eq_iff)
  show "free_bufs (demo_st ty n blk) = 30" by (simp add: free_bufs_def buf0_def)
qed

lemma demo_disk_length: "demo_par ty n blk \<Longrightarrow> length (demo_img ty n blk b) = 1024"
proof -
  assume p: "demo_par ty n blk"
  have "length (enc_inode (demo_ino ty n)) = 64" by (intro length_enc_inode) (simp add: demo_ino_def)
  then have "length (store_dinode (demo_ino ty n) (replicate 1024 0)) = 1024"
    using dinode_off_bound [of 1] unfolding store_dinode_def by (subst length_splice) (simp_all add: demo_ino_def)
  then show ?thesis using p by (simp add: demo_img_def demo_map_def demo_par_def)
qed

lemma demo_fs_tx: "demo_par ty n blk \<Longrightarrow> tx 1 Map.empty 0 (demo_st ty n blk)"
  using demo_disk_length demo_fs_cache unfolding tx_def by simp

lemma demo_used: "b < 47 \<Longrightarrow> used (demo_img ty n blk) demo_sb b" "\<not> used (demo_img ty n blk) demo_sb 47" "\<not> used (demo_img ty n blk) demo_sb 48"
proof -
  have m: "demo_img ty n blk 45 = demo_map" by (simp add: demo_img_def)
  show "used (demo_img ty n blk) demo_sb b" if "b < 47"
    using demo_map_bits(1) that by (simp add: used_def BBLOCK_def demo_sb_def m list_all_iff)
  show "\<not> used (demo_img ty n blk) demo_sb 47" "\<not> used (demo_img ty n blk) demo_sb 48"
    using demo_map_bits(2,3) by (simp_all add: used_def BBLOCK_def demo_sb_def m)
qed

lemma demo_nfree: "2 \<le> nfree (demo_img ty n blk) demo_sb"
proof -
  have "card {47, 48 :: nat} \<le> card {b. b < sb_size demo_sb \<and> \<not> used (demo_img ty n blk) demo_sb b}"
    using demo_used by (intro card_mono) (auto simp: demo_sb_def)
  then show ?thesis by (simp add: nfree_def)
qed

lemma demo_iaddr: "iaddr v (demo_ino ty n) x = (if x = 0 then 46 else 0)" if "x \<le> MAXFILE"
  using that by (auto simp: iaddr_def demo_ino_def nth_Cons')

lemma demo_fs_ok: "fs_ok 1 0 (demo_st ty n blk)" "demo_par ty n blk \<Longrightarrow> file_ok (demo_img ty n blk) (demo_ino ty n)"
  "geom (demo_st ty n blk)" "bm_ok (demo_img ty n blk) demo_sb"
proof -
  have d: "dstart demo_sb = 46" by (simp add: dstart_def demo_sb_def)
  show g: "geom (demo_st ty n blk)" by (simp add: geom_def sb_ok_def d, simp add: demo_sb_def)
  show bm: "bm_ok (demo_img ty n blk) demo_sb" using demo_used(1) d by (simp add: bm_ok_def)
  have "inode_ok (demo_img ty n blk) demo_sb (demo_ino ty n)"
    unfolding inode_ok_def using demo_used(1) [of 46] d by (auto simp: demo_iaddr demo_sb_def) (simp add: demo_ino_def)
  then show "fs_ok 1 0 (demo_st ty n blk)" using g bm demo_fs_cache(2) by (simp add: fs_ok_def demo_ino_def)
  show "file_ok (demo_img ty n blk) (demo_ino ty n)" if "demo_par ty n blk" using that by (auto simp: file_ok_def demo_ino_def iaddr_def demo_par_def)
qed

lemma demo_content:
  assumes "demo_par ty n blk"
  shows "content (demo_img ty n blk) (demo_ino ty n) = take n blk"
proof (rule nth_equalityI)
  show "length (content (demo_img ty n blk) (demo_ino ty n)) = length (take n blk)" using assms by (simp add: content_def demo_ino_def demo_par_def)
  fix k assume "k < length (content (demo_img ty n blk) (demo_ino ty n))"
  then have k: "k < n" by (simp add: content_def demo_ino_def)
  then have "k < 1024" using assms by (simp add: demo_par_def)
  then have "iaddr (demo_img ty n blk) (demo_ino ty n) (k div BSIZE) = 46" "k mod BSIZE = k" by (simp_all add: iaddr_def demo_ino_def)
  then show "content (demo_img ty n blk) (demo_ino ty n) ! k = take n blk ! k" using k by (simp add: content_def fbyte_def demo_img_def demo_ino_def)
qed

lemma demo_fs_user: "runs_in 0 0x87FFC000 (demo_st ty n blk)" "user_wf (demo_st ty n blk) [0x87FFB000] 0x87FFC000" "umapped 0x87FFC000 (demo_st ty n blk) 5 2"
proof -
  let ?s = "demo_st ty n blk"
  show "runs_in 0 0x87FFC000 ?s" by (simp add: runs_in_def demo_st_def demo_k_def myproc_def demo_proc_def)
  show "user_wf ?s [0x87FFB000] 0x87FFC000" using demo_k_user_wf user_wf_cong [of ?s demo_k] by simp
  show "umapped 0x87FFC000 ?s 5 2" using demo_k_umapped umapped_cong [of ?s demo_k] by simp
qed

lemma demo_settled:
  assumes "demo_par ty n blk"
  shows "settled 1 0 (demo_st ty n blk)"
proof -
  have "parse_head (demo_img ty n blk 2) = Some []"
    by (simp add: demo_img_def parse_head_def get32_def sint32_def slice_def head_blocks_def le_val_replicate_0)
  moreover have "load_dinode (demo_img ty n blk (IBLOCK (i_inum (demo_ino ty n)) demo_sb)) (demo_ino ty n) = demo_ino ty n"
    using load_store_dinode [OF demo_ip_ok [OF assms], of "replicate 1024 0" "demo_ino ty n"] by (simp add: IBLOCK_def demo_sb_def demo_img_def demo_ino_def)
  moreover have "i_inum (demo_ino ty n) < sb_ninodes demo_sb" by (simp add: demo_ino_def demo_sb_def)
  ultimately show ?thesis using demo_fs_tx [OF assms] demo_fs_ok demo_ip_ok demo_fs_cache(2) assms by (simp add: settled_def)
qed

text \<open>The file with the bytes \<^verbatim>\<open>hello\<close>.\<close>

abbreviation hello :: "byte list" where
  "hello \<equiv> [104, 101, 108, 108, 111]"

abbreviation demo_ip :: inode where
  "demo_ip \<equiv> demo_ino 2 5"

definition demo_fs :: kst where
  "demo_fs = demo_st 2 5 (hello @ replicate 1019 0)"

lemma demo_hello: "demo_par 2 5 (hello @ replicate 1019 0)"
  by (simp add: demo_par_def short_ok_def)

lemmas demo_fs_facts = demo_fs_tx [OF demo_hello, folded demo_fs_def] demo_fs_ok [of 2 5 "hello @ replicate 1019 0", folded demo_fs_def]
  demo_settled [OF demo_hello, folded demo_fs_def] demo_fs_user [of 2 5 "hello @ replicate 1019 0", folded demo_fs_def] demo_ip_ok [OF demo_hello]

lemma demo_fs_view: "view 1 demo_fs = demo_img 2 5 (hello @ replicate 1019 0)" "content (view 1 demo_fs) demo_ip = hello" "free_bufs demo_fs = 30"
  "itable demo_fs ! 0 = demo_ip" "sb demo_fs = demo_sb" "log_start demo_fs = 2" "log_size demo_fs = 30" "disk demo_fs = demo_img 2 5 (hello @ replicate 1019 0)"
  "file_ok (view 1 demo_fs) demo_ip" "2 \<le> nfree (view 1 demo_fs) demo_sb"
  using demo_fs_cache [of 2 5 "hello @ replicate 1019 0"] demo_content [OF demo_hello] demo_fs_ok(2) [OF demo_hello] demo_nfree
  unfolding demo_fs_def by simp_all

theorem readi_correct_witness:
  "\<exists>s'. readi 0 (ToUser 5) 3 10 demo_fs = Ok (2, ToUser 7, s') \<and> uview 0x87FFC000 s' = vwrite 5 [108, 111] (uview 0x87FFC000 demo_fs)"
proof -
  have c: "[108, 111] = take 10 (drop 3 (content (view 1 demo_fs) (itable demo_fs ! 0)))" using demo_fs_view(2,4) by simp
  have m: "umapped 0x87FFC000 demo_fs 5 (length [108 :: byte, 111])" using demo_fs_facts(9) by (simp add: numeral_2_eq_2)
  have "\<exists>s'. readi 0 (ToUser 5) 3 10 demo_fs = Ok (int (length [108 :: byte, 111]), ToUser (5 + of_nat (length [108 :: byte, 111])), s') \<and>
      uview 0x87FFC000 s' = vwrite 5 [108, 111] (uview 0x87FFC000 demo_fs) \<and> user_wf s' [0x87FFB000] 0x87FFC000 \<and>
      view 1 s' = view 1 demo_fs \<and> tx 1 Map.empty 0 s' \<and> itable s' = itable demo_fs"
    by (rule readi_correct [OF demo_fs_facts(1,2) _ _ c demo_fs_facts(7,8) m]) (use demo_fs_view(4,9) in simp_all)
  then show ?thesis by auto
qed

lemma demo_fs_op:
  assumes "r \<le> 28"
  shows "tx 1 Map.empty r (demo_fs\<lparr>log_outstanding := 1\<rparr>)" "view 1 (demo_fs\<lparr>log_outstanding := 1\<rparr>) = view 1 demo_fs" "fs_ok 1 0 (demo_fs\<lparr>log_outstanding := 1\<rparr>)"
  using settled_begin [OF demo_fs_facts(6), of r] assms by (simp_all add: demo_fs_view(3,7))

theorem writei_correct_witness:
  "\<exists>s'. writei 0 (FromUser 5) 4 2 (demo_fs\<lparr>log_outstanding := 1\<rparr>) = Ok (2, s') \<and>
    content (view 1 s') (itable s' ! 0) = [104, 101, 108, 108] @ user_bytes 0x87FFC000 demo_fs 5 2"
proof -
  let ?s = "demo_fs\<lparr>log_outstanding := 1\<rparr>"
  have n: "nblk 4 2 = 1" by (simp add: nblk_def)
  have b: "tx 1 Map.empty (6 * nblk 4 2 + Suc 0) ?s" by (rule demo_fs_op) (simp add: n)
  have u: "umapped 0x87FFC000 ?s 5 2" "user_bytes 0x87FFC000 ?s 5 2 = user_bytes 0x87FFC000 demo_fs 5 2" "runs_in 0 0x87FFC000 ?s"
    using demo_fs_facts(7,9) umapped_cong [of ?s demo_fs] uview_cong [of ?s demo_fs] by (simp_all add: user_bytes_def runs_in_def myproc_def)
  from writei_correct [OF b demo_fs_op(3), of 28 demo_ip 0 "0x87FFC000" 5 hello] show ?thesis
    using u n demo_fs_op(2) [of 28] demo_fs_view demo_fs_facts(10) by (auto simp: demo_ino_def demo_sb_def)
qed

theorem write_atomic_witness:
  "\<exists>s1 s2 s3 r. begin_op demo_fs = Ok s1 \<and> writei 0 (FromUser 5) 4 2 s1 = Ok (2, s2) \<and> end_op s2 = Ok s3 \<and>
    disk_file (disk s3) demo_sb demo_ip = [104, 101, 108, 108] @ user_bytes 0x87FFC000 demo_fs 5 2 \<and>
    initlog 1 2 30 (binit demo_fs) = Ok r \<and>
    (disk_file (disk r) demo_sb demo_ip = hello \<or>
     disk_file (disk r) demo_sb demo_ip = [104, 101, 108, 108] @ user_bytes 0x87FFC000 demo_fs 5 2)"
proof -
  let ?new = "[104, 101, 108, 108] @ user_bytes 0x87FFC000 demo_fs 5 2"
  have n: "nblk 4 2 = 1" by (simp add: nblk_def)
  have b: "booted 1 (writes [] (disk demo_fs)) demo_fs"
    by (simp add: booted_def demo_fs_def) (simp add: demo_st_def demo_k_def myproc_def)
  have "\<exists>s1 s2 s3 tr. begin_op demo_fs = Ok s1 \<and> writei 0 (FromUser 5) 4 2 s1 = Ok (int 2, s2) \<and> end_op s2 = Ok s3 \<and>
    dtrace s3 = dtrace demo_fs @ tr \<and> disk_file (view 1 s3) (sb demo_fs) demo_ip = ?new \<and> disk_file (disk s3) (sb demo_fs) demo_ip = ?new \<and>
    (\<forall>ws rest (boot :: kst). tr = ws @ rest \<longrightarrow> booted 1 (writes ws (disk demo_fs)) boot \<longrightarrow>
      (\<exists>r. initlog 1 (log_start demo_fs) (log_size demo_fs) (binit boot) = Ok r \<and>
        (disk_file (disk r) (sb demo_fs) demo_ip = hello \<or> disk_file (disk r) (sb demo_fs) demo_ip = ?new)))"
    by (rule write_atomic [OF demo_fs_facts(6,7,9)])
      (use n demo_fs_view in \<open>simp_all add: demo_ino_def\<close>)
  then obtain s1 s2 s3 tr where w: "begin_op demo_fs = Ok s1" "writei 0 (FromUser 5) 4 2 s1 = Ok (2, s2)" "end_op s2 = Ok s3"
      "disk_file (disk s3) demo_sb demo_ip = ?new"
    and cr: "\<forall>ws rest (boot :: kst). tr = ws @ rest \<longrightarrow> booted 1 (writes ws (disk demo_fs)) boot \<longrightarrow>
      (\<exists>r. initlog 1 2 30 (binit boot) = Ok r \<and> (disk_file (disk r) demo_sb demo_ip = hello \<or> disk_file (disk r) demo_sb demo_ip = ?new))"
    unfolding demo_fs_view by auto
  from cr [rule_format, of "[]" tr, OF _ b] obtain r where "initlog 1 2 30 (binit demo_fs) = Ok r"
    "disk_file (disk r) demo_sb demo_ip = hello \<or> disk_file (disk r) demo_sb demo_ip = ?new" by auto
  with w show ?thesis by blast
qed

theorem balloc_bfree_correct_witness:
  "\<exists>b s1 s2. balloc 1 (demo_fs\<lparr>log_outstanding := 1\<rparr>) = Ok (b, s1) \<and> 46 \<le> b \<and> \<not> used (disk demo_fs) demo_sb b \<and> bfree 1 b s1 = Ok s2"
proof -
  let ?s = "demo_fs\<lparr>log_outstanding := 1\<rparr>"
  have v: "view 1 ?s = view 1 demo_fs" by (rule demo_fs_op(2) [of 3]) simp
  have pre: "tx 1 Map.empty (3 + 0) ?s" "geom ?s" "bm_ok (view 1 ?s) (sb ?s)"
    using demo_fs_op [of 3] by (simp_all add: fs_ok_def)
  have "\<exists>b < sb_size (sb ?s). \<not> used (view 1 ?s) (sb ?s) b"
    unfolding v demo_fs_view using demo_used(2) by (intro exI [of _ 47]) (simp add: demo_fs_view demo_sb_def)
  from balloc_bfree_correct [OF pre this] obtain b s1 s2 where "balloc 1 ?s = Ok (b, s1)" "dstart (sb ?s) \<le> b" "\<not> used (view 1 ?s) (sb ?s) b" "bfree 1 b s1 = Ok s2"
    by blast
  moreover have "dstart demo_sb = 46" by (simp add: dstart_def demo_sb_def)
  ultimately show ?thesis unfolding v using demo_fs_view(1,5,8) by auto
qed

end
