(* ===== verification/Dir_Correct.thy ===== *)
theory Dir_Correct
  imports File_Correct Dir
begin

text \<open>
  A directory is a map from names to inode numbers: \<^verbatim>\<open>dirlookup\<close> looks a name up in it and
  \<^verbatim>\<open>dirlink\<close> adds one.
\<close>

section \<open>The entries of a directory\<close>

fun dirents :: "byte list \<Rightarrow> byte list list" where
  "dirents c = (if length c < 16 then [] else take 16 c # dirents (drop 16 c))"

declare dirents.simps [simp del]

lemma dirents_append: "16 dvd length a \<Longrightarrow> dirents (a @ b) = dirents a @ dirents b"
proof (induction a rule: dirents.induct)
  case (1 a)
  show ?case
  proof (cases "length a < 16")
    case True
    with 1 have "a = []" by (auto dest: dvd_imp_le)
    then show ?thesis by (simp add: dirents.simps [of "[]"])
  next
    case False
    then have "16 dvd length (drop 16 a)" using 1(2) by auto
    then show ?thesis using 1(1) False by (simp add: dirents.simps [of "a @ b"] dirents.simps [of a])
  qed
qed

lemma dirents_simps [simp]: "dirents [] = []" "length de = 16 \<Longrightarrow> dirents de = [de]"
  by (simp_all add: dirents.simps)

lemma dirents_slice: "16 * k + 16 \<le> length c \<Longrightarrow> dirents c = dirents (take (16 * k) c) @ slice (16 * k) 16 c # dirents (drop (16 * k + 16) c)"
proof -
  assume k: "16 * k + 16 \<le> length c"
  have "c = take (16 * k) c @ slice (16 * k) 16 c @ drop (16 * k + 16) c"
    using k by (metis append_take_drop_id drop_drop slice_def add.commute)
  moreover have "dirents (take (16 * k) c @ slice (16 * k) 16 c @ drop (16 * k + 16) c) = dirents (take (16 * k) c) @ slice (16 * k) 16 c # dirents (drop (16 * k + 16) c)"
    using k by (subst dirents_append; simp add: slice_def) (subst dirents_append; simp)
  ultimately show ?thesis by metis
qed

text \<open>The map a directory stands for. Of two entries with one name the first counts; inode number 0 is an empty entry.\<close>

definition de_key :: "byte list \<Rightarrow> byte list" where
  "de_key name = take DIRSIZ (cstr name)"

fun dmap :: "byte list list \<Rightarrow> byte list \<rightharpoonup> nat" where
  "dmap [] = Map.empty"
| "dmap (de # des) = (if de_inum de = 0 then dmap des else (dmap des)(de_key (de_name de) \<mapsto> de_inum de))"

lemma dmap_skip: "de_inum de = 0 \<Longrightarrow> dmap (xs @ de # ys) = dmap (xs @ ys)"
  by (induction xs) simp_all

lemma dmap_add:
  "de_inum de \<noteq> 0 \<Longrightarrow> dmap (xs @ ys) (de_key (de_name de)) = None \<Longrightarrow> dmap (xs @ de # ys) = (dmap (xs @ ys))(de_key (de_name de) \<mapsto> de_inum de)"
proof (induction xs)
  case (Cons x xs)
  then show ?case
    by (cases "de_inum x = 0"; cases "de_key (de_name x) = de_key (de_name de)") (auto simp: fun_eq_iff)
qed simp

abbreviation dir_of :: "nat \<Rightarrow> nat \<Rightarrow> 'a fsst_scheme \<Rightarrow> byte list \<rightharpoonup> nat" where
  "dir_of d dp s \<equiv> dmap (dirents (content (view d s) (itable s ! dp)))"

definition dir_ok :: "nat \<Rightarrow> nat \<Rightarrow> 'a fsst_scheme \<Rightarrow> bool" where
  "dir_ok d dp s \<longleftrightarrow> fs_ok d dp s \<and> file_ok (view d s) (itable s ! dp) \<and> i_type (itable s ! dp) = T_DIR \<and> 16 dvd i_size (itable s ! dp)"

section \<open>Searching\<close>

definition hit :: "byte list \<Rightarrow> byte list \<Rightarrow> bool" where
  "hit name de \<longleftrightarrow> de_inum de \<noteq> 0 \<and> namecmp name (de_name de) = Some 0"

lemma dir_ok_frame:
  assumes "lframe s s'" "view d s' = view d s" "dir_ok d dp s"
  shows "dir_ok d dp s'" "itable s' = itable s"
  using lframe_fs [OF assms(1)] geom_frame [OF assms(1)] assms(2,3) by (simp_all add: dir_ok_def fs_ok_def)

lemma dirlookup_loop_ok:
  assumes "tx d Map.empty r s" "dir_ok d dp s" "\<forall>o'\<in>set offs. o' + 16 \<le> i_size (itable s ! dp)" "c = content (view d s) (itable s ! dp)"
  shows "\<exists>s'. tx d Map.empty r s' \<and> view d s' = view d s \<and> lframe s s' \<and> dirlookup_loop dp name offs s =
    (case find (\<lambda>o'. hit name (slice o' 16 c)) offs of None \<Rightarrow> Ok (None, s')
     | Some o' \<Rightarrow> rbind (iget d (de_inum (slice o' 16 c)) s') (\<lambda>(ip, s2). Ok (Some (ip, o'), s2)))"
  using assms
proof (induction offs arbitrary: s)
  case (Cons o' offs)
  have ok: "fs_ok d dp s" "file_ok (view d s) (itable s ! dp)" "o' + 16 \<le> i_size (itable s ! dp)" "i_dev (itable s ! dp) = d"
    using Cons.prems by (simp_all add: dir_ok_def fs_ok_def)
  from readi_stack [OF Cons.prems(1) ok(1-3)] obtain s1 where r: "readi dp (ToStack []) o' 16 s = Ok (16, ToStack (slice o' 16 c), s1)"
    "tx d Map.empty r s1" "view d s1 = view d s" "lframe s s1" using Cons.prems(4) by auto
  note f = dir_ok_frame [OF r(4,3) Cons.prems(2)]
  show ?case
  proof (cases "hit name (slice o' 16 c)")
    case True
    then show ?thesis using r f ok(4) by (intro exI [of _ s1]) (simp add: hit_def Let_def)
  next
    case False
    have "\<forall>o'\<in>set offs. o' + 16 \<le> i_size (itable s1 ! dp)" "c = content (view d s1) (itable s1 ! dp)" using Cons.prems(3,4) f(2) r(3) by simp_all
    from Cons.IH [OF r(2) f(1) this] obtain s2 where s2: "tx d Map.empty r s2" "view d s2 = view d s1" "lframe s1 s2"
      "dirlookup_loop dp name offs s1 = (case find (\<lambda>o'. hit name (slice o' 16 c)) offs of None \<Rightarrow> Ok (None, s2)
       | Some o' \<Rightarrow> rbind (iget d (de_inum (slice o' 16 c)) s2) (\<lambda>(ip, s2). Ok (Some (ip, o'), s2)))" by blast
    have "dirlookup_loop dp name (o' # offs) s = dirlookup_loop dp name offs s1" using r(1) False by (auto simp: hit_def Let_def)
    then show ?thesis using s2 r(3) lframe_trans [OF r(4) s2(3)] False by (intro exI [of _ s2]) simp
  qed
qed auto

lemma dirlink_slot_ok:
  assumes "tx d Map.empty r s" "dir_ok d dp s" "\<forall>o'\<in>set offs. o' + 16 \<le> i_size (itable s ! dp)" "c = content (view d s) (itable s ! dp)"
  shows "\<exists>s'. tx d Map.empty r s' \<and> view d s' = view d s \<and> lframe s s' \<and> dirlink_slot dp offs e s =
    Ok (case find (\<lambda>o'. de_inum (slice o' 16 c) = 0) offs of None \<Rightarrow> e | Some o' \<Rightarrow> o', s')"
  using assms
proof (induction offs arbitrary: s)
  case (Cons o' offs)
  have ok: "fs_ok d dp s" "file_ok (view d s) (itable s ! dp)" "o' + 16 \<le> i_size (itable s ! dp)"
    using Cons.prems by (simp_all add: dir_ok_def)
  from readi_stack [OF Cons.prems(1) ok] obtain s1 where r: "readi dp (ToStack []) o' 16 s = Ok (16, ToStack (slice o' 16 c), s1)"
    "tx d Map.empty r s1" "view d s1 = view d s" "lframe s s1" using Cons.prems(4) by auto
  note f = dir_ok_frame [OF r(4,3) Cons.prems(2)]
  show ?case
  proof (cases "de_inum (slice o' 16 c) = 0")
    case True
    then show ?thesis using r by (intro exI [of _ s1]) simp
  next
    case False
    have "\<forall>o'\<in>set offs. o' + 16 \<le> i_size (itable s1 ! dp)" "c = content (view d s1) (itable s1 ! dp)" using Cons.prems(3,4) f(2) r(3) by simp_all
    from Cons.IH [OF r(2) f(1) this] obtain s2 where s2: "tx d Map.empty r s2" "view d s2 = view d s1" "lframe s1 s2"
      "dirlink_slot dp offs e s1 = Ok (case find (\<lambda>o'. de_inum (slice o' 16 c) = 0) offs of None \<Rightarrow> e | Some o' \<Rightarrow> o', s2)" by blast
    then show ?thesis using r(1,3) lframe_trans [OF r(4) s2(3)] False by (intro exI [of _ s2]) simp
  qed
qed auto

lemma dirents_offs: "16 dvd length c \<Longrightarrow> dirents c = map (\<lambda>o'. slice o' 16 c) (de_offs (length c))"
proof (induction c rule: dirents.induct)
  case (1 c)
  show ?case
  proof (cases "length c < 16")
    case True
    with 1 have "c = []" by (auto dest: dvd_imp_le)
    then show ?thesis by (simp add: de_offs_def)
  next
    case False
    let ?n = "length (drop 16 c) div 16"
    have dvd: "16 dvd length (drop 16 c)" using False 1(2) by simp
    have n: "(length c + 15) div 16 = Suc ?n" "(length (drop 16 c) + 15) div 16 = ?n" using False 1(2) dvd by (auto simp: dvd_def)
    have "dirents c = slice 0 16 c # map (\<lambda>k. slice (16 * k) 16 (drop 16 c)) [0..<?n]"
      using 1(1) [OF False dvd] False n(2) by (simp add: dirents.simps [of c] de_offs_def slice_def)
    also have "\<dots> = map (\<lambda>k. slice (16 * k) 16 c) (0 # map Suc [0..<?n])" by (simp add: slice_def add.commute)
    also have "0 # map Suc [0..<?n] = [0..<Suc ?n]" by (simp add: map_Suc_upt upt_conv_Cons del: upt_Suc)
    finally show ?thesis by (simp add: de_offs_def n(1) del: upt_Suc)
  qed
qed

lemma hit_key:
  assumes "readable DIRSIZ name" "length de = 16"
  shows "hit name de \<longleftrightarrow> de_inum de \<noteq> 0 \<and> de_key (de_name de) = de_key name"
proof -
  have "readable DIRSIZ (de_name de)" using assms(2) by (simp add: readable_def de_name_def)
  from strncmp_zero_iff [OF assms(1) this] show ?thesis by (auto simp: hit_def namecmp_def de_key_def)
qed

lemma dmap_find:
  assumes "readable DIRSIZ name" "\<forall>x\<in>set xs. length (f x) = 16"
  shows "dmap (map f xs) (de_key name) = map_option (\<lambda>x. de_inum (f x)) (find (\<lambda>x. hit name (f x)) xs)"
  using assms(2) by (induction xs) (auto simp: hit_key [OF assms(1)])

lemma de_offs_bound: "16 dvd n \<Longrightarrow> o' \<in> set (de_offs n) \<Longrightarrow> o' + 16 \<le> n"
  by (auto simp: de_offs_def dvd_def)

text \<open>The offset of a directory's entry, and the entry's place in the map.\<close>

lemma dir_search:
  assumes "dir_ok d dp s" "c = content (view d s) (itable s ! dp)" "readable DIRSIZ name"
  shows "length c = i_size (itable s ! dp)" "16 dvd length c" "\<forall>o'\<in>set (de_offs (length c)). o' + 16 \<le> i_size (itable s ! dp)"
    "dir_of d dp s (de_key name) = map_option (\<lambda>o'. de_inum (slice o' 16 c)) (find (\<lambda>o'. hit name (slice o' 16 c)) (de_offs (length c)))"
proof -
  show l: "length c = i_size (itable s ! dp)" "16 dvd length c" using assms(1,2) by (simp_all add: content_def dir_ok_def)
  show b: "\<forall>o'\<in>set (de_offs (length c)). o' + 16 \<le> i_size (itable s ! dp)" using de_offs_bound l by simp
  then have "\<forall>o'\<in>set (de_offs (length c)). length (slice o' 16 c) = 16" using l(1) by (auto simp: slice_def)
  from dmap_find [OF assms(3) this] show "dir_of d dp s (de_key name) = map_option (\<lambda>o'. de_inum (slice o' 16 c)) (find (\<lambda>o'. hit name (slice o' 16 c)) (de_offs (length c)))"
    using dirents_offs [OF l(2)] assms(2) by simp
qed

lemma iget_ok:
  assumes "i_ref (itable s ! j) = 0" "j < length (itable s)"
  shows "\<exists>ip s'. iget d n s = Ok (ip, s') \<and> ip < length (itable s) \<and> i_inum (itable s' ! ip) = n \<and> i_dev (itable s' ! ip) = d \<and>
    0 < i_ref (itable s' ! ip) \<and> (\<forall>k. k \<noteq> ip \<longrightarrow> itable s' ! k = itable s ! k) \<and> view e s' = view e s"
proof (cases "find_index (\<lambda>i. i_ref i > 0 \<and> i_dev i = d \<and> i_inum i = n) (itable s)")
  case None
  obtain ip where ip: "find_index (\<lambda>i. i_ref i = 0) (itable s) = Some ip" using assms find_index_None [of "\<lambda>i. i_ref i = 0" "itable s"]
    by (metis not_None_eq nth_mem)
  then show ?thesis using None find_index_Some [OF ip] by (auto simp: iget_def upd_inode_def bstate_cong [of "s\<lparr>itable := _\<rparr>" s])
next
  case (Some ip)
  then show ?thesis using find_index_Some [OF Some] by (auto simp: iget_def upd_inode_def bstate_cong [of "s\<lparr>itable := _\<rparr>" s])
qed

lemma dirlookup_ok:
  assumes "tx d Map.empty r s" "dir_ok d dp s" "readable DIRSIZ name" "c = content (view d s) (itable s ! dp)"
  shows "\<exists>s'. tx d Map.empty r s' \<and> view d s' = view d s \<and> lframe s s' \<and> dirlookup dp name s =
    (case find (\<lambda>o'. hit name (slice o' 16 c)) (de_offs (length c)) of None \<Rightarrow> Ok (None, s')
     | Some o' \<Rightarrow> rbind (iget d (de_inum (slice o' 16 c)) s') (\<lambda>(ip, s2). Ok (Some (ip, o'), s2)))"
  using dirlookup_loop_ok [OF assms(1,2) dir_search(3) [OF assms(2,4,3)] assms(4), of name] assms(2) dir_search(1) [OF assms(2,4,3)]
  by (simp add: dirlookup_def dir_ok_def)

section \<open>Adding an entry\<close>

text \<open>The entry \<^verbatim>\<open>dirlink\<close> writes.\<close>

lemma new_entry:
  assumes "readable DIRSIZ name" "inum < 2 ^ 16"
  shows "\<exists>nm. strncpy (replicate DIRSIZ 0) name DIRSIZ = Some nm \<and> length (le_bytes 2 inum @ nm) = 16 \<and>
    de_inum (le_bytes 2 inum @ nm) = inum \<and> de_key (de_name (le_bytes 2 inum @ nm)) = de_key name"
proof -
  from strncpy_strncmp [OF _ assms(1), of "replicate DIRSIZ 0"] obtain nm where nm: "strncpy (replicate DIRSIZ 0) name DIRSIZ = Some nm" "length nm = DIRSIZ"
    "cstr (take DIRSIZ nm) = take DIRSIZ (cstr name)" by auto
  have "length (cstr nm) \<le> length nm" unfolding cstr_def by (rule length_takeWhile_le)
  then show ?thesis using nm assms(2) by (simp add: de_inum_def de_key_def de_name_def le_val_le_bytes)
qed

text \<open>Putting it into an empty entry or at the end.\<close>

lemma dmap_write:
  assumes "16 dvd length c" "length de = 16" "de_inum de \<noteq> 0" "dmap (dirents c) (de_key (de_name de)) = None"
    and "off = (case find (\<lambda>o'. de_inum (slice o' 16 c) = 0) (de_offs (length c)) of None \<Rightarrow> length c | Some o' \<Rightarrow> o')"
  shows "dmap (dirents (take off c @ de @ drop (off + 16) c)) = (dmap (dirents c))(de_key (de_name de) \<mapsto> de_inum de)"
    and "off \<le> length c" "16 dvd off" "off + 16 \<le> length c \<or> off = length c"
proof -
  have "(\<exists>k. off = 16 * k \<and> 16 * k + 16 \<le> length c \<and> de_inum (slice off 16 c) = 0) \<or> off = length c"
    using assms(5) de_offs_bound [OF assms(1)] by (auto simp: de_offs_def find_Some_iff split: option.splits)
  then have "dmap (dirents (take off c @ de @ drop (off + 16) c)) = (dmap (dirents c))(de_key (de_name de) \<mapsto> de_inum de) \<and>
    off \<le> length c \<and> 16 dvd off \<and> (off + 16 \<le> length c \<or> off = length c)"
  proof (elim disjE exE conjE)
    fix k assume k: "off = 16 * k" "16 * k + 16 \<le> length c" "de_inum (slice off 16 c) = 0"
    let ?xs = "dirents (take off c)" and ?ys = "dirents (drop (off + 16) c)"
    have o: "dmap (dirents c) = dmap (?xs @ ?ys)" using dirents_slice [OF k(2)] dmap_skip [OF k(3), of ?xs ?ys] k(1) by simp
    have "16 dvd length (take off c)" using k(1,2) by simp
    then have "dirents (take off c @ de @ drop (off + 16) c) = ?xs @ de # ?ys" using assms(2) by (simp add: dirents_append)
    then show ?thesis using dmap_add [OF assms(3), of ?xs ?ys] assms(4) o k(1,2) by simp
  next
    assume k: "off = length c"
    then show ?thesis using dmap_add [OF assms(3), of "dirents c" "[]"] assms(1,2,4) by (simp add: dirents_append)
  qed
  then show "dmap (dirents (take off c @ de @ drop (off + 16) c)) = (dmap (dirents c))(de_key (de_name de) \<mapsto> de_inum de)"
    and "off \<le> length c" "16 dvd off" "off + 16 \<le> length c \<or> off = length c" by blast+
qed

text \<open>Up to its write, \<^verbatim>\<open>dirlink\<close> only finds the place for the entry.\<close>

lemma dirlink_place:
  assumes "tx d Map.empty r s" "dir_ok d dp s" "readable DIRSIZ name" "dir_of d dp s (de_key name) = None" "c = content (view d s) (itable s ! dp)"
    and "strncpy (replicate DIRSIZ 0) name DIRSIZ = Some nm"
    and "off = (case find (\<lambda>o'. de_inum (slice o' 16 c) = 0) (de_offs (length c)) of None \<Rightarrow> length c | Some o' \<Rightarrow> o')"
  shows "\<exists>s'. tx d Map.empty r s' \<and> view d s' = view d s \<and> dir_ok d dp s' \<and> itable s' = itable s \<and> sb s' = sb s \<and> dirlink dp name inum s =
    rbind (writei dp (FromStack (le_bytes 2 inum @ nm)) off 16 s') (\<lambda>(r, s3). if r \<noteq> 16 then Panic ''dirlink'' else Ok (0, s3))"
proof -
  note ds = dir_search [OF assms(2,5,3)]
  have "find (\<lambda>o'. hit name (slice o' 16 c)) (de_offs (length c)) = None" using ds(4) assms(4) by simp
  with dirlookup_ok [OF assms(1-3,5)] obtain s1 where s1: "dirlookup dp name s = Ok (None, s1)" "tx d Map.empty r s1"
    "view d s1 = view d s" "lframe s s1" by auto
  note f1 = dir_ok_frame [OF s1(4,3) assms(2)]
  have c1: "\<forall>o'\<in>set (de_offs (length c)). o' + 16 \<le> i_size (itable s1 ! dp)" "c = content (view d s1) (itable s1 ! dp)" using ds(3) f1(2) s1(3) assms(5) by simp_all
  from dirlink_slot_ok [OF s1(2) f1(1) c1, of "length c"] obtain s2 where s2: "tx d Map.empty r s2" "view d s2 = view d s1" "lframe s1 s2"
    "dirlink_slot dp (de_offs (length c)) (length c) s1 = Ok (off, s2)" unfolding assms(7) by blast
  note f2 = dir_ok_frame [OF s2(3,2) f1(1)]
  have "16 * ((i_size (itable s1 ! dp) + 15) div 16) = length c" using ds(1,2) f1(2) by (auto simp: dvd_def)
  then have "dirlink dp name inum s = rbind (writei dp (FromStack (le_bytes 2 inum @ nm)) off 16 s2) (\<lambda>(r, s3). if r \<noteq> 16 then Panic ''dirlink'' else Ok (0, s3))"
    using s1(1) s2(4) assms(6) ds(1) f1(2) by (simp add: dirlink_def Let_def)
  then show ?thesis using s2(1,2) s1(3) f1(2) f2 lframe_fs [OF s1(4)] lframe_fs [OF s2(3)] by auto
qed

lemma nblk_entry: "16 dvd off \<Longrightarrow> nblk off 16 = 1"
proof -
  assume "16 dvd off"
  then obtain k where k: "off = 16 * k" by blast
  have "(16 * k + 15) div (16 * 64) = (16 * k) div (16 * 64)" unfolding div_mult2_eq by simp
  then show ?thesis using k by (simp add: nblk_def)
qed

section \<open>Properties\<close>

text \<open>
  C11. \<^verbatim>\<open>dirlookup\<close> looks a name up in the map that the directory's contents stand for: without an
  entry it returns 0; with one it returns a referenced inode of the table with that inode number. It changes no
  block, and of the inode table at most the slot it returns.
\<close>

theorem dirlookup_correct:
  fixes s :: "'a fsst_scheme"
  assumes "tx d Map.empty r s" "dir_ok d dp s" "readable DIRSIZ name" "j < length (itable s)" "i_ref (itable s ! j) = 0"
  shows "case dir_of d dp s (de_key name) of
      None \<Rightarrow> \<exists>s'. dirlookup dp name s = Ok (None, s') \<and> view d s' = view d s \<and> itable s' = itable s
    | Some inum \<Rightarrow> \<exists>ip off s'. dirlookup dp name s = Ok (Some (ip, off), s') \<and> view d s' = view d s \<and>
        i_inum (itable s' ! ip) = inum \<and> i_dev (itable s' ! ip) = d \<and> 0 < i_ref (itable s' ! ip) \<and> (\<forall>k. k \<noteq> ip \<longrightarrow> itable s' ! k = itable s ! k)"
proof -
  define c where "c = content (view d s) (itable s ! dp)"
  from dirlookup_ok [OF assms(1-3) c_def] obtain s' where s': "view d s' = view d s" "lframe s s'" "dirlookup dp name s =
    (case find (\<lambda>o'. hit name (slice o' 16 c)) (de_offs (length c)) of None \<Rightarrow> Ok (None, s')
     | Some o' \<Rightarrow> rbind (iget d (de_inum (slice o' 16 c)) s') (\<lambda>(ip, s2). Ok (Some (ip, o'), s2)))" by blast
  have it: "itable s' = itable s" using lframe_fs [OF s'(2)] by simp
  note e = dir_search(4) [OF assms(2) c_def assms(3)]
  show ?thesis
  proof (cases "find (\<lambda>o'. hit name (slice o' 16 c)) (de_offs (length c))")
    case None
    then show ?thesis using e s' it by simp
  next
    case (Some o')
    from iget_ok [of s' j d "de_inum (slice o' 16 c)" d] obtain ip s2 where "iget d (de_inum (slice o' 16 c)) s' = Ok (ip, s2)"
      "i_inum (itable s2 ! ip) = de_inum (slice o' 16 c)" "i_dev (itable s2 ! ip) = d" "0 < i_ref (itable s2 ! ip)"
      "\<forall>k. k \<noteq> ip \<longrightarrow> itable s2 ! k = itable s' ! k" "view d s2 = view d s'" using assms(4,5) it by auto
    then show ?thesis using e s' it Some by simp
  qed
qed

text \<open>
  C10. \<^verbatim>\<open>dirlink\<close> adds an entry: when the name has none yet, it returns 0 and the directory then
  stands for the old map with the name mapped to the inode number, whether it reused an empty entry or made the
  directory longer; the directory stays well-formed, and the contents of files that share no block with it stay.
\<close>

theorem dirlink_correct:
  fixes s :: "'a fsst_scheme"
  assumes "tx d Map.empty (6 + Suc r) s" "dir_ok d dp s" "readable DIRSIZ name" "dir_of d dp s (de_key name) = None" "0 < inum" "inum < 2 ^ 16"
    and "i_size (itable s ! dp) + 16 \<le> MAXFILE * BSIZE" "2 \<le> nfree (view d s) (sb s)" "i_inum (itable s ! dp) < sb_ninodes (sb s)" "dinode_ok (itable s ! dp)"
  shows "\<exists>s'. dirlink dp name inum s = Ok (0, s') \<and> dir_of d dp s' = (dir_of d dp s)(de_key name \<mapsto> inum) \<and> dir_ok d dp s' \<and> tx d Map.empty r s' \<and>
    (\<forall>j. inode_ok (view d s) (sb s) j \<longrightarrow> file_ok (view d s) j \<longrightarrow> no_shared (view d s) (itable s ! dp) j \<longrightarrow> content (view d s') j = content (view d s) j)"
proof -
  define c where "c = content (view d s) (itable s ! dp)"
  note ds = dir_search [OF assms(2) c_def assms(3)]
  from new_entry [OF assms(3,6)] obtain nm where nm: "strncpy (replicate DIRSIZ 0) name DIRSIZ = Some nm" "length (le_bytes 2 inum @ nm) = 16"
    "de_inum (le_bytes 2 inum @ nm) = inum" "de_key (de_name (le_bytes 2 inum @ nm)) = de_key name" by blast
  define off where "off = (case find (\<lambda>o'. de_inum (slice o' 16 c) = 0) (de_offs (length c)) of None \<Rightarrow> length c | Some o' \<Rightarrow> o')"
  define de where "de = le_bytes 2 inum @ nm"
  have l: "length de = 16" "de_inum de \<noteq> 0" "dmap (dirents c) (de_key (de_name de)) = None"
    using nm assms(4,5) by (simp_all add: de_def c_def)
  note w = dmap_write [OF ds(2) l off_def]
  from dirlink_place [OF assms(1-4) c_def nm(1) off_def, of inum] obtain s2 where s2: "tx d Map.empty (6 + Suc r) s2" "view d s2 = view d s" "dir_ok d dp s2"
    "itable s2 = itable s" "sb s2 = sb s"
    "dirlink dp name inum s = rbind (writei dp (FromStack de) off 16 s2) (\<lambda>(r, s3). if r \<noteq> 16 then Panic ''dirlink'' else Ok (0, s3))"
    unfolding de_def by blast
  have pre: "off \<le> i_size (itable s2 ! dp)" "off + length de \<le> MAXFILE * BSIZE" "tx d Map.empty (6 * nblk off (length de) + Suc r) s2"
    "2 * nblk off (length de) \<le> nfree (view d s2) (sb s2)" "i_inum (itable s2 ! dp) < sb_ninodes (sb s2)" "dinode_ok (itable s2 ! dp)"
    "fs_ok d dp s2" "file_ok (view d s2) (itable s2 ! dp)" "stack_avail (FromStack de) s2 de"
    using w(2) ds(1) assms(7-10) l(1) nblk_entry [OF w(3)] s2 by (simp_all add: dir_ok_def stack_avail_def)
  from so.writei_ok [OF pre(9,7,8,1-6)] obtain s3 as n where s3: "writei dp (FromStack de) off 16 s2 = Ok (16, s3)" "tx d Map.empty r s3" "fs_ok d dp s3"
      "file_ok (view d s3) (itable s3 ! dp)" "itable s3 = (itable s)[dp := (itable s ! dp)\<lparr>i_addrs := as, i_size := n\<rparr>]"
      "content (view d s3) (itable s3 ! dp) = take off c @ de @ drop (off + 16) c"
      "\<forall>j. inode_ok (view d s) (sb s) j \<longrightarrow> file_ok (view d s) j \<longrightarrow> no_shared (view d s) (itable s ! dp) j \<longrightarrow> content (view d s3) j = content (view d s) j"
    using l(1) s2 c_def by auto
  have dp: "dp < length (itable s)" using assms(2) by (simp add: dir_ok_def fs_ok_def)
  have "i_size (itable s3 ! dp) = length (take off c @ de @ drop (off + 16) c)" using arg_cong [OF s3(6), of length] by (simp add: content_def)
  then have "16 dvd i_size (itable s3 ! dp)" using w(2-4) ds(2) l(1) by auto
  then have "dir_ok d dp s3" using s3(3-5) dp assms(2) by (simp add: dir_ok_def)
  moreover have "dir_of d dp s3 = (dir_of d dp s)(de_key name \<mapsto> inum)" unfolding s3(6) using w(1) nm(3,4) by (simp add: de_def c_def)
  ultimately show ?thesis using s2(6) s3(1,2,7) by (intro exI [of _ s3]) simp
qed

section \<open>Concrete instances\<close>

text \<open>A directory with the one entry \<^verbatim>\<open>.\<close> for inode 1.\<close>

definition demo_dir :: kst where
  "demo_dir = demo_st 1 16 ([1, 0, 46] @ replicate 1021 0)"

lemma demo_dot: "demo_par 1 16 ([1, 0, 46] @ replicate 1021 0)"
  by (simp add: demo_par_def short_ok_def)

lemma demo_dir_of: "itable demo_dir ! 0 = demo_ino 1 16" "content (view 1 demo_dir) (demo_ino 1 16) = [1, 0, 46] @ replicate 13 0" "dir_of 1 0 demo_dir = [[46] \<mapsto> 1]"
proof -
  show i: "itable demo_dir ! 0 = demo_ino 1 16" by (simp add: demo_dir_def)
  show c: "content (view 1 demo_dir) (demo_ino 1 16) = [1, 0, 46] @ replicate 13 0"
    using demo_content [OF demo_dot] demo_fs_cache(2) [of 1 16 "[1, 0, 46] @ replicate 1021 0"] by (simp add: demo_dir_def)
  show "dir_of 1 0 demo_dir = [[46] \<mapsto> 1]" unfolding i c by (simp add: de_inum_def de_key_def de_name_def cstr_def)
qed

lemma demo_dir_ok: "dir_ok 1 0 demo_dir"
  using demo_fs_ok(1,2) demo_dot demo_fs_cache(2) unfolding dir_ok_def demo_dir_def by (simp add: demo_ino_def)

theorem dirlookup_correct_witness:
  "\<exists>ip off s'. dirlookup 0 [46, 0] demo_dir = Ok (Some (ip, off), s') \<and> i_inum (itable s' ! ip) = 1"
proof -
  have t: "tx 1 Map.empty 0 demo_dir" unfolding demo_dir_def by (rule demo_fs_tx [OF demo_dot])
  have r: "readable DIRSIZ [46, 0]" by (simp add: readable_def)
  have j: "1 < length (itable demo_dir)" "i_ref (itable demo_dir ! 1) = 0" by (simp_all add: demo_dir_def demo_st_def inode0_def)
  have "dir_of 1 0 demo_dir (de_key [46, 0]) = Some 1" unfolding demo_dir_of(3) by (simp add: de_key_def cstr_def)
  with dirlookup_correct [OF t demo_dir_ok r j] show ?thesis by auto
qed

theorem dirlink_correct_witness:
  "\<exists>s'. dirlink 0 [97, 0] 2 (demo_dir\<lparr>log_outstanding := 1\<rparr>) = Ok (0, s') \<and> dir_of 1 0 s' = [[46] \<mapsto> 1, [97] \<mapsto> 2]"
proof -
  let ?s = "demo_dir\<lparr>log_outstanding := 1\<rparr>"
  have f: "free_bufs demo_dir = 30" "log_size demo_dir = 30" "sb demo_dir = demo_sb" "view 1 demo_dir = demo_img 1 16 ([1, 0, 46] @ replicate 1021 0)"
    using demo_fs_cache by (simp_all add: demo_dir_def)
  have "settled 1 0 demo_dir" unfolding demo_dir_def by (rule demo_settled [OF demo_dot])
  from settled_begin [OF this, of 7] have b: "tx 1 Map.empty (6 + Suc 0) ?s" "view 1 ?s = view 1 demo_dir" "fs_ok 1 0 ?s" by (simp_all add: f)
  have "dir_ok 1 0 ?s" using demo_dir_ok b(2,3) by (simp add: dir_ok_def)
  moreover have "readable DIRSIZ [97, 0]" by (simp add: readable_def)
  moreover have o: "dir_of 1 0 ?s = [[46] \<mapsto> 1]" using demo_dir_of b(2) by simp
  moreover have k: "de_key [97, 0] = [97]" by (simp add: de_key_def cstr_def)
  moreover have "2 \<le> nfree (view 1 ?s) (sb ?s)" "dinode_ok (itable ?s ! 0)" unfolding b(2) using demo_nfree demo_ip_ok [OF demo_dot] f demo_dir_of(1) by simp_all
  ultimately show ?thesis using dirlink_correct [OF b(1), of 0 "[97, 0]" 2] demo_dir_of(1) f(3) by (auto simp: demo_ino_def demo_sb_def)
qed

end
