(* ===== verification/Spec2Isabelle.thy ===== *)
theory Spec2Isabelle
  imports Trap Spinlock Grep Sh Uprintf Pipe_Correct Virtio_Correct Sbrk Dir_Correct
begin

text \<open>
  A verification of the xv6 kernel with memory-mapped files.
\<close>

end
